(* ===== verification/MAA_Prelude.thy ===== *)
theory MAA_Prelude
  imports Main "HOL-Library.Word"
begin

text \<open>
  Shared vocabulary of the development: machine integers at their widths, the result type in
  which every \<open>panic_if\<close>, \<open>assert\<close> and out-of-range access of the C++ code is a
  value, checked array accesses, the little-endian byte layout through which the scratchpad and
  the register file are read at several widths, and the two address helpers of
  \<open>MAA.hh\<close>.  The generic lemmas on these are collected in \<open>res_simps\<close>,
  \<open>arr_simps\<close> and \<open>mem_simps\<close>, which the component theories use.
\<close>

unbundle bit_operations_syntax

named_theorems res_simps \<open>sequencing of results\<close>
named_theorems arr_simps \<open>checked array accesses\<close>
named_theorems mem_simps \<open>byte memories\<close>

section \<open>Machine types and results\<close>

type_synonym u8 = "8 word"
type_synonym u16 = "16 word"
type_synonym u32 = "32 word"
type_synonym u64 = "64 word"
type_synonym Addr = "64 word"
type_synonym Tick = nat
type_synonym Cycles = nat

text \<open>
  How an operation can fail: \<open>panic_if\<close>/\<open>panic\<close>, a failing \<open>assert\<close>, an
  access outside an allocated array, an arithmetic operation C++ leaves undefined, and a loop that
  does not end.
\<close>

datatype maa_error = Panic | Assert_Fail | Out_Of_Bounds | Undefined_Arith | Diverges

type_synonym 'a res = "maa_error + 'a"

fun rbind :: "'a res \<Rightarrow> ('a \<Rightarrow> 'b res) \<Rightarrow> 'b res" where
  "rbind (Inl e) f = Inl e"
| "rbind (Inr x) f = f x"

definition is_ok :: "'a res \<Rightarrow> bool" where
  "is_ok r = (case r of Inl _ \<Rightarrow> False | Inr _ \<Rightarrow> True)"

section \<open>Checked arrays\<close>

definition arr_get :: "'a list \<Rightarrow> int \<Rightarrow> 'a res" where
  "arr_get xs i = (if 0 \<le> i \<and> nat i < length xs then Inr (xs ! nat i) else Inl Out_Of_Bounds)"

definition arr_set :: "'a list \<Rightarrow> int \<Rightarrow> 'a \<Rightarrow> 'a list res" where
  "arr_set xs i v = (if 0 \<le> i \<and> nat i < length xs then Inr (xs[nat i := v]) else Inl Out_Of_Bounds)"

definition arr_fill :: "'a list \<Rightarrow> nat \<Rightarrow> nat \<Rightarrow> 'a \<Rightarrow> 'a list res" where
  "arr_fill xs off n v =
     (if off + n \<le> length xs
      then Inr (take off xs @ replicate n v @ drop (off + n) xs) else Inl Out_Of_Bounds)"

section \<open>Byte memories, little endian\<close>

definition bytes_of :: "nat \<Rightarrow> 'a::len word \<Rightarrow> u8 list" where
  "bytes_of n w = map (\<lambda>k. ucast (drop_bit (8 * k) w)) [0..<n]"

definition word_of_bytes :: "u8 list \<Rightarrow> 'a::len word" where
  "word_of_bytes bs = foldr (\<lambda>b acc. ucast b OR push_bit 8 acc) bs 0"

definition mem_read :: "u8 list \<Rightarrow> nat \<Rightarrow> nat \<Rightarrow> u8 list res" where
  "mem_read m off n = (if off + n \<le> length m then Inr (take n (drop off m)) else Inl Out_Of_Bounds)"

definition mem_write :: "u8 list \<Rightarrow> nat \<Rightarrow> u8 list \<Rightarrow> u8 list res" where
  "mem_write m off vs =
     (if off + length vs \<le> length m
      then Inr (take off m @ vs @ drop (off + length vs) m) else Inl Out_Of_Bounds)"

section \<open>Clock arithmetic\<close>

text \<open>\<open>Clocked::cyclesToTicks\<close> and \<open>Clocked::ticksToCycles\<close> for a clock period.\<close>

definition cyclesToTicks :: "nat \<Rightarrow> Cycles \<Rightarrow> Tick" where
  "cyclesToTicks period c = period * c"

definition ticksToCycles :: "nat \<Rightarrow> Tick \<Rightarrow> Cycles" where
  "ticksToCycles period t = (t + period - 1) div period"

section \<open>Address helpers\<close>

definition addrBlockAligner :: "Addr \<Rightarrow> Addr \<Rightarrow> Addr" where
  "addrBlockAligner addr block_size = addr AND NOT (block_size - 1)"

text \<open>\<open>getCeiling\<close> on the non-negative counts it is called with.\<close>

definition getCeiling :: "nat \<Rightarrow> nat \<Rightarrow> nat" where
  "getCeiling a b = (a + b - 1) div b"

section \<open>Generic lemmas\<close>

lemma rbind_eq_Inr [res_simps]: "rbind r f = Inr y \<longleftrightarrow> (\<exists>x. r = Inr x \<and> f x = Inr y)"
  by (cases r) auto

lemma rbind_eq_Inl [res_simps]:
  "rbind r f = Inl e \<longleftrightarrow> r = Inl e \<or> (\<exists>x. r = Inr x \<and> f x = Inl e)"
  by (cases r) auto

lemma is_ok_simps [simp]: "is_ok (Inr x) = True" "is_ok (Inl e) = False"
  by (simp_all add: is_ok_def)

lemma is_okE: "is_ok r \<Longrightarrow> (\<And>x. r = Inr x \<Longrightarrow> P) \<Longrightarrow> P"
  by (cases r) auto

lemma case_okE:
  "(case r of Inl _ \<Rightarrow> False | Inr x \<Rightarrow> P x) \<Longrightarrow> (\<And>x. r = Inr x \<Longrightarrow> P x \<Longrightarrow> thesis) \<Longrightarrow> thesis"
  by (cases r) auto

lemma arr_get_Inr [arr_simps]:
  "arr_get xs i = Inr v \<longleftrightarrow> 0 \<le> i \<and> nat i < length xs \<and> v = xs ! nat i"
  by (auto simp: arr_get_def)

lemma arr_set_Inr [arr_simps]:
  "arr_set xs i v = Inr ys \<longleftrightarrow> 0 \<le> i \<and> nat i < length xs \<and> ys = xs[nat i := v]"
  by (auto simp: arr_set_def)

lemma nth_list_update_if: "xs[i := v] ! j = (if i = j \<and> j < length xs then v else xs ! j)"
  by (cases "i < length xs") (auto simp: nth_list_update list_update_beyond)

text \<open>Loops that search for the first index with a property.\<close>

lemma find_upt_Some:
  assumes "find P [a..<b] = Some i"
  shows "a \<le> i" "i < b" "P i" "\<And>j. a \<le> j \<Longrightarrow> j < i \<Longrightarrow> \<not> P j"
proof -
  obtain k where k: "k < b - a" "P ([a..<b] ! k)" "i = [a..<b] ! k" "\<forall>j<k. \<not> P ([a..<b] ! j)"
    using assms by (auto simp: find_Some_iff)
  then show "a \<le> i" "i < b" "P i" by auto
  fix j assume j: "a \<le> j" "j < i"
  with k have "j - a < k" by auto
  with k(4) have "\<not> P ([a..<b] ! (j - a))" by blast
  with j k show "\<not> P j" by auto
qed

lemma find_upt_None: "find P [a..<b] = None \<longleftrightarrow> (\<forall>i. a \<le> i \<longrightarrow> i < b \<longrightarrow> \<not> P i)"
  by (auto simp: find_None_iff)

lemma arr_fill_Inr [arr_simps]:
  "arr_fill xs off n v = Inr ys \<longleftrightarrow>
     off + n \<le> length xs \<and> ys = take off xs @ replicate n v @ drop (off + n) xs"
  by (auto simp: arr_fill_def)

lemma arr_fill_nth:
  assumes "arr_fill xs off n v = Inr ys" "i < length xs"
  shows "ys ! i = (if off \<le> i \<and> i < off + n then v else xs ! i)"
  using assms by (auto simp: arr_fill_Inr nth_append min_def)

lemma ticksToCycles_cyclesToTicks [simp]:
  "0 < period \<Longrightarrow> ticksToCycles period (cyclesToTicks period c) = c"
proof -
  assume p: "0 < period"
  have e: "period * c + period - 1 = (period - 1) + c * period"
    using p by (simp add: mult.commute)
  show ?thesis
    unfolding ticksToCycles_def cyclesToTicks_def e using p by (subst div_mult_self1) simp_all
qed

lemma ticksToCycles_mono: "t \<le> t' \<Longrightarrow> ticksToCycles period t \<le> ticksToCycles period t'"
  by (simp add: ticksToCycles_def div_le_mono)

lemma length_bytes_of [simp]: "length (bytes_of n w) = n"
  by (simp add: bytes_of_def)

lemma bytes_of_nth: "k < n \<Longrightarrow> bytes_of n w ! k = ucast (drop_bit (8 * k) w)"
  by (simp add: bytes_of_def)

lemma bit_word_of_bytes:
  "bit (word_of_bytes bs :: 'a::len word) n \<longleftrightarrow>
     n < LENGTH('a) \<and> n div 8 < length bs \<and> bit (bs ! (n div 8)) (n mod 8)"
proof (induction bs arbitrary: n)
  case Nil
  then show ?case by (simp add: word_of_bytes_def)
next
  case (Cons b bs)
  have unf: "(word_of_bytes (b # bs) :: 'a word) = ucast b OR push_bit 8 (word_of_bytes bs)"
    by (simp add: word_of_bytes_def)
  show ?case
  proof (cases "n < 8")
    case True
    then show ?thesis by (auto simp: unf bit_simps)
  next
    case False
    then have "n div 8 = Suc ((n - 8) div 8)" "n mod 8 = (n - 8) mod 8"
      by (simp_all add: le_div_geq le_mod_geq)
    moreover have "\<not> bit b n"
      using False by (auto dest: bit_imp_le_length)
    ultimately show ?thesis
      using False by (auto simp: unf bit_simps Cons.IH)
  qed
qed

lemma word_of_bytes_of:
  fixes w :: "'a::len word"
  assumes "LENGTH('a) \<le> 8 * n"
  shows "word_of_bytes (bytes_of n w) = w"
proof (rule bit_word_eqI)
  fix k assume k: "k < LENGTH('a)"
  with assms have lt: "k div 8 < n" by auto
  have "8 * (k div 8) + k mod 8 = k" by simp
  then show "bit (word_of_bytes (bytes_of n w) :: 'a word) k = bit w k"
    using k lt by (simp add: bit_word_of_bytes bytes_of_nth bit_simps)
qed

lemma mem_write_length: "mem_write m off vs = Inr m' \<Longrightarrow> length m' = length m"
  by (auto simp: mem_write_def split: if_splits)

lemma mem_read_write_same [mem_simps]:
  "mem_write m off vs = Inr m' \<Longrightarrow> mem_read m' off (length vs) = Inr vs"
  by (auto simp: mem_write_def mem_read_def split: if_splits)

lemma mem_write_nth:
  assumes "mem_write m off vs = Inr m'" "i < length m"
  shows "m' ! i = (if off \<le> i \<and> i < off + length vs then vs ! (i - off) else m ! i)"
  using assms by (auto simp: mem_write_def nth_append min_def split: if_splits)

lemma mem_read_write_other:
  assumes w: "mem_write m off vs = Inr m'" and d: "off2 + n \<le> off \<or> off + length vs \<le> off2"
  shows "mem_read m' off2 n = mem_read m off2 n"
proof (cases "off2 + n \<le> length m")
  case True
  have "take n (drop off2 m') = take n (drop off2 m)"
  proof (rule nth_equalityI)
    show "length (take n (drop off2 m')) = length (take n (drop off2 m))"
      using mem_write_length[OF w] by simp
  next
    fix i assume "i < length (take n (drop off2 m'))"
    then have i: "i < n" "off2 + i < length m"
      using mem_write_length[OF w] True by auto
    with d show "take n (drop off2 m') ! i = take n (drop off2 m) ! i"
      using mem_write_nth[OF w i(2)] mem_write_length[OF w] by auto
  qed
  with True show ?thesis by (simp add: mem_read_def mem_write_length[OF w])
next
  case False
  then show ?thesis by (simp add: mem_read_def mem_write_length[OF w])
qed

lemma mem_write_ok [mem_simps]: "off + length vs \<le> length m \<Longrightarrow> \<exists>m'. mem_write m off vs = Inr m'"
  by (simp add: mem_write_def)

text \<open>The block aligner for a power-of-two block clears the low address bits.\<close>

lemma addrBlockAligner_bit:
  "bit (addrBlockAligner a (2 ^ k)) n \<longleftrightarrow> bit a n \<and> k \<le> n" if "k < 64"
proof -
  have "(2 ^ k - 1 :: Addr) = mask k" by (simp add: mask_eq_exp_minus_1)
  then show ?thesis
    by (auto simp: addrBlockAligner_def bit_simps dest: bit_imp_le_length)
qed

lemma addrBlockAligner_idem:
  "k < 64 \<Longrightarrow> addrBlockAligner (addrBlockAligner a (2 ^ k)) (2 ^ k) = addrBlockAligner a (2 ^ k)"
  by (rule bit_word_eqI) (simp add: addrBlockAligner_bit)

end
