(* ===== verification/SPD_Model.thy ===== *)
theory SPD_Model
  imports MAA_Prelude
begin

text \<open>
  The scratchpad and the scalar register file (\<open>SPD.hh\<close>, \<open>SPD.cc\<close>).  Tile data is
  one byte array, read and written at 4 or 8 bytes, so an 8-byte tile covers two consecutive tile
  numbers, as in the code.  Every operation keeps its \<open>check_tile_id\<close> guard; the accesses the
  code makes without a guard are checked array accesses, so that an access outside the allocation
  is the value \<open>Out_Of_Bounds\<close>.  Sizes are natural numbers: \<open>spd_wf\<close> asks for an
  allocation below 2 GiB, which keeps the 32-bit index arithmetic of the code exact.
  The states of the functional units, which \<open>wakeup_waiting_units\<close> asserts, are the
  parameter \<open>unit_ok\<close>; the scheduled units are part of the result.
\<close>

section \<open>State\<close>

datatype FuncUnitType = STREAM | INDIRECT | INVALIDATOR | ALU | RANGE | FuncUnit_MAX

datatype SPD_TileStatus = Tile_Idle | Tile_Service | Tile_Finished

record spd =
  tiles_data :: "u8 list"
  tiles_status :: "SPD_TileStatus list"
  tiles_dirty :: "bool list"
  tiles_ready :: "u8 list"
  tiles_size :: "u32 list"
  element_finished :: "bool list"
  waiting_units_funcs :: "FuncUnitType list list"
  waiting_units_ids :: "int list list"
  num_tiles :: nat
  num_tile_elements :: nat
  read_port_busy_until :: "Tick list"
  write_port_busy_until :: "Tick list"
  read_latency :: Cycles
  write_latency :: Cycles

type_synonym waked = "(FuncUnitType \<times> int) list"

section \<open>Operations\<close>

definition SPD_init :: "Tick \<Rightarrow> nat \<Rightarrow> nat \<Rightarrow> Cycles \<Rightarrow> Cycles \<Rightarrow> nat \<Rightarrow> nat \<Rightarrow> spd" where
  "SPD_init now ntiles nelems rlat wlat nread nwrite =
     \<lparr> tiles_data = replicate (ntiles * nelems * 4) 0,
       tiles_status = replicate ntiles Tile_Finished,
       tiles_dirty = replicate ntiles False,
       tiles_ready = replicate ntiles 0,
       tiles_size = replicate ntiles 0,
       element_finished = replicate (ntiles * nelems) True,
       waiting_units_funcs = replicate ntiles [],
       waiting_units_ids = replicate ntiles [],
       num_tiles = ntiles, num_tile_elements = nelems,
       read_port_busy_until = replicate nread now,
       write_port_busy_until = replicate nwrite now,
       read_latency = rlat, write_latency = wlat \<rparr>"

definition check_tile_id :: "spd \<Rightarrow> int \<Rightarrow> nat \<Rightarrow> unit res" where
  "check_tile_id s tile_id word_size =
     (if tile_id < 0 \<or> tile_id \<ge> int (num_tiles s) then Inl Panic
      else if word_size \<noteq> 4 \<and> word_size \<noteq> 8 then Inl Panic
      else if word_size = 8 \<and> tile_id \<ge> int (num_tiles s) - 1 then Inl Panic
      else Inr ())"

definition check_tile_element_id :: "spd \<Rightarrow> int \<Rightarrow> int \<Rightarrow> nat \<Rightarrow> unit res" where
  "check_tile_element_id s tile_id element_id word_size =
     rbind (check_tile_id s tile_id word_size) (\<lambda>_.
       if element_id < 0 \<or> element_id \<ge> int (num_tile_elements s) then Inl Panic else Inr ())"

text \<open>The byte offset of an element, and the slot of its finished flag.\<close>

definition data_offset :: "spd \<Rightarrow> int \<Rightarrow> int \<Rightarrow> nat \<Rightarrow> nat" where
  "data_offset s tile_id element_id sz =
     nat tile_id * num_tile_elements s * 4 + nat element_id * sz"

definition finished_slot :: "spd \<Rightarrow> int \<Rightarrow> int \<Rightarrow> nat \<Rightarrow> nat" where
  "finished_slot s tile_id element_id sz =
     nat tile_id * num_tile_elements s + nat element_id * sz div 4"

text \<open>\<open>getData<T>\<close> and \<open>setData<T>\<close> for a type of \<open>sz\<close> bytes.\<close>

definition getData_bytes :: "spd \<Rightarrow> int \<Rightarrow> int \<Rightarrow> nat \<Rightarrow> u8 list res" where
  "getData_bytes s tile_id element_id sz =
     rbind (check_tile_element_id s tile_id element_id sz) (\<lambda>_.
       mem_read (tiles_data s) (data_offset s tile_id element_id sz) sz)"

definition setData_bytes :: "spd \<Rightarrow> int \<Rightarrow> int \<Rightarrow> u8 list \<Rightarrow> spd res" where
  "setData_bytes s tile_id element_id vs =
     (let sz = length vs in
      rbind (check_tile_element_id s tile_id element_id sz) (\<lambda>_.
      rbind (mem_write (tiles_data s) (data_offset s tile_id element_id sz) vs) (\<lambda>d.
      rbind (arr_set (element_finished s) (int (finished_slot s tile_id element_id sz)) True) (\<lambda>ef.
        Inr (s\<lparr> tiles_data := d, element_finished := ef \<rparr>)))))"

definition getData_u32 :: "spd \<Rightarrow> int \<Rightarrow> int \<Rightarrow> u32 res" where
  "getData_u32 s tile_id element_id =
     rbind (getData_bytes s tile_id element_id 4) (\<lambda>bs. Inr (word_of_bytes bs))"

definition getData_u64 :: "spd \<Rightarrow> int \<Rightarrow> int \<Rightarrow> u64 res" where
  "getData_u64 s tile_id element_id =
     rbind (getData_bytes s tile_id element_id 8) (\<lambda>bs. Inr (word_of_bytes bs))"

definition setData_u32 :: "spd \<Rightarrow> int \<Rightarrow> int \<Rightarrow> u32 \<Rightarrow> spd res" where
  "setData_u32 s tile_id element_id v = setData_bytes s tile_id element_id (bytes_of 4 v)"

definition setData_u64 :: "spd \<Rightarrow> int \<Rightarrow> int \<Rightarrow> u64 \<Rightarrow> spd res" where
  "setData_u64 s tile_id element_id v = setData_bytes s tile_id element_id (bytes_of 8 v)"

definition setFakeData :: "spd \<Rightarrow> int \<Rightarrow> int \<Rightarrow> nat \<Rightarrow> spd res" where
  "setFakeData s tile_id element_id word_size =
     rbind (check_tile_element_id s tile_id element_id word_size) (\<lambda>_.
     rbind (arr_set (element_finished s) (int (finished_slot s tile_id element_id word_size)) True) (\<lambda>ef.
       Inr (s\<lparr> element_finished := ef \<rparr>)))"

definition wakeup_waiting_units ::
  "(FuncUnitType \<Rightarrow> int \<Rightarrow> bool) \<Rightarrow> spd \<Rightarrow> int \<Rightarrow> (waked \<times> spd) res" where
  "wakeup_waiting_units unit_ok s tile_id =
     rbind (arr_get (waiting_units_funcs s) tile_id) (\<lambda>fs.
     rbind (arr_get (waiting_units_ids s) tile_id) (\<lambda>ids.
       let us = filter (\<lambda>(f, _). f \<noteq> INVALIDATOR \<and> f \<noteq> FuncUnit_MAX) (zip fs ids) in
       if list_all (\<lambda>(f, i). unit_ok f i) us
       then Inr (us, s\<lparr> waiting_units_funcs := (waiting_units_funcs s)[nat tile_id := []],
                        waiting_units_ids := (waiting_units_ids s)[nat tile_id := []] \<rparr>)
       else Inl Assert_Fail))"

text \<open>The port loop keeps the first port with the least busy-until tick.\<close>

definition min_busy_port :: "Tick list \<Rightarrow> nat" where
  "min_busy_port ps =
     fst (foldl (\<lambda>(mp, mv) i. if ps ! i < mv then (i, ps ! i) else (mp, mv)) (0, ps ! 0) [0..<length ps])"

definition port_advance :: "Tick \<Rightarrow> nat \<Rightarrow> Cycles \<Rightarrow> nat \<Rightarrow> Tick list \<Rightarrow> (Cycles \<times> Tick list) res" where
  "port_advance now period latency n ps =
     (if ps = [] then Inl Out_Of_Bounds
      else let p = min_busy_port ps;
               t = max now (ps ! p) + cyclesToTicks period (latency * n)
           in if t < now then Inl Panic
              else Inr (ticksToCycles period (t - now), ps[p := t]))"

definition getDataLatency :: "Tick \<Rightarrow> nat \<Rightarrow> spd \<Rightarrow> int \<Rightarrow> (Cycles \<times> spd) res" where
  "getDataLatency now period s num_accesses =
     (if num_accesses = 0 then Inr (0, s)
      else if num_accesses < 0 then Inl Panic
      else rbind (port_advance now period (read_latency s) (nat num_accesses) (read_port_busy_until s))
             (\<lambda>(c, ps). Inr (c, s\<lparr> read_port_busy_until := ps \<rparr>)))"

definition setDataLatency ::
  "(FuncUnitType \<Rightarrow> int \<Rightarrow> bool) \<Rightarrow> Tick \<Rightarrow> nat \<Rightarrow> spd \<Rightarrow> int \<Rightarrow> int \<Rightarrow> (Cycles \<times> waked \<times> spd) res" where
  "setDataLatency unit_ok now period s tile_id num_accesses =
     rbind (check_tile_id s tile_id 4) (\<lambda>_.
       if num_accesses = 0 then Inr (0, [], s)
       else if num_accesses < 0 then Inl Panic
       else rbind (port_advance now period (write_latency s) (nat num_accesses) (write_port_busy_until s))
              (\<lambda>(c, ps). rbind (wakeup_waiting_units unit_ok (s\<lparr> write_port_busy_until := ps \<rparr>) tile_id)
                 (\<lambda>(us, s'). Inr (c, us, s'))))"

definition getTileStatus :: "spd \<Rightarrow> int \<Rightarrow> SPD_TileStatus res" where
  "getTileStatus s tile_id =
     rbind (check_tile_id s tile_id 4) (\<lambda>_. arr_get (tiles_status s) tile_id)"

text \<open>One write of a per-tile flag, and a second one to the next tile when the word is 8 bytes.\<close>

definition set_pair :: "'a list \<Rightarrow> int \<Rightarrow> nat \<Rightarrow> 'a \<Rightarrow> 'a list res" where
  "set_pair xs tile_id word_size v =
     rbind (arr_set xs tile_id v) (\<lambda>ys.
       if word_size = 8 then arr_set ys (tile_id + 1) v else Inr ys)"

definition setTileIdle :: "spd \<Rightarrow> int \<Rightarrow> nat \<Rightarrow> spd res" where
  "setTileIdle s tile_id word_size =
     rbind (check_tile_id s tile_id 4) (\<lambda>_.
     rbind (set_pair (tiles_status s) tile_id word_size Tile_Idle) (\<lambda>st.
     rbind (arr_fill (element_finished s) (nat tile_id * num_tile_elements s)
              (num_tile_elements s * word_size div 4) False) (\<lambda>ef.
       Inr (s\<lparr> tiles_status := st, element_finished := ef \<rparr>))))"

definition setTileFinished :: "spd \<Rightarrow> int \<Rightarrow> nat \<Rightarrow> spd res" where
  "setTileFinished s tile_id word_size =
     rbind (check_tile_id s tile_id 4) (\<lambda>_.
     rbind (set_pair (tiles_status s) tile_id word_size Tile_Finished) (\<lambda>st.
       Inr (s\<lparr> tiles_status := st \<rparr>)))"

definition setTileService :: "spd \<Rightarrow> int \<Rightarrow> nat \<Rightarrow> spd res" where
  "setTileService s tile_id word_size =
     rbind (check_tile_id s tile_id 4) (\<lambda>_.
     rbind (set_pair (tiles_status s) tile_id word_size Tile_Service) (\<lambda>st.
       Inr (s\<lparr> tiles_status := st \<rparr>)))"

definition setTileDirty :: "spd \<Rightarrow> int \<Rightarrow> nat \<Rightarrow> spd res" where
  "setTileDirty s tile_id word_size =
     rbind (check_tile_id s tile_id 4) (\<lambda>_.
     rbind (set_pair (tiles_dirty s) tile_id word_size True) (\<lambda>d.
       Inr (s\<lparr> tiles_dirty := d \<rparr>)))"

definition setTileClean :: "spd \<Rightarrow> int \<Rightarrow> nat \<Rightarrow> spd res" where
  "setTileClean s tile_id word_size =
     rbind (check_tile_id s tile_id 4) (\<lambda>_.
     rbind (set_pair (tiles_dirty s) tile_id word_size False) (\<lambda>d.
       Inr (s\<lparr> tiles_dirty := d \<rparr>)))"

definition getTileDirty :: "spd \<Rightarrow> int \<Rightarrow> bool res" where
  "getTileDirty s tile_id =
     rbind (check_tile_id s tile_id 4) (\<lambda>_. arr_get (tiles_dirty s) tile_id)"

definition ready_add :: "u8 \<Rightarrow> spd \<Rightarrow> int \<Rightarrow> spd res" where
  "ready_add d s tile_id =
     rbind (arr_get (tiles_ready s) tile_id) (\<lambda>c.
     rbind (arr_set (tiles_ready s) tile_id (c + d)) (\<lambda>r. Inr (s\<lparr> tiles_ready := r \<rparr>)))"

definition setTileReady ::
  "(FuncUnitType \<Rightarrow> int \<Rightarrow> bool) \<Rightarrow> spd \<Rightarrow> int \<Rightarrow> nat \<Rightarrow> (waked \<times> spd) res" where
  "setTileReady unit_ok s tile_id word_size =
     rbind (check_tile_id s tile_id 4) (\<lambda>_.
     rbind (ready_add 1 s tile_id) (\<lambda>s1.
     rbind (wakeup_waiting_units unit_ok s1 tile_id) (\<lambda>(us, s2).
       if word_size = 8 then
         rbind (ready_add 1 s2 (tile_id + 1)) (\<lambda>s3.
         rbind (wakeup_waiting_units unit_ok s3 (tile_id + 1)) (\<lambda>(us', s4). Inr (us @ us', s4)))
       else Inr (us, s2))))"

definition setTileNotReady :: "spd \<Rightarrow> int \<Rightarrow> nat \<Rightarrow> spd res" where
  "setTileNotReady s tile_id word_size =
     rbind (check_tile_id s tile_id 4) (\<lambda>_.
     rbind (ready_add (- 1) s tile_id) (\<lambda>s1.
       if word_size = 8 then ready_add (- 1) s1 (tile_id + 1) else Inr s1))"

definition getTileReady :: "spd \<Rightarrow> int \<Rightarrow> bool res" where
  "getTileReady s tile_id =
     rbind (check_tile_id s tile_id 4) (\<lambda>_.
     rbind (arr_get (tiles_ready s) tile_id) (\<lambda>c. Inr (c = 0)))"

text \<open>
  The waiting test looks the identifier and the unit type up independently, each in its own
  vector, exactly as the code does.
\<close>

definition add_waiter :: "spd \<Rightarrow> nat \<Rightarrow> FuncUnitType \<Rightarrow> int \<Rightarrow> spd" where
  "add_waiter s t func uid =
     s\<lparr> waiting_units_funcs := (waiting_units_funcs s)[t := waiting_units_funcs s ! t @ [func]],
        waiting_units_ids := (waiting_units_ids s)[t := waiting_units_ids s ! t @ [uid]] \<rparr>"

definition getElementFinished ::
  "spd \<Rightarrow> int \<Rightarrow> int \<Rightarrow> nat \<Rightarrow> FuncUnitType \<Rightarrow> int \<Rightarrow> (bool \<times> spd) res" where
  "getElementFinished s tile_id element_id word_size func uid =
     rbind (check_tile_id s tile_id 4) (\<lambda>_.
     rbind (if element_id < 0 \<or> element_id \<ge> int (num_tile_elements s) then Inr False
            else arr_get (element_finished s) (int (finished_slot s tile_id element_id word_size))) (\<lambda>fin.
     rbind (arr_get (waiting_units_funcs s) tile_id) (\<lambda>fs.
     rbind (arr_get (waiting_units_ids s) tile_id) (\<lambda>ids.
       if \<not> fin \<and> (uid \<notin> set ids \<or> func \<notin> set fs)
       then Inr (fin, add_waiter s (nat tile_id) func uid)
       else Inr (fin, s)))))"

definition getSize :: "spd \<Rightarrow> int \<Rightarrow> int res" where
  "getSize s tile_id =
     rbind (getTileStatus s tile_id) (\<lambda>st.
       if st \<noteq> Tile_Finished then Inl Panic
       else rbind (arr_get (tiles_size s) tile_id) (\<lambda>n. Inr (sint n)))"

definition setSize :: "spd \<Rightarrow> int \<Rightarrow> int \<Rightarrow> spd res" where
  "setSize s tile_id new_size =
     (if tile_id < 0 \<or> tile_id \<ge> int (num_tiles s) then Inl Assert_Fail
      else if new_size < 0 \<or> new_size > int (num_tile_elements s) then Inl Panic
      else rbind (arr_set (tiles_size s) tile_id (word_of_int new_size)) (\<lambda>sz.
             Inr (s\<lparr> tiles_size := sz \<rparr>)))"

subsection \<open>Register file\<close>

record rf =
  rf_data :: "u8 list"
  num_regs :: nat

definition RF_init :: "nat \<Rightarrow> rf" where
  "RF_init n = \<lparr> rf_data = replicate (n * 4) 0, num_regs = n \<rparr>"

definition check_reg_id :: "rf \<Rightarrow> int \<Rightarrow> nat \<Rightarrow> unit res" where
  "check_reg_id r reg_id sz =
     (if reg_id < 0 \<or> reg_id \<ge> int (num_regs r) then Inl Panic
      else if sz \<noteq> 4 \<and> sz \<noteq> 8 then Inl Panic
      else if sz = 8 \<and> reg_id \<ge> int (num_regs r) - 1 then Inl Panic
      else Inr ())"

definition rf_getData_bytes :: "rf \<Rightarrow> int \<Rightarrow> nat \<Rightarrow> u8 list res" where
  "rf_getData_bytes r reg_id sz =
     rbind (check_reg_id r reg_id sz) (\<lambda>_. mem_read (rf_data r) (nat reg_id * 4) sz)"

definition rf_setData_bytes :: "rf \<Rightarrow> int \<Rightarrow> u8 list \<Rightarrow> rf res" where
  "rf_setData_bytes r reg_id vs =
     rbind (check_reg_id r reg_id (length vs)) (\<lambda>_.
     rbind (mem_write (rf_data r) (nat reg_id * 4) vs) (\<lambda>d. Inr (r\<lparr> rf_data := d \<rparr>)))"

definition rf_getData_u32 :: "rf \<Rightarrow> int \<Rightarrow> u32 res" where
  "rf_getData_u32 r reg_id = rbind (rf_getData_bytes r reg_id 4) (\<lambda>bs. Inr (word_of_bytes bs))"

definition rf_getData_u64 :: "rf \<Rightarrow> int \<Rightarrow> u64 res" where
  "rf_getData_u64 r reg_id = rbind (rf_getData_bytes r reg_id 8) (\<lambda>bs. Inr (word_of_bytes bs))"

definition rf_setData_u32 :: "rf \<Rightarrow> int \<Rightarrow> u32 \<Rightarrow> rf res" where
  "rf_setData_u32 r reg_id v = rf_setData_bytes r reg_id (bytes_of 4 v)"

definition rf_setData_u64 :: "rf \<Rightarrow> int \<Rightarrow> u64 \<Rightarrow> rf res" where
  "rf_setData_u64 r reg_id v = rf_setData_bytes r reg_id (bytes_of 8 v)"


section \<open>Well-formedness and the shared lemmas\<close>

definition spd_wf :: "spd \<Rightarrow> bool" where
  "spd_wf s \<longleftrightarrow>
     num_tiles s * num_tile_elements s * 4 < 2 ^ 31 \<and>
     length (tiles_data s) = num_tiles s * num_tile_elements s * 4 \<and>
     length (element_finished s) = num_tiles s * num_tile_elements s \<and>
     length (tiles_status s) = num_tiles s \<and> length (tiles_dirty s) = num_tiles s \<and>
     length (tiles_ready s) = num_tiles s \<and> length (tiles_size s) = num_tiles s \<and>
     list_all (\<lambda>n. unat n \<le> num_tile_elements s) (tiles_size s) \<and>
     length (waiting_units_funcs s) = num_tiles s \<and>
     map length (waiting_units_funcs s) = map length (waiting_units_ids s) \<and>
     read_port_busy_until s \<noteq> [] \<and> write_port_busy_until s \<noteq> []"

text \<open>Elements that an access of \<open>sz\<close> bytes may name.\<close>

definition valid_access :: "spd \<Rightarrow> int \<Rightarrow> int \<Rightarrow> nat \<Rightarrow> bool" where
  "valid_access s t e sz \<longleftrightarrow>
     (sz = 4 \<or> sz = 8) \<and> 0 \<le> t \<and> t + int (sz div 4) \<le> int (num_tiles s) \<and>
     0 \<le> e \<and> e < int (num_tile_elements s)"

lemma check_tile_element_id_eq:
  "check_tile_element_id s t e sz = (if valid_access s t e sz then Inr () else Inl Panic)"
  by (auto simp: check_tile_element_id_def check_tile_id_def valid_access_def)

lemma check_tile_id_4: "check_tile_id s t 4 = (if 0 \<le> t \<and> t < int (num_tiles s) then Inr () else Inl Panic)"
  by (auto simp: check_tile_id_def)

lemma tile_row_le:
  fixes t k n m :: nat
  assumes "t + k \<le> n" shows "t * m + k * m \<le> n * m"
  using mult_le_mono1[OF assms, of m] by (simp add: add_mult_distrib)

lemma access_in_bounds:
  assumes wf: "spd_wf s" and v: "valid_access s t e sz"
  shows "data_offset s t e sz + sz \<le> length (tiles_data s)"
    and "finished_slot s t e sz < length (element_finished s)"
proof -
  define N where "N = num_tile_elements s"
  define a where "a = nat t * N"
  from v have sz: "sz = 4 \<or> sz = 8" and e: "nat e < N" and t: "nat t + sz div 4 \<le> num_tiles s"
    by (auto simp: valid_access_def N_def)
  have r: "a + (sz div 4) * N \<le> num_tiles s * N"
    using tile_row_le[OF t, of N] by (simp add: a_def)
  have len: "length (tiles_data s) = num_tiles s * N * 4" "length (element_finished s) = num_tiles s * N"
    using wf by (auto simp: spd_wf_def N_def)
  from sz e r show "data_offset s t e sz + sz \<le> length (tiles_data s)"
    unfolding len data_offset_def N_def[symmetric] a_def[symmetric] by auto
  from sz e r show "finished_slot s t e sz < length (element_finished s)"
    unfolding len finished_slot_def N_def[symmetric] a_def[symmetric] by auto
qed

lemma getData_bytes_eq:
  assumes "spd_wf s"
  shows "getData_bytes s t e sz =
           (if valid_access s t e sz
            then Inr (take sz (drop (data_offset s t e sz) (tiles_data s))) else Inl Panic)"
  using access_in_bounds(1)[OF assms, of t e sz]
  by (simp add: getData_bytes_def check_tile_element_id_eq mem_read_def)

lemma setData_bytes_ok:
  assumes "spd_wf s" "valid_access s t e (length vs)"
  shows "\<exists>s'. setData_bytes s t e vs = Inr s'"
  using access_in_bounds[OF assms]
  by (simp add: setData_bytes_def Let_def check_tile_element_id_eq assms(2) mem_write_def arr_set_def)

lemma setData_bytes_Inr:
  assumes "setData_bytes s t e vs = Inr s'"
  shows "valid_access s t e (length vs)"
    and "\<exists>d. mem_write (tiles_data s) (data_offset s t e (length vs)) vs = Inr d \<and>
             s' = s\<lparr> tiles_data := d,
                     element_finished := (element_finished s)[finished_slot s t e (length vs) := True] \<rparr>"
  using assms
  by (auto simp: setData_bytes_def check_tile_element_id_eq res_simps arr_simps Let_def split: if_splits)

lemma setData_bytes_wf:
  assumes "spd_wf s" "setData_bytes s t e vs = Inr s'"
  shows "spd_wf s'" "num_tiles s' = num_tiles s" "num_tile_elements s' = num_tile_elements s"
  using setData_bytes_Inr(2)[OF assms(2)] assms(1)
  by (auto simp: spd_wf_def dest!: mem_write_length)

text \<open>Two accesses with disjoint byte ranges do not see each other.\<close>

lemma getData_setData_bytes_same:
  assumes "spd_wf s" "setData_bytes s t e vs = Inr s'"
  shows "getData_bytes s' t e (length vs) = Inr vs"
  using setData_bytes_Inr[OF assms(2)]
  by (auto simp: getData_bytes_def check_tile_element_id_eq valid_access_def data_offset_def
           dest!: mem_read_write_same)

lemma getData_setData_bytes_other:
  assumes "setData_bytes s t e vs = Inr s'"
    and "valid_access s t' e' sz \<Longrightarrow>
           data_offset s t' e' sz + sz \<le> data_offset s t e (length vs) \<or>
           data_offset s t e (length vs) + length vs \<le> data_offset s t' e' sz"
  shows "getData_bytes s' t' e' sz = getData_bytes s t' e' sz"
proof (cases "valid_access s t' e' sz")
  case True
  obtain d where d: "mem_write (tiles_data s) (data_offset s t e (length vs)) vs = Inr d"
    and s': "s' = s\<lparr> tiles_data := d,
                     element_finished := (element_finished s)[finished_slot s t e (length vs) := True] \<rparr>"
    using setData_bytes_Inr(2)[OF assms(1)] by blast
  have "valid_access s' t' e' sz" "data_offset s' t' e' sz = data_offset s t' e' sz"
    using True by (simp_all add: s' valid_access_def data_offset_def)
  then show ?thesis
    using mem_read_write_other[OF d assms(2)[OF True]] True
    by (simp add: getData_bytes_def check_tile_element_id_eq s')
next
  case False
  obtain d where s': "s' = s\<lparr> tiles_data := d,
                     element_finished := (element_finished s)[finished_slot s t e (length vs) := True] \<rparr>"
    using setData_bytes_Inr(2)[OF assms(1)] by blast
  have "\<not> valid_access s' t' e' sz" using False by (auto simp: s' valid_access_def)
  with False show ?thesis by (simp add: getData_bytes_def check_tile_element_id_eq)
qed

lemma tile_lt_row:
  fixes t t' m :: nat
  assumes "t < t'" shows "t * m + m \<le> t' * m"
  using mult_le_mono1[of "Suc t" t' m] assms by simp

lemma offsets_disjoint_u32:
  assumes "valid_access s t e 4" "valid_access s t' e' 4" "(t', e') \<noteq> (t, e)"
  shows "data_offset s t' e' 4 + 4 \<le> data_offset s t e 4 \<or> data_offset s t e 4 + 4 \<le> data_offset s t' e' 4"
proof -
  define N where "N = num_tile_elements s"
  have b: "nat e < N" "nat e' < N" using assms by (auto simp: valid_access_def N_def)
  consider "nat t = nat t'" "nat e \<noteq> nat e'" | "nat t < nat t'" | "nat t' < nat t"
    using assms by (force simp: valid_access_def nat_less_eq_zless)
  then show ?thesis
    using b tile_lt_row[of "nat t" "nat t'" N] tile_lt_row[of "nat t'" "nat t" N]
    unfolding data_offset_def N_def[symmetric] by cases auto
qed

lemma offsets_disjoint_same_tile:
  assumes "0 \<le> e" "0 \<le> e'" "e \<noteq> e'"
  shows "data_offset s t e' sz + sz \<le> data_offset s t e sz \<or> data_offset s t e sz + sz \<le> data_offset s t e' sz"
proof -
  have "nat e < nat e' \<or> nat e' < nat e" using assms by auto
  then show ?thesis
    using tile_lt_row[of "nat e" "nat e'" sz] tile_lt_row[of "nat e'" "nat e" sz]
    by (auto simp: data_offset_def)
qed

section \<open>Element stores as an interface\<close>

text \<open>
  What the functional units use of a tile: a total, invariant-keeping write of one element and the
  read-after-write law.  \<open>store_list\<close> is the sequence of element writes by which a unit
  fills a run of elements (a cache line, the outputs of a loop).
\<close>

fun store_list :: "('s \<Rightarrow> int \<Rightarrow> 'v \<Rightarrow> 's res) \<Rightarrow> 's \<Rightarrow> int \<Rightarrow> 'v list \<Rightarrow> 's res" where
  "store_list wr s e [] = Inr s"
| "store_list wr s e (v # vs) = rbind (wr s e v) (\<lambda>s'. store_list wr s' (e + 1) vs)"

locale element_store =
  fixes inv :: "'s \<Rightarrow> bool"
    and cap :: nat
    and rd :: "'s \<Rightarrow> int \<Rightarrow> 'v res"
    and wr :: "'s \<Rightarrow> int \<Rightarrow> 'v \<Rightarrow> 's res"
  assumes wr_total: "inv s \<Longrightarrow> 0 \<le> e \<Longrightarrow> e < int cap \<Longrightarrow> \<exists>s'. wr s e v = Inr s'"
    and wr_inv: "inv s \<Longrightarrow> wr s e v = Inr s' \<Longrightarrow> inv s'"
    and rd_wr: "inv s \<Longrightarrow> wr s e v = Inr s' \<Longrightarrow> rd s' e' = (if e' = e then Inr v else rd s e')"
begin

lemma store_list_total:
  "inv s \<Longrightarrow> 0 \<le> e \<Longrightarrow> e + int (length vs) \<le> int cap \<Longrightarrow> \<exists>s'. store_list wr s e vs = Inr s'"
proof (induction vs arbitrary: s e)
  case Nil
  then show ?case by simp
next
  case (Cons v vs)
  then obtain s1 where s1: "wr s e v = Inr s1" using wr_total[of s e v] by auto
  with Cons.prems have "\<exists>s'. store_list wr s1 (e + 1) vs = Inr s'"
    by (intro Cons.IH) (auto intro: wr_inv)
  with s1 show ?case by simp
qed

lemma store_list_inv: "inv s \<Longrightarrow> store_list wr s e vs = Inr s' \<Longrightarrow> inv s'"
  by (induction vs arbitrary: s e) (auto simp: res_simps intro: wr_inv)

lemma rd_store_list:
  "inv s \<Longrightarrow> store_list wr s e vs = Inr s' \<Longrightarrow>
   rd s' e' = (if e \<le> e' \<and> e' < e + int (length vs) then Inr (vs ! nat (e' - e)) else rd s e')"
proof (induction vs arbitrary: s e)
  case Nil
  then show ?case by auto
next
  case (Cons v vs)
  then obtain s1 where s1: "wr s e v = Inr s1" and r: "store_list wr s1 (e + 1) vs = Inr s'"
    by (auto simp: res_simps)
  have i: "inv s1" using Cons.prems(1) s1 by (rule wr_inv)
  have "e < e' \<Longrightarrow> nat (e' - e) = Suc (nat (e' - (e + 1)))" by simp
  then show ?case
    using Cons.IH[OF i r] rd_wr[OF Cons.prems(1) s1, of e'] by (cases "e' = e") auto
qed

end

text \<open>A tile of the scratchpad, at either word size, is such a store.\<close>

definition spd_shape :: "nat \<Rightarrow> nat \<Rightarrow> int \<Rightarrow> nat \<Rightarrow> spd \<Rightarrow> bool" where
  "spd_shape nt ne t sz s \<longleftrightarrow>
     spd_wf s \<and> num_tiles s = nt \<and> num_tile_elements s = ne \<and> 0 \<le> t \<and> t + int (sz div 4) \<le> int nt"

lemma spd_shape_valid:
  "spd_shape nt ne t sz s \<Longrightarrow> sz = 4 \<or> sz = 8 \<Longrightarrow> 0 \<le> e \<Longrightarrow> e < int ne \<Longrightarrow> valid_access s t e sz"
  by (auto simp: spd_shape_def valid_access_def)

lemma spd_shape_setData:
  "spd_shape nt ne t sz s \<Longrightarrow> setData_bytes s t' e vs = Inr s' \<Longrightarrow> spd_shape nt ne t sz s'"
  using setData_bytes_wf[of s t' e vs s'] by (simp add: spd_shape_def)

lemma rd_wr_u32:
  assumes "spd_wf s" "setData_u32 s t e v = Inr s'"
  shows "getData_u32 s' t' e' = (if t' = t \<and> e' = e then Inr v else getData_u32 s t' e')"
proof (cases "t' = t \<and> e' = e")
  case True
  then show ?thesis
    using getData_setData_bytes_same[OF assms(1) assms(2)[unfolded setData_u32_def]]
    by (simp add: getData_u32_def word_of_bytes_of)
next
  case False
  have v: "valid_access s t e 4"
    using setData_bytes_Inr(1)[OF assms(2)[unfolded setData_u32_def]] by simp
  have "getData_bytes s' t' e' 4 = getData_bytes s t' e' 4"
    by (rule getData_setData_bytes_other[OF assms(2)[unfolded setData_u32_def]])
      (use offsets_disjoint_u32[OF v] False in auto)
  with False show ?thesis by (auto simp: getData_u32_def)
qed

lemma rd_wr_u64:
  assumes "spd_wf s" "setData_u64 s t e v = Inr s'"
  shows "getData_u64 s' t e' = (if e' = e then Inr v else getData_u64 s t e')"
proof (cases "e' = e")
  case True
  then show ?thesis
    using getData_setData_bytes_same[OF assms(1) assms(2)[unfolded setData_u64_def]]
    by (simp add: getData_u64_def word_of_bytes_of)
next
  case False
  have v: "valid_access s t e 8"
    using setData_bytes_Inr(1)[OF assms(2)[unfolded setData_u64_def]] by simp
  have "getData_bytes s' t e' 8 = getData_bytes s t e' 8"
    by (rule getData_setData_bytes_other[OF assms(2)[unfolded setData_u64_def]])
      (use v offsets_disjoint_same_tile[of e e' s t 8] False in \<open>auto simp: valid_access_def\<close>)
  with False show ?thesis by (simp add: getData_u64_def)
qed

interpretation tile_u32: element_store "spd_shape nt ne t 4" ne "\<lambda>s. getData_u32 s t" "\<lambda>s. setData_u32 s t"
  for nt ne t
proof
  fix s :: spd and e :: int and v :: u32
  assume "spd_shape nt ne t 4 s" "0 \<le> e" "e < int ne"
  then show "\<exists>s'. setData_u32 s t e v = Inr s'"
    unfolding setData_u32_def
    by (intro setData_bytes_ok) (auto simp: spd_shape_def valid_access_def)
next
  fix s s' :: spd and e :: int and v :: u32
  assume "spd_shape nt ne t 4 s" "setData_u32 s t e v = Inr s'"
  then show "spd_shape nt ne t 4 s'"
    by (auto simp: setData_u32_def intro: spd_shape_setData)
next
  fix s s' :: spd and e e' :: int and v :: u32
  assume "spd_shape nt ne t 4 s" "setData_u32 s t e v = Inr s'"
  then show "getData_u32 s' t e' = (if e' = e then Inr v else getData_u32 s t e')"
    using rd_wr_u32[of s t e v s' t e'] by (simp add: spd_shape_def)
qed

interpretation tile_u64: element_store "spd_shape nt ne t 8" ne "\<lambda>s. getData_u64 s t" "\<lambda>s. setData_u64 s t"
  for nt ne t
proof
  fix s :: spd and e :: int and v :: u64
  assume "spd_shape nt ne t 8 s" "0 \<le> e" "e < int ne"
  then show "\<exists>s'. setData_u64 s t e v = Inr s'"
    unfolding setData_u64_def
    by (intro setData_bytes_ok) (auto simp: spd_shape_def valid_access_def)
next
  fix s s' :: spd and e :: int and v :: u64
  assume "spd_shape nt ne t 8 s" "setData_u64 s t e v = Inr s'"
  then show "spd_shape nt ne t 8 s'"
    by (auto simp: setData_u64_def intro: spd_shape_setData)
next
  fix s s' :: spd and e e' :: int and v :: u64
  assume "spd_shape nt ne t 8 s" "setData_u64 s t e v = Inr s'"
  then show "getData_u64 s' t e' = (if e' = e then Inr v else getData_u64 s t e')"
    using rd_wr_u64[of s t e v s' e'] by (simp add: spd_shape_def)
qed

section \<open>Every operation keeps the scratchpad well formed\<close>

text \<open>One step of the scratchpad: any of its state-changing operations that returns.\<close>

inductive spd_step :: "spd \<Rightarrow> spd \<Rightarrow> bool" where
  step_setData: "setData_bytes s t e vs = Inr s' \<Longrightarrow> spd_step s s'"
| step_fake: "setFakeData s t e sz = Inr s' \<Longrightarrow> spd_step s s'"
| step_getLat: "getDataLatency now p s n = Inr (c, s') \<Longrightarrow> spd_step s s'"
| step_setLat: "setDataLatency ok now p s t n = Inr (c, us, s') \<Longrightarrow> spd_step s s'"
| step_idle: "setTileIdle s t sz = Inr s' \<Longrightarrow> spd_step s s'"
| step_finished: "setTileFinished s t sz = Inr s' \<Longrightarrow> spd_step s s'"
| step_service: "setTileService s t sz = Inr s' \<Longrightarrow> spd_step s s'"
| step_dirty: "setTileDirty s t sz = Inr s' \<Longrightarrow> spd_step s s'"
| step_clean: "setTileClean s t sz = Inr s' \<Longrightarrow> spd_step s s'"
| step_ready: "setTileReady ok s t sz = Inr (us, s') \<Longrightarrow> spd_step s s'"
| step_notReady: "setTileNotReady s t sz = Inr s' \<Longrightarrow> spd_step s s'"
| step_poll: "getElementFinished s t e sz f i = Inr (b, s') \<Longrightarrow> spd_step s s'"
| step_size: "setSize s t n = Inr s' \<Longrightarrow> spd_step s s'"

lemma set_pair_length: "set_pair xs t sz v = Inr ys \<Longrightarrow> length ys = length xs"
  by (auto simp: set_pair_def res_simps arr_simps split: if_splits)

lemma port_advance_nonempty: "port_advance now p l n ps = Inr (c, ps') \<Longrightarrow> ps' \<noteq> []"
  by (auto simp: port_advance_def Let_def split: if_splits)

lemma ready_add_wf: "ready_add d s t = Inr s' \<Longrightarrow> spd_wf s \<Longrightarrow> spd_wf s'"
  by (auto simp: ready_add_def res_simps arr_simps spd_wf_def)

lemma wakeup_wf: "wakeup_waiting_units ok s t = Inr (us, s') \<Longrightarrow> spd_wf s \<Longrightarrow> spd_wf s'"
  by (auto simp: wakeup_waiting_units_def Let_def res_simps spd_wf_def map_update split: if_splits)

lemma dims_parts:
  "ready_add d s t = Inr s' \<Longrightarrow> num_tiles s' = num_tiles s \<and> num_tile_elements s' = num_tile_elements s"
  "wakeup_waiting_units ok s t = Inr (us, s') \<Longrightarrow>
     num_tiles s' = num_tiles s \<and> num_tile_elements s' = num_tile_elements s"
  by (auto simp: ready_add_def wakeup_waiting_units_def Let_def res_simps split: if_splits)

lemma map_length_update_append:
  assumes "map length xss = map length yss"
  shows "map length (xss[t := xss ! t @ [x]]) = map length (yss[t := yss ! t @ [y]])"
proof (cases "t < length xss")
  case True
  have l: "length xss = length yss" using map_eq_imp_length_eq[OF assms] .
  have "length (xss ! t) = length (yss ! t)"
    using arg_cong[OF assms, of "\<lambda>l. l ! t"] True l by simp
  with assms show ?thesis by (simp add: map_update)
next
  case False
  with map_eq_imp_length_eq[OF assms] assms show ?thesis by (simp add: list_update_beyond)
qed

lemma add_waiter_wf: "spd_wf s \<Longrightarrow> spd_wf (add_waiter s t f i)"
  by (simp add: spd_wf_def add_waiter_def map_length_update_append)

lemma setSize_wf:
  assumes "setSize s t n = Inr s'" "spd_wf s"
  shows "spd_wf s'"
proof -
  from assms(1) have n: "0 \<le> n" "n \<le> int (num_tile_elements s)" and t: "0 \<le> t" "t < int (num_tiles s)"
    and s': "s' = s\<lparr> tiles_size := (tiles_size s)[nat t := word_of_int n] \<rparr>"
    by (auto simp: setSize_def res_simps arr_simps split: if_splits)
  have "1 * num_tile_elements s \<le> num_tiles s * num_tile_elements s"
    using t by (intro mult_le_mono1) linarith
  moreover have "num_tiles s * num_tile_elements s * 4 < 2 ^ 31"
    using assms(2) unfolding spd_wf_def by blast
  ultimately have "num_tile_elements s < 2 ^ 31" by linarith
  then have "unat (word_of_int n :: u32) = nat n"
    using n by (simp add: unat_eq_nat_uint uint_word_of_int_eq take_bit_int_eq_self)
  then show ?thesis
    using assms(2) n t by (auto simp: s' spd_wf_def list_all_length nth_list_update)
qed

lemma setTileReady_wf:
  assumes "setTileReady ok s t sz = Inr (us, s')" "spd_wf s"
  shows "spd_wf s'"
proof -
  obtain s1 us1 s2 where a: "ready_add 1 s t = Inr s1" "wakeup_waiting_units ok s1 t = Inr (us1, s2)"
    and b: "s' = s2 \<or> (\<exists>s3 us3. ready_add 1 s2 (t + 1) = Inr s3 \<and>
                               wakeup_waiting_units ok s3 (t + 1) = Inr (us3, s'))"
    using assms(1) by (auto simp: setTileReady_def res_simps split: if_splits)
  have "spd_wf s2" using wakeup_wf[OF a(2)] ready_add_wf[OF a(1) assms(2)] by simp
  with b show ?thesis using ready_add_wf wakeup_wf by blast
qed

lemma setTileNotReady_wf: "setTileNotReady s t sz = Inr s' \<Longrightarrow> spd_wf s \<Longrightarrow> spd_wf s'"
  by (auto simp: setTileNotReady_def res_simps split: if_splits dest!: ready_add_wf)

text \<open>The flag operations replace one array by another of the same length.\<close>

lemma same_shape_wf:
  "spd_wf s \<Longrightarrow> length a = num_tiles s \<Longrightarrow> spd_wf (s\<lparr> tiles_status := a \<rparr>)"
  "spd_wf s \<Longrightarrow> length b = num_tiles s \<Longrightarrow> spd_wf (s\<lparr> tiles_dirty := b \<rparr>)"
  "spd_wf s \<Longrightarrow> length c = num_tiles s * num_tile_elements s \<Longrightarrow> spd_wf (s\<lparr> element_finished := c \<rparr>)"
  by (simp_all add: spd_wf_def)

lemma set_pair_wf_length:
  "spd_wf s \<Longrightarrow> set_pair (tiles_status s) t sz v = Inr a \<Longrightarrow> length a = num_tiles s"
  "spd_wf s \<Longrightarrow> set_pair (tiles_dirty s) t sz w = Inr b \<Longrightarrow> length b = num_tiles s"
  by (auto dest!: set_pair_length simp: spd_wf_def)

lemma flag_ops_wf:
  "setTileFinished s t sz = Inr s' \<Longrightarrow> spd_wf s \<Longrightarrow> spd_wf s'"
  "setTileService s t sz = Inr s' \<Longrightarrow> spd_wf s \<Longrightarrow> spd_wf s'"
  "setTileDirty s t sz = Inr s' \<Longrightarrow> spd_wf s \<Longrightarrow> spd_wf s'"
  "setTileClean s t sz = Inr s' \<Longrightarrow> spd_wf s \<Longrightarrow> spd_wf s'"
  by (auto simp: setTileFinished_def setTileService_def setTileDirty_def setTileClean_def res_simps
      intro!: same_shape_wf dest: set_pair_wf_length)

lemma setFakeData_wf: "setFakeData s t e sz = Inr s' \<Longrightarrow> spd_wf s \<Longrightarrow> spd_wf s'"
  by (auto simp: setFakeData_def res_simps arr_simps intro!: same_shape_wf)
    (simp add: spd_wf_def)

lemma setTileIdle_wf:
  assumes "setTileIdle s t sz = Inr s'" "spd_wf s"
  shows "spd_wf s'"
proof -
  obtain st ef where a: "set_pair (tiles_status s) t sz Tile_Idle = Inr st"
    and b: "arr_fill (element_finished s) (nat t * num_tile_elements s)
              (num_tile_elements s * sz div 4) False = Inr ef"
    and s': "s' = s\<lparr> tiles_status := st \<rparr>\<lparr> element_finished := ef \<rparr>"
    using assms(1) by (auto simp: setTileIdle_def res_simps)
  have "length ef = length (element_finished s)" using b by (auto simp: arr_simps)
  then show ?thesis
    unfolding s' using set_pair_wf_length(1)[OF assms(2) a] assms(2)
    by (intro same_shape_wf) (simp_all add: spd_wf_def)
qed

lemma write_ports_wf: "spd_wf s \<Longrightarrow> ps \<noteq> [] \<Longrightarrow> spd_wf (s\<lparr> write_port_busy_until := ps \<rparr>)"
  by (simp add: spd_wf_def)

lemma read_ports_wf: "spd_wf s \<Longrightarrow> ps \<noteq> [] \<Longrightarrow> spd_wf (s\<lparr> read_port_busy_until := ps \<rparr>)"
  by (simp add: spd_wf_def)

lemma spd_step_wf: "spd_step s s' \<Longrightarrow> spd_wf s \<Longrightarrow> spd_wf s'"
proof (induction rule: spd_step.induct)
  case (step_setLat ok now p s t n c us s')
  then show ?case
    by (auto simp: setDataLatency_def res_simps split: if_splits prod.splits intro!: write_ports_wf
             dest!: port_advance_nonempty elim!: wakeup_wf)
next
  case (step_getLat now p s n c s')
  then show ?case
    by (auto simp: getDataLatency_def res_simps split: if_splits prod.splits intro!: read_ports_wf
             dest!: port_advance_nonempty)
next
  case (step_poll s t e sz f i b s')
  then show ?case
    by (auto simp: getElementFinished_def res_simps intro: add_waiter_wf split: if_splits)
qed (blast intro: setData_bytes_wf(1) setFakeData_wf setTileIdle_wf flag_ops_wf setTileReady_wf
      setTileNotReady_wf setSize_wf)+

lemma spd_step_dims:
  "spd_step s s' \<Longrightarrow> num_tiles s' = num_tiles s \<and> num_tile_elements s' = num_tile_elements s"
proof (induction rule: spd_step.induct)
  case (step_setLat ok now p s t n c us s')
  then consider "s' = s"
    | ps us' where "wakeup_waiting_units ok (s\<lparr> write_port_busy_until := ps \<rparr>) t = Inr (us', s')"
    by (auto simp: setDataLatency_def res_simps split: if_splits)
  then show ?case by cases (use dims_parts(2) in fastforce)+
next
  case (step_ready ok s t sz us s')
  then obtain s1 us1 s2 where a: "ready_add 1 s t = Inr s1" "wakeup_waiting_units ok s1 t = Inr (us1, s2)"
    and b: "s' = s2 \<or> (\<exists>s3 us3. ready_add 1 s2 (t + 1) = Inr s3 \<and>
                               wakeup_waiting_units ok s3 (t + 1) = Inr (us3, s'))"
    by (auto simp: setTileReady_def res_simps split: if_splits)
  from b show ?case using dims_parts(1)[OF a(1)] dims_parts(2)[OF a(2)]
    by (metis dims_parts)
next
  case (step_notReady s t sz s')
  then obtain s1 where "ready_add (- 1) s t = Inr s1" "s' = s1 \<or> ready_add (- 1) s1 (t + 1) = Inr s'"
    by (auto simp: setTileNotReady_def res_simps split: if_splits)
  then show ?case by (metis dims_parts(1))
qed (auto simp: setData_bytes_def setFakeData_def getDataLatency_def setTileIdle_def
      setTileFinished_def setTileService_def setTileDirty_def setTileClean_def
      getElementFinished_def setSize_def add_waiter_def Let_def res_simps split: if_splits)

section \<open>Ports and waiters\<close>

lemma min_busy_port_foldl:
  fixes ps :: "Tick list"
  assumes "n \<le> length ps" "ps \<noteq> []"
  shows "\<exists>p. foldl (\<lambda>(mp, mv) i. if ps ! i < mv then (i, ps ! i) else (mp, mv)) (0, ps ! 0) [0..<n]
            = (p, ps ! p) \<and> p < length ps \<and> (\<forall>i<n. ps ! p \<le> ps ! i)"
  using assms(1)
proof (induction n)
  case 0
  then show ?case using assms(2) by simp
next
  case (Suc n)
  then obtain p where p: "foldl (\<lambda>(mp, mv) i. if ps ! i < mv then (i, ps ! i) else (mp, mv)) (0, ps ! 0) [0..<n]
      = (p, ps ! p)" "p < length ps" "\<forall>i<n. ps ! p \<le> ps ! i" by auto
  then show ?case using Suc.prems by (auto simp: less_Suc_eq not_less dest: order.strict_trans2 less_imp_le)
qed

lemma min_busy_port_min:
  assumes "ps \<noteq> []"
  shows "min_busy_port ps < length ps" "i < length ps \<Longrightarrow> ps ! min_busy_port ps \<le> ps ! i"
  using min_busy_port_foldl[OF order_refl assms] by (auto simp: min_busy_port_def)

lemma port_advance_eq:
  assumes "ps \<noteq> []"
  shows "port_advance now period l n ps =
           (let p = min_busy_port ps; t = max now (ps ! p) + period * (l * n)
            in Inr (ticksToCycles period (t - now), ps[p := t]))"
  using assms by (simp add: port_advance_def Let_def cyclesToTicks_def)

lemma wakeup_Inr:
  assumes "spd_wf s" "0 \<le> t" "t < int (num_tiles s)" "\<forall>f i. ok f i"
  shows "wakeup_waiting_units ok s t =
    Inr (filter (\<lambda>(f, _). f \<noteq> INVALIDATOR \<and> f \<noteq> FuncUnit_MAX)
           (zip (waiting_units_funcs s ! nat t) (waiting_units_ids s ! nat t)),
         s\<lparr> waiting_units_funcs := (waiting_units_funcs s)[nat t := []],
            waiting_units_ids := (waiting_units_ids s)[nat t := []] \<rparr>)"
proof -
  have "length (waiting_units_ids s) = length (waiting_units_funcs s)"
    using assms(1) unfolding spd_wf_def by (metis length_map)
  with assms show ?thesis
    by (simp add: wakeup_waiting_units_def arr_get_def spd_wf_def Let_def list_all_iff split_beta)
qed

lemma waiting_lengths:
  assumes "spd_wf s" "t < num_tiles s"
  shows "length (waiting_units_funcs s ! t) = length (waiting_units_ids s ! t)"
    and "t < length (waiting_units_funcs s)" "t < length (waiting_units_ids s)"
proof -
  have m: "map length (waiting_units_funcs s) = map length (waiting_units_ids s)"
    using assms(1) by (simp add: spd_wf_def)
  show l: "t < length (waiting_units_funcs s)" using assms by (simp add: spd_wf_def)
  show l2: "t < length (waiting_units_ids s)" using l map_eq_imp_length_eq[OF m] by simp
  show "length (waiting_units_funcs s ! t) = length (waiting_units_ids s ! t)"
    using arg_cong[OF m, of "\<lambda>l. l ! t"] l l2 by simp
qed

section \<open>Properties\<close>

text \<open>The scratchpad of the witnesses: three tiles of four elements.\<close>

definition spd_demo :: spd where
  "spd_demo = SPD_init 0 3 4 1 1 2 1"

lemma spd_demo_wf: "spd_wf spd_demo"
  by (simp add: spd_demo_def SPD_init_def spd_wf_def list_all_length)

lemma spd_demo_dims: "num_tiles spd_demo = 3" "num_tile_elements spd_demo = 4"
  by (simp_all add: spd_demo_def SPD_init_def)

text \<open>
  C4.  Reading after writing, 4-byte elements: after a successful \<open>setData<uint32_t>\<close> a read of
  any tile and any element returns the written value at the written place and, everywhere else,
  exactly what it returned before (the error of an out-of-range access included).
\<close>

theorem getData_setData_u32:
  assumes "spd_wf s" "setData_u32 s t e v = Inr s'"
  shows "getData_u32 s' t' e' = (if t' = t \<and> e' = e then Inr v else getData_u32 s t' e')"
  using assms by (rule rd_wr_u32)

theorem getData_setData_u32_witness:
  "\<exists>s'. setData_u32 spd_demo 1 3 0xDEADBEEF = Inr s' \<and>
        getData_u32 s' 1 3 = Inr 0xDEADBEEF \<and> getData_u32 s' 2 0 = Inr 0 \<and> getData_u32 s' 1 4 = Inl Panic"
proof -
  obtain s' where s': "setData_u32 spd_demo 1 3 0xDEADBEEF = Inr s'"
    using tile_u32.wr_total[of 3 4 1 spd_demo 3 "0xDEADBEEF"] spd_demo_wf
    by (auto simp: spd_shape_def spd_demo_dims)
  have "getData_u32 spd_demo 2 0 = Inr 0" "getData_u32 spd_demo 1 4 = Inl Panic"
    by code_simp+
  with s' getData_setData_u32[OF spd_demo_wf s', of 1 3] getData_setData_u32[OF spd_demo_wf s', of 2 0]
    getData_setData_u32[OF spd_demo_wf s', of 1 4]
  show ?thesis by auto
qed

text \<open>
  C16.  Reading after a run of 8-byte writes: on a tile that has a successor, filling the elements
  \<open>e .. e + length vs - 1\<close> one by one succeeds, keeps the scratchpad well formed, and every
  8-byte read of that tile then returns the written run inside the range and the old contents
  outside it.
\<close>

theorem store_run_u64:
  assumes "spd_wf s" "0 \<le> t" "t + 2 \<le> int (num_tiles s)"
    and "0 \<le> e" "e + int (length vs) \<le> int (num_tile_elements s)"
  shows "\<exists>s'. store_list (\<lambda>s. setData_u64 s t) s e vs = Inr s' \<and> spd_wf s' \<and>
    (\<forall>e'. getData_u64 s' t e' =
       (if e \<le> e' \<and> e' < e + int (length vs) then Inr (vs ! nat (e' - e)) else getData_u64 s t e'))"
proof -
  have sh: "spd_shape (num_tiles s) (num_tile_elements s) t 8 s"
    using assms by (simp add: spd_shape_def)
  obtain s' where s': "store_list (\<lambda>s. setData_u64 s t) s e vs = Inr s'"
    using tile_u64.store_list_total[OF sh assms(4,5)] by blast
  with tile_u64.store_list_inv[OF sh s'] tile_u64.rd_store_list[OF sh s'] show ?thesis
    by (auto simp: spd_shape_def)
qed

theorem store_run_u64_witness:
  "\<exists>s'. store_list (\<lambda>s. setData_u64 s 1) spd_demo 1 [7, 8] = Inr s' \<and> spd_wf s' \<and>
        getData_u64 s' 1 2 = Inr 8"
  using store_run_u64[OF spd_demo_wf, of 1 1 "[7, 8]"]
  by (auto simp: spd_demo_def SPD_init_def)

text \<open>
  C9.  Bounds: on a well-formed scratchpad \<open>getData\<close> and \<open>setData\<close> return exactly for
  the element identifiers \<open>check_tile_element_id\<close> admits, which with 8-byte words excludes the
  last tile, and raise its panic otherwise.  They never touch a byte or a finished flag outside the
  allocation.
\<close>

theorem spd_access_safe:
  assumes "spd_wf s"
  shows "(is_ok (getData_bytes s t e sz) \<longleftrightarrow> valid_access s t e sz) \<and>
         (is_ok (setData_bytes s t e vs) \<longleftrightarrow> valid_access s t e (length vs)) \<and>
         getData_bytes s t e sz \<notin> {Inl Assert_Fail, Inl Out_Of_Bounds, Inl Undefined_Arith} \<and>
         setData_bytes s t e vs \<notin> {Inl Assert_Fail, Inl Out_Of_Bounds, Inl Undefined_Arith}"
proof -
  have no: "\<not> valid_access s t e (length vs) \<Longrightarrow> setData_bytes s t e vs = Inl Panic"
    by (simp add: setData_bytes_def Let_def check_tile_element_id_eq)
  show ?thesis
    using no setData_bytes_ok[OF assms, of t e vs]
    by (cases "valid_access s t e (length vs)") (auto simp: getData_bytes_eq[OF assms])
qed

theorem spd_access_safe_witness:
  "is_ok (getData_bytes spd_demo 1 3 8) \<and> \<not> is_ok (getData_bytes spd_demo 2 0 8)"
  using spd_access_safe[OF spd_demo_wf, of 1 3 8 "[]"] spd_access_safe[OF spd_demo_wf, of 2 0 8 "[]"]
  by (simp add: valid_access_def spd_demo_dims)

text \<open>
  C8.  Invariant: every state the scratchpad can reach from its constructor, by any sequence of its
  state-changing operations, is well formed: all per-tile and per-element arrays keep their
  allocated length, the two waiting-unit vectors stay aligned, and no tile size ever exceeds the
  tile capacity.
\<close>

theorem spd_reachable_wf:
  assumes "spd_step\<^sup>*\<^sup>* (SPD_init now nt ne rl wl nr nw) s"
    and "nt * ne * 4 < 2 ^ 31" "0 < nr" "0 < nw"
  shows "spd_wf s \<and> num_tiles s = nt \<and> num_tile_elements s = ne"
  using assms(1)
proof (induction rule: rtranclp_induct)
  case base
  show ?case using assms(2-) by (simp add: SPD_init_def spd_wf_def list_all_length)
next
  case (step s s')
  then show ?case using spd_step_wf[of s s'] spd_step_dims[of s s'] by simp
qed

theorem spd_reachable_wf_witness:
  "\<exists>s. spd_step\<^sup>*\<^sup>* (SPD_init 0 3 4 1 1 2 1) s \<and> spd_wf s \<and> tiles_status s ! 2 = Tile_Idle"
proof -
  let ?i = "SPD_init 0 3 4 1 1 2 1"
  obtain s where s: "setTileIdle ?i 1 8 = Inr s" "tiles_status s ! 2 = Tile_Idle"
    by (simp add: setTileIdle_def SPD_init_def check_tile_id_def set_pair_def arr_set_def arr_fill_def)
  then have r: "spd_step\<^sup>*\<^sup>* ?i s" by (intro r_into_rtranclp step_idle)
  with s spd_reachable_wf[OF r] show ?thesis by auto
qed



text \<open>
  C18.  Wake-up: a unit that polls an element that is not finished, and finds its identifier or its
  type missing from the waiting vectors of the tile, is among the units the next wake-up of that
  tile schedules, and the wake-up leaves nobody waiting.
\<close>

theorem poll_then_wakeup:
  assumes "spd_wf s" "getElementFinished s t e sz f i = Inr (False, s')"
    and "f \<noteq> INVALIDATOR" "f \<noteq> FuncUnit_MAX"
    and "i \<notin> set (waiting_units_ids s ! nat t) \<or> f \<notin> set (waiting_units_funcs s ! nat t)"
    and "\<forall>f i. ok f i"
  shows "\<exists>us s''. wakeup_waiting_units ok s' t = Inr (us, s'') \<and> (f, i) \<in> set us \<and>
                  waiting_units_funcs s'' ! nat t = [] \<and> waiting_units_ids s'' ! nat t = []"
proof -
  have t: "0 \<le> t" "t < int (num_tiles s)" and s': "s' = add_waiter s (nat t) f i"
    using assms(2,5)
    by (auto simp: getElementFinished_def check_tile_id_4 res_simps arr_simps split: if_splits)
  note l = waiting_lengths[OF assms(1), of "nat t"]
  have wf': "spd_wf s'" using add_waiter_wf[OF assms(1)] s' by simp
  have "num_tiles s' = num_tiles s" by (simp add: s' add_waiter_def)
  then have "t < int (num_tiles s')" using t by simp
  from wakeup_Inr[OF wf' t(1) this assms(6)] l t assms(3,4) show ?thesis
    by (auto simp: s' add_waiter_def)
qed

theorem poll_then_wakeup_witness:
  "\<exists>s us s''. wakeup_waiting_units (\<lambda>_ _. True) s 1 = Inr (us, s'') \<and> (ALU, 0) \<in> set us"
proof -
  let ?s = "spd_demo\<lparr> element_finished := replicate 12 False \<rparr>"
  have wf: "spd_wf ?s" using spd_demo_wf by (simp add: spd_wf_def spd_demo_dims)
  obtain s' where "getElementFinished ?s 1 2 4 ALU 0 = Inr (False, s')"
    by (simp add: getElementFinished_def check_tile_id_4 arr_get_def finished_slot_def
        spd_demo_def SPD_init_def)
  from poll_then_wakeup[OF wf this, of "\<lambda>_ _. True"] show ?thesis
    by (auto simp: spd_demo_def SPD_init_def)
qed

text \<open>
  C20.  A lost wake-up: because \<open>getElementFinished\<close> looks the unit type and the identifier up
  independently, there is a reachable state in which three different units poll an unfinished tile
  and the wake-up of that tile schedules only two of them: the third one, whose type and identifier
  both occur in the waiting vectors but not as a pair, is never registered.
\<close>

theorem lost_wakeup:
  "\<exists>s0 s1 s2 s3 us s4.
     spd_step\<^sup>*\<^sup>* spd_demo s0 \<and>
     getElementFinished s0 1 0 4 ALU 0 = Inr (False, s1) \<and>
     getElementFinished s1 1 0 4 STREAM 1 = Inr (False, s2) \<and>
     getElementFinished s2 1 0 4 ALU 1 = Inr (False, s3) \<and>
     wakeup_waiting_units (\<lambda>_ _. True) s3 1 = Inr (us, s4) \<and>
     set us = {(ALU, 0), (STREAM, 1)} \<and>
     waiting_units_funcs s4 ! 1 = []"
proof -
  obtain s0 where s0: "setTileIdle spd_demo 1 4 = Inr s0"
    and s0_eq: "s0 = spd_demo\<lparr> tiles_status := [Tile_Finished, Tile_Idle, Tile_Finished],
      element_finished := replicate 4 True @ replicate 4 False @ replicate 4 True \<rparr>"
    by (simp add: setTileIdle_def spd_demo_def SPD_init_def check_tile_id_def set_pair_def arr_set_def
        arr_fill_def numeral_3_eq_3 numeral_2_eq_2)
  have "spd_step\<^sup>*\<^sup>* spd_demo s0" using s0 by (intro r_into_rtranclp step_idle)
  moreover define s1 where "s1 = add_waiter s0 1 ALU 0"
  moreover define s2 where "s2 = add_waiter s1 1 STREAM 1"
  moreover note unf = getElementFinished_def check_tile_id_4 arr_get_def finished_slot_def
    add_waiter_def spd_demo_def SPD_init_def nth_append s0_eq
  have "getElementFinished s0 1 0 4 ALU 0 = Inr (False, s1)"
    by (simp add: unf s1_def)
  moreover have "getElementFinished s1 1 0 4 STREAM 1 = Inr (False, s2)"
    by (simp add: unf s1_def s2_def)
  moreover have "getElementFinished s2 1 0 4 ALU 1 = Inr (False, s2)"
    by (simp add: unf s1_def s2_def)
  moreover have "\<exists>s4. wakeup_waiting_units (\<lambda>_ _. True) s2 1 = Inr ([(ALU, 0), (STREAM, 1)], s4) \<and>
                      waiting_units_funcs s4 ! 1 = []"
    by (simp add: unf s1_def s2_def wakeup_waiting_units_def)
  ultimately show ?thesis by (metis list.set(1) list.simps(15))
qed

text \<open>
  C21.  The status operations guard their tile with the 4-byte check whatever the word size, so on
  the last tile an 8-byte operation passes the guard and writes past the end of its array, where
  the 8-byte check would have raised a panic.
\<close>

theorem last_tile_overrun:
  assumes "spd_wf s" "0 < num_tiles s"
  shows "setTileFinished s (int (num_tiles s) - 1) 8 = Inl Out_Of_Bounds \<and>
         setTileIdle s (int (num_tiles s) - 1) 8 = Inl Out_Of_Bounds \<and>
         setTileService s (int (num_tiles s) - 1) 8 = Inl Out_Of_Bounds \<and>
         setTileDirty s (int (num_tiles s) - 1) 8 = Inl Out_Of_Bounds \<and>
         setTileNotReady s (int (num_tiles s) - 1) 8 = Inl Out_Of_Bounds \<and>
         check_tile_id s (int (num_tiles s) - 1) 8 = Inl Panic"
  using assms
  by (auto simp: setTileFinished_def setTileIdle_def setTileService_def setTileDirty_def
      setTileNotReady_def check_tile_id_def set_pair_def ready_add_def arr_get_def arr_set_def spd_wf_def)

theorem last_tile_overrun_witness: "setTileFinished spd_demo 2 8 = Inl Out_Of_Bounds"
  using last_tile_overrun[OF spd_demo_wf] by (simp add: spd_demo_dims)

end
