(* ===== verification/Request_Table.thy ===== *)
theory Request_Table
  imports MAA_Prelude "HOL-Library.AList"
begin

text \<open>
  The request table (\<open>RequestTable\<close> in \<open>Tables.hh\<close> and \<open>Tables.cc\<close>), which
  remembers, per outstanding cache line, the words waiting for it.  The model keeps the
  constant-time bookkeeping of the code: slot arrays, the hash map from line address to slot (an
  association list), the stack of free slots (its top is the last element, as in the vector) and
  the two insertion statistics.  The theory proves that this bookkeeping implements a plain
  function from line address to the list of waiting words.
\<close>

section \<open>State and operations\<close>

record RequestTableEntry =
  re_itr :: u32
  re_wid :: u16

record request_table =
  num_addresses :: nat
  num_entries_per_address :: nat
  rt_entries :: "RequestTableEntry list list"
  entry_count :: "nat list"
  addresses :: "Addr list"
  addr_to_idx :: "(Addr \<times> nat) list"
  free_slots :: "nat list"
  stat_lines_inserted :: nat
  stat_words_inserted :: nat

definition RequestTable_init :: "nat \<Rightarrow> nat \<Rightarrow> request_table" where
  "RequestTable_init n k =
     \<lparr> num_addresses = n, num_entries_per_address = k,
       rt_entries = replicate n (replicate k \<lparr> re_itr = 0, re_wid = 0 \<rparr>),
       entry_count = replicate n 0, addresses = replicate n 0,
       addr_to_idx = [], free_slots = rev [0..<n],
       stat_lines_inserted = 0, stat_words_inserted = 0 \<rparr>"

definition get_entries :: "request_table \<Rightarrow> Addr \<Rightarrow> (RequestTableEntry list \<times> request_table) res" where
  "get_entries t base_addr =
     (case map_of (addr_to_idx t) base_addr of
        None \<Rightarrow> Inr ([], t)
      | Some i \<Rightarrow>
          rbind (arr_get (entry_count t) (int i)) (\<lambda>n.
          rbind (arr_get (rt_entries t) (int i)) (\<lambda>row.
            if n \<le> length row
            then Inr (take n row,
                      t\<lparr> entry_count := (entry_count t)[i := 0],
                         addr_to_idx := AList.delete base_addr (addr_to_idx t),
                         free_slots := free_slots t @ [i] \<rparr>)
            else Inl Out_Of_Bounds)))"

text \<open>The second half of \<open>add_entry\<close>: append to the slot of the line.\<close>

definition append_entry :: "request_table \<Rightarrow> nat \<Rightarrow> u32 \<Rightarrow> u16 \<Rightarrow> (bool \<times> request_table) res" where
  "append_entry t i itr wid =
     rbind (arr_get (entry_count t) (int i)) (\<lambda>n.
       if \<not> n < num_entries_per_address t then Inl Assert_Fail
       else rbind (arr_get (rt_entries t) (int i)) (\<lambda>row.
            rbind (arr_set row (int n) \<lparr> re_itr = itr, re_wid = wid \<rparr>) (\<lambda>row'.
              Inr (True, t\<lparr> rt_entries := (rt_entries t)[i := row'],
                           entry_count := (entry_count t)[i := Suc n],
                           stat_words_inserted := Suc (stat_words_inserted t) \<rparr>))))"

definition add_entry :: "request_table \<Rightarrow> u32 \<Rightarrow> Addr \<Rightarrow> u16 \<Rightarrow> (bool \<times> request_table) res" where
  "add_entry t itr base_addr wid =
     (case map_of (addr_to_idx t) base_addr of
        Some i \<Rightarrow> append_entry t i itr wid
      | None \<Rightarrow>
          if free_slots t = [] then Inr (False, t)
          else let i = last (free_slots t) in
            rbind (arr_set (addresses t) (int i) base_addr) (\<lambda>as.
            rbind (arr_set (entry_count t) (int i) 0) (\<lambda>ec.
              append_entry
                (t\<lparr> free_slots := butlast (free_slots t), addresses := as,
                    addr_to_idx := AList.update base_addr i (addr_to_idx t), entry_count := ec,
                    stat_lines_inserted := Suc (stat_lines_inserted t) \<rparr>) i itr wid)))"

definition rt_check_reset :: "request_table \<Rightarrow> unit res" where
  "rt_check_reset t =
     (if addr_to_idx t \<noteq> [] then Inl Panic
      else if \<not> list_all (\<lambda>n. n = 0) (entry_count t) then Inl Panic else Inr ())"

definition rt_reset :: "request_table \<Rightarrow> request_table" where
  "rt_reset t =
     t\<lparr> addr_to_idx := [], free_slots := rev [0..<num_addresses t],
        entry_count := replicate (num_addresses t) 0 \<rparr>"

definition rt_is_full :: "request_table \<Rightarrow> bool" where
  "rt_is_full t \<longleftrightarrow> free_slots t = []"

section \<open>The contract: a bounded function from lines to waiting words\<close>

type_synonym lines = "Addr \<Rightarrow> RequestTableEntry list"

definition spec_full :: "nat \<Rightarrow> lines \<Rightarrow> bool" where
  "spec_full n m \<longleftrightarrow> card {a. m a \<noteq> []} = n"

definition spec_add :: "nat \<Rightarrow> nat \<Rightarrow> lines \<Rightarrow> RequestTableEntry \<Rightarrow> Addr \<Rightarrow> (bool \<times> lines) res" where
  "spec_add n k m x a =
     (if m a = [] \<and> spec_full n m then Inr (False, m)
      else if k \<le> length (m a) then Inl Assert_Fail
      else Inr (True, m(a := m a @ [x])))"

definition spec_get :: "lines \<Rightarrow> Addr \<Rightarrow> RequestTableEntry list \<times> lines" where
  "spec_get m a = (m a, m(a := []))"

text \<open>The abstraction and the invariant of the implementation.\<close>

definition rt_abs :: "request_table \<Rightarrow> lines" where
  "rt_abs t a = (case map_of (addr_to_idx t) a of
                   None \<Rightarrow> [] | Some i \<Rightarrow> take (entry_count t ! i) (rt_entries t ! i))"

definition slots_ok ::
  "nat \<Rightarrow> nat \<Rightarrow> RequestTableEntry list list \<Rightarrow> nat list \<Rightarrow> Addr list \<Rightarrow> (Addr \<times> nat) list \<Rightarrow> nat list \<Rightarrow> bool" where
  "slots_ok n k es ec as al fs \<longleftrightarrow>
     length es = n \<and> length ec = n \<and> length as = n \<and> list_all (\<lambda>row. length row = k) es \<and>
     distinct (map fst al) \<and> distinct (fs @ map snd al) \<and> set (fs @ map snd al) = {0..<n} \<and>
     list_all (\<lambda>i. ec ! i = 0) fs \<and>
     list_all (\<lambda>(a, i). as ! i = a \<and> 0 < ec ! i \<and> ec ! i \<le> k) al"

definition rt_inv :: "request_table \<Rightarrow> bool" where
  "rt_inv t \<longleftrightarrow> slots_ok (num_addresses t) (num_entries_per_address t) (rt_entries t) (entry_count t)
                 (addresses t) (addr_to_idx t) (free_slots t)"

section \<open>The bookkeeping implements the contract\<close>

lemma rt_init_inv: "rt_inv (RequestTable_init n k)"
  by (auto simp: rt_inv_def slots_ok_def RequestTable_init_def list_all_iff)

lemma rt_init_abs: "rt_abs (RequestTable_init n k) = (\<lambda>_. [])"
  by (simp add: rt_abs_def RequestTable_init_def fun_eq_iff)

lemma rt_reset_inv: "rt_inv t \<Longrightarrow> rt_inv (rt_reset t)"
  by (auto simp: rt_inv_def slots_ok_def rt_reset_def list_all_iff)

lemma rt_reset_abs: "rt_abs (rt_reset t) = (\<lambda>_. [])"
  by (simp add: rt_abs_def rt_reset_def fun_eq_iff)

lemma rt_inv_slots:
  assumes "rt_inv t"
  shows "distinct (free_slots t @ map snd (addr_to_idx t))"
    "set (free_slots t @ map snd (addr_to_idx t)) = {0..<num_addresses t}"
  using assms by (simp_all only: rt_inv_def slots_ok_def)

lemma rt_inv_lengths:
  assumes "rt_inv t"
  shows "length (rt_entries t) = num_addresses t" "length (entry_count t) = num_addresses t"
    "length (addresses t) = num_addresses t" "distinct (map fst (addr_to_idx t))"
    "\<And>i. i < num_addresses t \<Longrightarrow> length (rt_entries t ! i) = num_entries_per_address t"
  using assms by (simp_all add: rt_inv_def slots_ok_def list_all_length)

lemma rt_inv_counts:
  assumes "rt_inv t"
  shows "list_all (\<lambda>i. entry_count t ! i = 0) (free_slots t)"
    "list_all (\<lambda>(a, i). addresses t ! i = a \<and> 0 < entry_count t ! i \<and>
                entry_count t ! i \<le> num_entries_per_address t) (addr_to_idx t)"
  using assms by (simp_all only: rt_inv_def slots_ok_def)

lemma rt_lookup:
  assumes "rt_inv t" "map_of (addr_to_idx t) a = Some i"
  shows "i < num_addresses t" "0 < entry_count t ! i" "entry_count t ! i \<le> num_entries_per_address t"
    "length (rt_entries t ! i) = num_entries_per_address t" "i \<notin> set (free_slots t)"
    "i < length (rt_entries t)" "i < length (entry_count t)"
    "rt_abs t a = take (entry_count t ! i) (rt_entries t ! i)" "rt_abs t a \<noteq> []"
proof -
  have m: "(a, i) \<in> set (addr_to_idx t)" using assms(2) by (rule map_of_SomeD)
  then have s: "i \<in> snd ` set (addr_to_idx t)" by force
  then have "i \<in> set (free_slots t @ map snd (addr_to_idx t))" by simp
  then show l: "i < num_addresses t" unfolding rt_inv_slots(2)[OF assms(1)] by simp
  show c: "0 < entry_count t ! i" "entry_count t ! i \<le> num_entries_per_address t"
    using rt_inv_counts(2)[OF assms(1)] m by (auto simp: list_all_iff)
  show r: "i < length (rt_entries t)" "i < length (entry_count t)"
    using rt_inv_lengths[OF assms(1)] l by simp_all
  show lr: "length (rt_entries t ! i) = num_entries_per_address t"
    using rt_inv_lengths(5)[OF assms(1) l] .
  show "i \<notin> set (free_slots t)" using rt_inv_slots(1)[OF assms(1)] s by auto
  show ab: "rt_abs t a = take (entry_count t ! i) (rt_entries t ! i)" by (simp add: rt_abs_def assms(2))
  show "rt_abs t a \<noteq> []" using ab c lr by auto
qed

lemma rt_abs_empty_iff: "rt_inv t \<Longrightarrow> rt_abs t a = [] \<longleftrightarrow> map_of (addr_to_idx t) a = None"
  using rt_lookup(9)[of t a] by (cases "map_of (addr_to_idx t) a") (auto simp: rt_abs_def)

lemma rt_abs_support: "rt_inv t \<Longrightarrow> {a. rt_abs t a \<noteq> []} = set (map fst (addr_to_idx t))"
  by (auto simp: rt_abs_empty_iff dom_map_of_conv_image_fst map_of_eq_None_iff)

lemma rt_slots_total: "rt_inv t \<Longrightarrow> length (free_slots t) + length (addr_to_idx t) = num_addresses t"
proof -
  assume i: "rt_inv t"
  have "length (free_slots t @ map snd (addr_to_idx t)) = card {0..<num_addresses t}"
    unfolding rt_inv_slots(2)[OF i, symmetric] by (rule distinct_card[symmetric, OF rt_inv_slots(1)[OF i]])
  then show ?thesis by simp
qed

lemma rt_full_iff: "rt_inv t \<Longrightarrow> rt_is_full t \<longleftrightarrow> spec_full (num_addresses t) (rt_abs t)"
proof -
  assume i: "rt_inv t"
  have "card {a. rt_abs t a \<noteq> []} = length (addr_to_idx t)"
    using rt_abs_support[OF i] distinct_card[OF rt_inv_lengths(4)[OF i]] by simp
  with rt_slots_total[OF i] show ?thesis by (auto simp: rt_is_full_def spec_full_def)
qed

text \<open>The hash map as an association list: removal cuts one pair out, a new key goes to the end.\<close>

lemma delete_split:
  assumes "distinct (map fst al)" "map_of al a = Some i"
  obtains xs ys where "al = xs @ (a, i) # ys" "AList.delete a al = xs @ ys"
proof -
  obtain xs ys where al: "al = xs @ (a, i) # ys" using map_of_SomeD[OF assms(2)] by (meson split_list)
  have "a \<notin> fst ` set xs" "a \<notin> fst ` set ys" using assms(1) by (auto simp: al)
  then have "AList.delete a xs = xs" "AList.delete a ys = ys" by (simp_all add: delete_id)
  then have "AList.delete a al = xs @ ys" by (simp add: al AList.delete_eq)
  with al that show thesis by blast
qed

lemma update_fresh: "map_of al a = None \<Longrightarrow> AList.update a i al = al @ [(a, i)]"
  by (induction al) (auto split: if_splits)

text \<open>Reading a line out.\<close>

lemma get_entries_Some:
  assumes "rt_inv t" "map_of (addr_to_idx t) a = Some i"
  shows "get_entries t a =
    Inr (rt_abs t a, t\<lparr> entry_count := (entry_count t)[i := 0],
                        addr_to_idx := AList.delete a (addr_to_idx t),
                        free_slots := free_slots t @ [i] \<rparr>)"
  using rt_lookup[OF assms] by (simp add: get_entries_def assms(2) arr_get_def)

lemma slots_ok_release:
  assumes ok: "slots_ok n k es ec as (xs @ (a, i) # ys) fs"
  shows "slots_ok n k es (ec[i := 0]) as (xs @ ys) (fs @ [i])"
proof -
  have len: "length es = n" "length ec = n" "length as = n" "list_all (\<lambda>row. length row = k) es"
    and d: "distinct (map fst (xs @ ys))"
    and dis: "distinct (fs @ map snd xs @ i # map snd ys)"
    and un: "set (fs @ map snd xs @ i # map snd ys) = {0..<n}"
    and fr: "list_all (\<lambda>i. ec ! i = 0) fs"
    and al: "list_all (\<lambda>(a, i). as ! i = a \<and> 0 < ec ! i \<and> ec ! i \<le> k) (xs @ (a, i) # ys)"
    using ok by (simp_all add: slots_ok_def)
  have pos: "as ! snd z = fst z \<and> 0 < ec ! snd z \<and> ec ! snd z \<le> k" if "z \<in> set (xs @ ys)" for z
    using al that by (auto simp: list_all_iff split_beta)
  have "i \<in> {0..<n}" unfolding un[symmetric] by simp
  then have i: "i < length ec" using len by simp
  have "snd z \<noteq> i" if "z \<in> set (xs @ ys)" for z using dis that by auto
  then have "list_all (\<lambda>(b, j). as ! j = b \<and> 0 < ec[i := 0] ! j \<and> ec[i := 0] ! j \<le> k) (xs @ ys)"
    unfolding list_all_iff split_beta using pos by (metis nth_list_update_neq)
  moreover have "list_all (\<lambda>j. ec[i := 0] ! j = 0) (fs @ [i])"
    using fr i dis by (auto simp: list_all_iff nth_list_update)
  moreover have "distinct ((fs @ [i]) @ map snd (xs @ ys))" using dis by auto
  moreover have "set ((fs @ [i]) @ map snd (xs @ ys)) = {0..<n}"
    unfolding un[symmetric] by auto
  ultimately show ?thesis unfolding slots_ok_def using len d by (intro conjI) simp_all
qed

lemma get_entries_inv:
  assumes "rt_inv t" "map_of (addr_to_idx t) a = Some i"
  shows "rt_inv (t\<lparr> entry_count := (entry_count t)[i := 0],
                    addr_to_idx := AList.delete a (addr_to_idx t),
                    free_slots := free_slots t @ [i] \<rparr>)"
proof -
  obtain xs ys where xs: "addr_to_idx t = xs @ (a, i) # ys" "AList.delete a (addr_to_idx t) = xs @ ys"
    using delete_split[OF rt_inv_lengths(4)[OF assms(1)] assms(2)] .
  then show ?thesis using assms(1) slots_ok_release by (simp add: rt_inv_def)
qed

lemma get_entries_abs:
  assumes "rt_inv t" "map_of (addr_to_idx t) a = Some i"
  shows "rt_abs (t\<lparr> entry_count := (entry_count t)[i := 0],
                    addr_to_idx := AList.delete a (addr_to_idx t),
                    free_slots := free_slots t @ [i] \<rparr>) = (rt_abs t)(a := [])"
proof -
  have "j \<noteq> i" if "map_of (addr_to_idx t) b = Some j" "b \<noteq> a" for b j
  proof
    assume "j = i"
    then have "addresses t ! i = b" "addresses t ! i = a"
      using assms(2) that rt_inv_counts(2)[OF assms(1)] by (auto simp: list_all_iff dest!: map_of_SomeD)
    with that show False by simp
  qed
  then have "map_of (addr_to_idx t) b = Some j \<Longrightarrow> b \<noteq> a \<Longrightarrow>
      (entry_count t)[i := 0] ! j = entry_count t ! j" for b j
    by (metis nth_list_update_neq)
  then show ?thesis
    by (auto simp: rt_abs_def fun_eq_iff delete_conv' split: option.splits)
qed

lemma get_entries_refines:
  assumes "rt_inv t"
  shows "\<exists>t'. get_entries t a = Inr (rt_abs t a, t') \<and> rt_inv t' \<and>
              rt_abs t' = (rt_abs t)(a := []) \<and> num_addresses t' = num_addresses t \<and>
              num_entries_per_address t' = num_entries_per_address t"
proof (cases "map_of (addr_to_idx t) a")
  case None
  then show ?thesis using assms by (auto simp: get_entries_def rt_abs_def fun_eq_iff)
next
  case (Some i)
  then show ?thesis
    using get_entries_Some[OF assms Some] get_entries_inv[OF assms Some] get_entries_abs[OF assms Some]
    by simp
qed

text \<open>Adding a word to a line that has a slot, and to a line that claims the top free slot.\<close>

lemma slots_ok_pairs:
  assumes "slots_ok n k es ec as al fs" "z \<in> set al"
  shows "as ! snd z = fst z" "0 < ec ! snd z" "ec ! snd z \<le> k" "snd z < n" "snd z \<notin> set fs"
proof -
  have "list_all (\<lambda>(a, i). as ! i = a \<and> 0 < ec ! i \<and> ec ! i \<le> k) al"
    and un: "set (fs @ map snd al) = {0..<n}" and d: "distinct (fs @ map snd al)"
    using assms(1) by (simp_all only: slots_ok_def)
  then show "as ! snd z = fst z" "0 < ec ! snd z" "ec ! snd z \<le> k"
    using assms(2) by (auto simp: list_all_iff split_beta)
  have "snd z \<in> {0..<n}" unfolding un[symmetric] using assms(2) by simp
  then show "snd z < n" by simp
  show "snd z \<notin> set fs" using d assms(2) by auto
qed

lemma rows_update:
  assumes "list_all (\<lambda>row. length row = k) es" "length row' = k"
  shows "list_all (\<lambda>row. length row = k) (es[i := row'])"
  using assms by (simp add: list_all_length nth_list_update_if)

lemma slots_ok_append:
  assumes ok: "slots_ok n k es ec as al fs" and i: "(a, i) \<in> set al" and lt: "ec ! i < k"
  shows "slots_ok n k (es[i := (es ! i)[ec ! i := x]]) (ec[i := Suc (ec ! i)]) as al fs"
proof -
  note p = slots_ok_pairs[OF ok]
  have i2: "i < n" "i \<notin> set fs" using p(4,5)[OF i] by simp_all
  have len: "length es = n" "length ec = n" "list_all (\<lambda>row. length row = k) es"
    and fr: "list_all (\<lambda>i. ec ! i = 0) fs"
    using ok by (simp_all add: slots_ok_def)
  have "length ((es ! i)[ec ! i := x]) = k" using len i2 by (simp add: list_all_length)
  with len(3) have "list_all (\<lambda>row. length row = k) (es[i := (es ! i)[ec ! i := x]])" by (rule rows_update)
  moreover have "list_all (\<lambda>j. ec[i := Suc (ec ! i)] ! j = 0) fs"
    using fr i2 by (auto simp: list_all_iff nth_list_update_if)
  moreover have "list_all (\<lambda>(b, j). as ! j = b \<and> 0 < ec[i := Suc (ec ! i)] ! j \<and>
      ec[i := Suc (ec ! i)] ! j \<le> k) al"
    unfolding list_all_iff split_beta
  proof
    fix z assume "z \<in> set al"
    from p(1-3)[OF this] lt show "as ! snd z = fst z \<and> 0 < ec[i := Suc (ec ! i)] ! snd z \<and>
        ec[i := Suc (ec ! i)] ! snd z \<le> k"
      by (auto simp: nth_list_update_if)
  qed
  ultimately show ?thesis using ok unfolding slots_ok_def by (intro conjI) simp_all
qed

lemma slots_ok_claim:
  assumes ok: "slots_ok n k es ec as al (fs @ [i])" and a: "map_of al a = None" and k: "0 < k"
  shows "slots_ok n k (es[i := (es ! i)[0 := x]]) (ec[i := Suc 0]) (as[i := a]) (al @ [(a, i)]) fs"
proof -
  note p = slots_ok_pairs[OF ok]
  have len: "length es = n" "length ec = n" "length as = n" "list_all (\<lambda>row. length row = k) es"
    and d: "distinct (map fst al)" and dis: "distinct (fs @ i # map snd al)"
    and un: "set (fs @ i # map snd al) = {0..<n}"
    and fr: "list_all (\<lambda>i. ec ! i = 0) fs"
    using ok by (simp_all add: slots_ok_def)
  have "i \<in> {0..<n}" unfolding un[symmetric] by simp
  then have i: "i < n" by simp
  have "length ((es ! i)[0 := x]) = k" using len i by (simp add: list_all_length)
  with len(4) have "list_all (\<lambda>row. length row = k) (es[i := (es ! i)[0 := x]])" by (rule rows_update)
  moreover have "list_all (\<lambda>j. ec[i := Suc 0] ! j = 0) fs"
    using fr dis by (auto simp: list_all_iff nth_list_update_if)
  moreover have ne: "snd z \<noteq> i" if "z \<in> set al" for z using dis that by auto
  have "\<forall>z \<in> set al. as[i := a] ! snd z = fst z \<and> 0 < ec[i := Suc 0] ! snd z \<and> ec[i := Suc 0] ! snd z \<le> k"
  proof
    fix z assume z: "z \<in> set al"
    from p(1-3)[OF z] ne[OF z]
    show "as[i := a] ! snd z = fst z \<and> 0 < ec[i := Suc 0] ! snd z \<and> ec[i := Suc 0] ! snd z \<le> k"
      by simp
  qed
  then have "list_all (\<lambda>(b, j). as[i := a] ! j = b \<and> 0 < ec[i := Suc 0] ! j \<and> ec[i := Suc 0] ! j \<le> k)
      (al @ [(a, i)])"
    using i len k by (simp add: list_all_iff split_beta)
  moreover have "distinct (map fst (al @ [(a, i)]))" using d a by (simp add: map_of_eq_None_iff)
  moreover have "distinct (fs @ map snd (al @ [(a, i)]))" using dis by auto
  moreover have "set (fs @ map snd (al @ [(a, i)])) = {0..<n}" unfolding un[symmetric] by auto
  ultimately show ?thesis unfolding slots_ok_def using len by (intro conjI) simp_all
qed

text \<open>How the abstraction of a line follows from the slot arrays.\<close>

lemma slot_injective:
  assumes "rt_inv t" "map_of (addr_to_idx t) a = Some i" "map_of (addr_to_idx t) b = Some i"
  shows "a = b"
  using slots_ok_pairs(1)[OF assms(1)[unfolded rt_inv_def] map_of_SomeD[OF assms(2)]]
    slots_ok_pairs(1)[OF assms(1)[unfolded rt_inv_def] map_of_SomeD[OF assms(3)]] by simp

lemma rt_abs_append:
  assumes inv: "rt_inv t" and i: "map_of (addr_to_idx t) a = Some i"
    and lt: "entry_count t ! i < num_entries_per_address t"
    and es: "rt_entries t' = (rt_entries t)[i := (rt_entries t ! i)[entry_count t ! i := x]]"
    and ec: "entry_count t' = (entry_count t)[i := Suc (entry_count t ! i)]"
    and al: "addr_to_idx t' = addr_to_idx t"
  shows "rt_abs t' = (rt_abs t)(a := rt_abs t a @ [x])"
proof
  fix b
  note l = rt_lookup[OF inv i]
  show "rt_abs t' b = ((rt_abs t)(a := rt_abs t a @ [x])) b"
  proof (cases "b = a")
    case True
    have "take (Suc (entry_count t ! i)) ((rt_entries t ! i)[entry_count t ! i := x])
          = take (entry_count t ! i) (rt_entries t ! i) @ [x]"
      using lt l(4) by (simp add: take_Suc_conv_app_nth)
    with True show ?thesis using l(6,7,8) by (simp add: rt_abs_def al i es ec)
  next
    case False
    have "j \<noteq> i" if "map_of (addr_to_idx t) b = Some j" for j
      using slot_injective[OF inv i] that False by blast
    with False show ?thesis
      by (cases "map_of (addr_to_idx t) b") (simp_all add: rt_abs_def al es ec)
  qed
qed

lemma rt_abs_claim:
  assumes inv: "rt_inv t" and a: "map_of (addr_to_idx t) a = None"
    and fs: "free_slots t = fs @ [i]" and k: "0 < num_entries_per_address t"
    and es: "rt_entries t' = (rt_entries t)[i := (rt_entries t ! i)[0 := x]]"
    and ec: "entry_count t' = (entry_count t)[i := Suc 0]"
    and al: "addr_to_idx t' = addr_to_idx t @ [(a, i)]"
  shows "rt_abs t' = (rt_abs t)(a := rt_abs t a @ [x])"
proof
  fix b
  have "i \<in> {0..<num_addresses t}" unfolding rt_inv_slots(2)[OF inv, symmetric] by (simp add: fs)
  then have i: "i < num_addresses t" by simp
  note len = rt_inv_lengths[OF inv]
  show "rt_abs t' b = ((rt_abs t)(a := rt_abs t a @ [x])) b"
  proof (cases "b = a")
    case True
    have "take (Suc 0) ((rt_entries t ! i)[0 := x]) = [x]"
      using k len(5)[OF i] by (cases "rt_entries t ! i") auto
    with True a i len show ?thesis by (simp add: rt_abs_def al es ec map_add_def)
  next
    case False
    have "j \<noteq> i" if "map_of (addr_to_idx t) b = Some j" for j
      using rt_lookup(5)[OF inv that] fs by auto
    with False a show ?thesis
      by (cases "map_of (addr_to_idx t) b") (simp_all add: rt_abs_def al es ec map_add_def)
  qed
qed

definition add_simulates :: "request_table \<Rightarrow> u32 \<Rightarrow> Addr \<Rightarrow> u16 \<Rightarrow> bool" where
  "add_simulates t itr a wid \<longleftrightarrow>
     (case spec_add (num_addresses t) (num_entries_per_address t) (rt_abs t)
             \<lparr> re_itr = itr, re_wid = wid \<rparr> a of
        Inl e \<Rightarrow> add_entry t itr a wid = Inl e
      | Inr (b, m) \<Rightarrow> \<exists>t'. add_entry t itr a wid = Inr (b, t') \<and> rt_inv t' \<and> rt_abs t' = m \<and>
          num_addresses t' = num_addresses t \<and> num_entries_per_address t' = num_entries_per_address t)"

lemma add_entry_present:
  assumes inv: "rt_inv t" and i: "map_of (addr_to_idx t) a = Some i"
  shows "add_simulates t itr a wid"
proof -
  note l = rt_lookup[OF inv i]
  have abs_len: "length (rt_abs t a) = entry_count t ! i" using l by simp
  show ?thesis
  proof (cases "entry_count t ! i < num_entries_per_address t")
    case True
    let ?t' = "t\<lparr> rt_entries := (rt_entries t)[i := (rt_entries t ! i)
                     [entry_count t ! i := \<lparr> re_itr = itr, re_wid = wid \<rparr>]],
                   entry_count := (entry_count t)[i := Suc (entry_count t ! i)],
                   stat_words_inserted := Suc (stat_words_inserted t) \<rparr>"
    have "add_entry t itr a wid = Inr (True, ?t')"
      using True l i by (simp add: add_entry_def append_entry_def arr_get_def arr_set_def)
    moreover have "rt_inv ?t'"
      using slots_ok_append[OF inv[unfolded rt_inv_def] map_of_SomeD[OF i] True]
      by (simp add: rt_inv_def)
    moreover have "rt_abs ?t' = (rt_abs t)(a := rt_abs t a @ [\<lparr> re_itr = itr, re_wid = wid \<rparr>])"
      by (rule rt_abs_append[OF inv i True]) simp_all
    ultimately show ?thesis using True abs_len l(9) by (auto simp: spec_add_def add_simulates_def)
  next
    case False
    then show ?thesis using l abs_len i
      by (auto simp: spec_add_def add_entry_def append_entry_def arr_get_def add_simulates_def)
  qed
qed

lemma add_entry_fresh:
  assumes inv: "rt_inv t" and a: "map_of (addr_to_idx t) a = None" and fs: "free_slots t = fs @ [i]"
  shows "add_simulates t itr a wid"
proof -
  have m: "rt_abs t a = []" using rt_abs_empty_iff[OF inv] a by simp
  have "i \<in> {0..<num_addresses t}" unfolding rt_inv_slots(2)[OF inv, symmetric] by (simp add: fs)
  then have i: "i < num_addresses t" by simp
  note len = rt_inv_lengths[OF inv]
  have nf: "\<not> spec_full (num_addresses t) (rt_abs t)"
    using rt_full_iff[OF inv] fs by (simp add: rt_is_full_def)
  show ?thesis
  proof (cases "0 < num_entries_per_address t")
    case True
    then have row: "rt_entries t ! i \<noteq> []" using len(5)[OF i] by auto
    let ?t' = "t\<lparr> rt_entries := (rt_entries t)[i := (rt_entries t ! i)[0 := \<lparr> re_itr = itr, re_wid = wid \<rparr>]],
                   entry_count := (entry_count t)[i := Suc 0], addresses := (addresses t)[i := a],
                   addr_to_idx := addr_to_idx t @ [(a, i)], free_slots := fs,
                   stat_lines_inserted := Suc (stat_lines_inserted t),
                   stat_words_inserted := Suc (stat_words_inserted t) \<rparr>"
    have "add_entry t itr a wid = Inr (True, ?t')"
      using True a fs i len(1-3) row
      by (simp add: add_entry_def append_entry_def arr_get_def arr_set_def update_fresh Let_def)
    moreover have "rt_inv ?t'"
      using slots_ok_claim[OF inv[unfolded rt_inv_def fs] a True] by (simp add: rt_inv_def)
    moreover have "rt_abs ?t' = (rt_abs t)(a := rt_abs t a @ [\<lparr> re_itr = itr, re_wid = wid \<rparr>])"
      by (rule rt_abs_claim[OF inv a fs True]) simp_all
    ultimately show ?thesis using True m nf by (simp add: spec_add_def add_simulates_def)
  next
    case False
    then show ?thesis using a fs i len(1-3) m nf
      by (simp add: spec_add_def add_entry_def append_entry_def arr_get_def arr_set_def Let_def
          add_simulates_def)
  qed
qed

lemma add_entry_refines:
  assumes "rt_inv t"
  shows "add_simulates t itr a wid"
proof (cases "map_of (addr_to_idx t) a")
  case (Some i)
  then show ?thesis by (rule add_entry_present[OF assms])
next
  case None
  show ?thesis
  proof (cases "free_slots t" rule: rev_cases)
    case Nil
    then show ?thesis using None rt_full_iff[OF assms] rt_abs_empty_iff[OF assms] assms
      by (simp add: spec_add_def add_entry_def rt_is_full_def add_simulates_def)
  next
    case (snoc fs i)
    with assms None show ?thesis by (rule add_entry_fresh)
  qed
qed

lemma add_entry_Inr:
  assumes "rt_inv t" "add_entry t itr a wid = Inr (b, t')"
  shows "rt_inv t'" "num_addresses t' = num_addresses t"
    "num_entries_per_address t' = num_entries_per_address t"
    "spec_add (num_addresses t) (num_entries_per_address t) (rt_abs t) \<lparr> re_itr = itr, re_wid = wid \<rparr> a
       = Inr (b, rt_abs t')"
  using add_entry_refines[OF assms(1), of itr a wid] assms(2)
  by (auto simp: add_simulates_def split: sum.splits prod.splits)

lemma rt_check_reset_iff: "rt_inv t \<Longrightarrow> is_ok (rt_check_reset t) \<longleftrightarrow> (\<forall>a. rt_abs t a = [])"
proof -
  assume i: "rt_inv t"
  have "list_all (\<lambda>n. n = 0) (entry_count t)" if e: "addr_to_idx t = []"
    unfolding list_all_length
  proof (intro allI impI)
    fix j assume "j < length (entry_count t)"
    then have "j \<in> set (free_slots t @ map snd (addr_to_idx t))"
      unfolding rt_inv_slots(2)[OF i] using rt_inv_lengths(2)[OF i] by simp
    then show "entry_count t ! j = 0" using rt_inv_counts(1)[OF i] e by (simp add: list_all_iff)
  qed
  moreover have "(\<forall>a. rt_abs t a = []) \<longleftrightarrow> addr_to_idx t = []"
    using rt_abs_support[OF i] by auto
  ultimately show ?thesis by (auto simp: rt_check_reset_def)
qed

section \<open>The table as a line buffer\<close>

text \<open>
  The interface the stream unit uses: words are added to lines while requests are issued, and all
  the words of a line are taken out when its data arrives.
\<close>

primrec put_all :: "('t \<Rightarrow> 'w \<Rightarrow> 'a \<Rightarrow> (bool \<times> 't) res) \<Rightarrow> ('w \<times> 'a) list \<Rightarrow> 't \<Rightarrow> 't res" where
  "put_all put [] t = Inr t"
| "put_all put (x # xs) t =
     rbind (put t (fst x) (snd x)) (\<lambda>(b, t'). if b then put_all put xs t' else Inl Panic)"

locale line_buffer =
  fixes inv :: "'t \<Rightarrow> bool"
    and content :: "'t \<Rightarrow> 'a \<Rightarrow> 'w list"
    and put :: "'t \<Rightarrow> 'w \<Rightarrow> 'a \<Rightarrow> (bool \<times> 't) res"
    and take_line :: "'t \<Rightarrow> 'a \<Rightarrow> ('w list \<times> 't) res"
  assumes put_inv: "inv t \<Longrightarrow> put t w a = Inr (b, t') \<Longrightarrow> inv t'"
    and put_content: "inv t \<Longrightarrow> put t w a = Inr (b, t') \<Longrightarrow>
          content t' = (if b then (content t)(a := content t a @ [w]) else content t)"
    and take_content: "inv t \<Longrightarrow> \<exists>t'. take_line t a = Inr (content t a, t') \<and> inv t' \<and>
          content t' = (content t)(a := [])"
begin

lemma puts_content:
  "inv t \<Longrightarrow> put_all put xs t = Inr t' \<Longrightarrow>
   inv t' \<and> content t' = (\<lambda>a. content t a @ map fst (filter (\<lambda>x. snd x = a) xs))"
proof (induction xs arbitrary: t)
  case Nil
  then show ?case by simp
next
  case (Cons x xs)
  then obtain t1 where p: "put t (fst x) (snd x) = Inr (True, t1)" and r: "put_all put xs t1 = Inr t'"
    by (auto simp: res_simps split: prod.splits if_splits)
  from Cons.IH[OF put_inv[OF Cons.prems(1) p] r] put_content[OF Cons.prems(1) p] show ?case
    by (auto simp: fun_eq_iff)
qed

lemma puts_then_take:
  assumes "inv t" "\<forall>a. content t a = []" "put_all put xs t = Inr t'"
  shows "\<exists>t''. take_line t' a = Inr (map fst (filter (\<lambda>x. snd x = a) xs), t'') \<and>
               inv t'' \<and> content t'' a = []"
  using puts_content[OF assms(1,3)] take_content[of t' a] assms(2) by auto

end

interpretation rt: line_buffer rt_inv rt_abs "\<lambda>t w a. add_entry t (re_itr w) a (re_wid w)" get_entries
proof
  fix t t' :: request_table and w :: RequestTableEntry and a b
  assume a: "rt_inv t" "add_entry t (re_itr w) a (re_wid w) = Inr (b, t')"
  then show "rt_inv t'" by (rule add_entry_Inr(1))
  show "rt_abs t' = (if b then (rt_abs t)(a := rt_abs t a @ [w]) else rt_abs t)"
    using add_entry_Inr(4)[OF a] by (cases w) (auto simp: spec_add_def split: if_splits)
next
  fix t :: request_table and a
  assume "rt_inv t"
  then show "\<exists>t'. get_entries t a = Inr (rt_abs t a, t') \<and> rt_inv t' \<and> rt_abs t' = (rt_abs t)(a := [])"
    using get_entries_refines by blast
qed

section \<open>Properties\<close>

text \<open>Sequences of calls, with everything a caller sees.\<close>

datatype rt_call = Add_Entry u32 Addr u16 | Get_Entries Addr | Is_Full | Reset | Check_Reset

datatype rt_reply = Added bool | Words "RequestTableEntry list" | Full bool | Done

fun rt_exec :: "rt_call list \<Rightarrow> request_table \<Rightarrow> rt_reply list res" where
  "rt_exec [] t = Inr []"
| "rt_exec (Add_Entry itr a wid # cs) t =
     rbind (add_entry t itr a wid) (\<lambda>(b, t'). rbind (rt_exec cs t') (\<lambda>rs. Inr (Added b # rs)))"
| "rt_exec (Get_Entries a # cs) t =
     rbind (get_entries t a) (\<lambda>(ws, t'). rbind (rt_exec cs t') (\<lambda>rs. Inr (Words ws # rs)))"
| "rt_exec (Is_Full # cs) t = rbind (rt_exec cs t) (\<lambda>rs. Inr (Full (rt_is_full t) # rs))"
| "rt_exec (Reset # cs) t = rbind (rt_exec cs (rt_reset t)) (\<lambda>rs. Inr (Done # rs))"
| "rt_exec (Check_Reset # cs) t =
     rbind (rt_check_reset t) (\<lambda>_. rbind (rt_exec cs t) (\<lambda>rs. Inr (Done # rs)))"

fun spec_exec :: "nat \<Rightarrow> nat \<Rightarrow> rt_call list \<Rightarrow> lines \<Rightarrow> rt_reply list res" where
  "spec_exec n k [] m = Inr []"
| "spec_exec n k (Add_Entry itr a wid # cs) m =
     rbind (spec_add n k m \<lparr> re_itr = itr, re_wid = wid \<rparr> a) (\<lambda>(b, m').
       rbind (spec_exec n k cs m') (\<lambda>rs. Inr (Added b # rs)))"
| "spec_exec n k (Get_Entries a # cs) m =
     (case spec_get m a of (ws, m') \<Rightarrow> rbind (spec_exec n k cs m') (\<lambda>rs. Inr (Words ws # rs)))"
| "spec_exec n k (Is_Full # cs) m = rbind (spec_exec n k cs m) (\<lambda>rs. Inr (Full (spec_full n m) # rs))"
| "spec_exec n k (Reset # cs) m = rbind (spec_exec n k cs (\<lambda>_. [])) (\<lambda>rs. Inr (Done # rs))"
| "spec_exec n k (Check_Reset # cs) m =
     (if {a. m a \<noteq> []} = {} then rbind (spec_exec n k cs m) (\<lambda>rs. Inr (Done # rs)) else Inl Panic)"

lemma rt_exec_spec:
  "rt_inv t \<Longrightarrow> rt_exec cs t = spec_exec (num_addresses t) (num_entries_per_address t) cs (rt_abs t)"
proof (induction cs arbitrary: t)
  case Nil
  then show ?case by simp
next
  case (Cons c cs)
  note inv = Cons.prems
  show ?case
  proof (cases c)
    case (Add_Entry itr a wid)
    then show ?thesis using add_entry_refines[OF inv, of itr a wid] Cons.IH
      by (auto simp: add_simulates_def split: sum.splits)
  next
    case (Get_Entries a)
    then show ?thesis using get_entries_refines[OF inv, of a] Cons.IH by (auto simp: spec_get_def fun_upd_def)
  next
    case Is_Full
    then show ?thesis using Cons.IH[OF inv] rt_full_iff[OF inv] by simp
  next
    case Reset
    then show ?thesis using Cons.IH[OF rt_reset_inv[OF inv]]
      by (simp only: rt_exec.simps spec_exec.simps rt_reset_abs) (simp add: rt_reset_def)
  next
    case Check_Reset
    have "rt_check_reset t = (if \<forall>a. rt_abs t a = [] then Inr () else Inl Panic)"
      using rt_check_reset_iff[OF inv] by (auto simp: rt_check_reset_def split: if_splits)
    then show ?thesis
      unfolding Check_Reset rt_exec.simps spec_exec.simps Cons.IH[OF inv]
      by (cases "\<exists>a. rt_abs t a \<noteq> []") auto
  qed
qed

text \<open>
  C1.  Refinement: for every sequence of calls, the constant-time request table (hash map, free-slot
  stack, per-slot counts) returns exactly the replies of the contract: a function from line address
  to waiting words, bounded by \<open>num_addresses\<close> lines and \<open>num_entries_per_address\<close> words per
  line.  Failed assertions and panics occur at exactly the same calls, and no access leaves the
  arrays.
\<close>

theorem request_table_refines_contract:
  "rt_exec cs (RequestTable_init n k) = spec_exec n k cs (\<lambda>_. [])"
  using rt_exec_spec[OF rt_init_inv, of cs n k] by (simp add: rt_init_abs) (simp add: RequestTable_init_def)

text \<open>
  C7.  Round trip: after any run of accepted additions to an empty table, \<open>get_entries\<close> of a line
  returns the words added for that line, all of them, in the order of their insertion, whatever
  other lines were filled in between, and leaves that line empty.
\<close>

theorem add_then_get_entries:
  assumes "put_all (\<lambda>t w a. add_entry t (re_itr w) a (re_wid w)) xs (RequestTable_init n k) = Inr t"
  shows "\<exists>t'. get_entries t a = Inr (map fst (filter (\<lambda>x. snd x = a) xs), t') \<and>
              get_entries t' a = Inr ([], t')"
proof -
  have "\<forall>a. rt_abs (RequestTable_init n k) a = []" by (simp add: rt_init_abs)
  from rt.puts_then_take[OF rt_init_inv this assms] obtain t' where
    "get_entries t a = Inr (map fst (filter (\<lambda>x. snd x = a) xs), t')" "rt_inv t'" "rt_abs t' a = []"
    by blast
  then show ?thesis by (auto simp: rt_abs_empty_iff get_entries_def)
qed

theorem add_then_get_entries_witness:
  "\<exists>t t'. put_all (\<lambda>t w a. add_entry t (re_itr w) a (re_wid w))
            [(\<lparr> re_itr = 1, re_wid = 2 \<rparr>, 64), (\<lparr> re_itr = 3, re_wid = 0 \<rparr>, 128), (\<lparr> re_itr = 4, re_wid = 5 \<rparr>, 64)]
            (RequestTable_init 2 2) = Inr t \<and>
          get_entries t 64 = Inr ([\<lparr> re_itr = 1, re_wid = 2 \<rparr>, \<lparr> re_itr = 4, re_wid = 5 \<rparr>], t')"
proof -
  let ?xs = "[(\<lparr> re_itr = 1, re_wid = 2 \<rparr>, 64), (\<lparr> re_itr = 3, re_wid = 0 \<rparr>, 128), (\<lparr> re_itr = 4, re_wid = 5 \<rparr>, 64 :: Addr)]"
  have "is_ok (put_all (\<lambda>t w a. add_entry t (re_itr w) a (re_wid w)) ?xs (RequestTable_init 2 2))"
    by code_simp
  then obtain t where
    t: "put_all (\<lambda>t w a. add_entry t (re_itr w) a (re_wid w)) ?xs (RequestTable_init 2 2) = Inr t"
    by (rule is_okE)
  from add_then_get_entries[OF t, of 64] t show ?thesis by auto
qed

text \<open>
  C19.  Admission: \<open>add_entry\<close> turns a word away exactly when its line has no slot yet and the
  table is full, that is when \<open>num_addresses\<close> distinct lines are outstanding.  It raises its
  assertion exactly when the line already holds \<open>num_entries_per_address\<close> words.
\<close>

theorem add_entry_admission:
  assumes "rt_inv t"
  shows "((\<exists>t'. add_entry t itr a wid = Inr (False, t')) \<longleftrightarrow>
            rt_abs t a = [] \<and> card {b. rt_abs t b \<noteq> []} = num_addresses t) \<and>
         (add_entry t itr a wid = Inl Assert_Fail \<longleftrightarrow>
            \<not> (rt_abs t a = [] \<and> card {b. rt_abs t b \<noteq> []} = num_addresses t) \<and>
            num_entries_per_address t \<le> length (rt_abs t a))"
  using add_entry_refines[OF assms, of itr a wid]
  by (auto simp: add_simulates_def spec_add_def spec_full_def split: if_splits)

theorem add_entry_admission_witness:
  "\<exists>t. rt_inv t \<and> rt_abs t 64 = [\<lparr> re_itr = 1, re_wid = 2 \<rparr>] \<and> add_entry t 5 64 6 = Inl Assert_Fail"
proof -
  have "is_ok (add_entry (RequestTable_init 2 1) 1 64 2)" by code_simp
  then obtain b t where t: "add_entry (RequestTable_init 2 1) 1 64 2 = Inr (b, t)"
    by (metis is_okE surj_pair)
  note f = add_entry_Inr[OF rt_init_inv t]
  have m: "rt_abs t = (\<lambda>_. [])(64 := [\<lparr> re_itr = 1, re_wid = 2 \<rparr>])" and k: "num_addresses t = 2"
    "num_entries_per_address t = 1"
    using f(2-4) unfolding rt_init_abs
    by (auto simp: spec_add_def spec_full_def RequestTable_init_def split: if_splits)
  show ?thesis
    using add_entry_admission[OF f(1), of 5 64 6] f(1) m k by auto
qed

end
