(* ===== verification/Offset_Table.thy ===== *)
theory Offset_Table
  imports MAA_Prelude
begin

text \<open>
  The offset table (\<open>OffsetTable\<close> in \<open>Tables.hh\<close> and \<open>Tables.cc\<close>): one cell per
  element of a tile, threaded into singly linked chains, one chain per cache line of the row table.
  A chain is addressed by its first iteration and extended at its last one.  The receiving loop
  follows the links until \<open>-1\<close>; it is total because every iteration invalidates the cell it
  leaves and panics on an invalid one.
\<close>

section \<open>State and operations\<close>

record OffsetTableEntry =
  oe_itr :: int
  oe_wid :: int
  oe_next_itr :: int

record offset_table =
  ot_entries :: "OffsetTableEntry list"
  ot_valid :: "bool list"
  ot_num_tile_elements :: nat
  ot_words_inserted :: nat

definition ot_allocate :: "nat \<Rightarrow> offset_table" where
  "ot_allocate n =
     \<lparr> ot_entries = map (\<lambda>i. \<lparr> oe_itr = int i, oe_wid = - 1, oe_next_itr = - 1 \<rparr>) [0..<n],
       ot_valid = replicate n False, ot_num_tile_elements = n, ot_words_inserted = 0 \<rparr>"

definition ot_insert :: "offset_table \<Rightarrow> int \<Rightarrow> int \<Rightarrow> int \<Rightarrow> offset_table res" where
  "ot_insert t itr wid last_itr =
     rbind (arr_get (ot_entries t) itr) (\<lambda>c.
     rbind (arr_set (ot_entries t) itr (c\<lparr> oe_wid := wid, oe_next_itr := - 1 \<rparr>)) (\<lambda>es.
     rbind (arr_set (ot_valid t) itr True) (\<lambda>vs.
     rbind (if last_itr \<noteq> - 1
            then rbind (arr_get es last_itr) (\<lambda>d. arr_set es last_itr (d\<lparr> oe_next_itr := itr \<rparr>))
            else Inr es) (\<lambda>es'.
       Inr (t\<lparr> ot_entries := es', ot_valid := vs,
               ot_words_inserted := Suc (ot_words_inserted t) \<rparr>)))))"

definition ot_clear_cell :: "offset_table \<Rightarrow> nat \<Rightarrow> offset_table" where
  "ot_clear_cell t i =
     t\<lparr> ot_valid := (ot_valid t)[i := False],
        ot_entries := (ot_entries t)[i := (ot_entries t ! i)\<lparr> oe_wid := - 1, oe_next_itr := - 1 \<rparr>] \<rparr>"

definition ot_count :: "offset_table \<Rightarrow> nat" where
  "ot_count t = length (filter id (ot_valid t))"

lemma filter_id_update_less:
  "i < length vs \<Longrightarrow> vs ! i \<Longrightarrow> length (filter id (vs[i := False])) < length (filter id vs)"
proof (induction vs arbitrary: i)
  case (Cons v vs)
  then show ?case by (cases i) auto
qed simp

lemma ot_count_clear:
  "i < length (ot_valid t) \<Longrightarrow> ot_valid t ! i \<Longrightarrow> ot_count (ot_clear_cell t i) < ot_count t"
  by (simp add: ot_count_def ot_clear_cell_def filter_id_update_less)

text \<open>The while loop of \<open>get_entry_recv\<close>, with the result gathered so far.\<close>

function ot_recv_loop :: "int \<Rightarrow> offset_table \<Rightarrow> OffsetTableEntry list \<Rightarrow> (OffsetTableEntry list \<times> offset_table) res" where
  "ot_recv_loop itr t result =
     (if itr = - 1 then Inr (result, t)
      else if itr < 0 \<or> nat itr \<ge> length (ot_entries t) \<or> nat itr \<ge> length (ot_valid t) then Inl Out_Of_Bounds
      else if \<not> ot_valid t ! nat itr then Inl Panic
      else ot_recv_loop (oe_next_itr (ot_entries t ! nat itr)) (ot_clear_cell t (nat itr))
             (result @ [ot_entries t ! nat itr]))"
  by pat_completeness auto
termination
  by (relation "measure (\<lambda>(itr, t, result). ot_count t)") (auto intro: ot_count_clear)

declare ot_recv_loop.simps [simp del]

definition ot_get_entry_recv :: "offset_table \<Rightarrow> int \<Rightarrow> (OffsetTableEntry list \<times> offset_table) res" where
  "ot_get_entry_recv t first_itr =
     (if first_itr = - 1 then Inl Assert_Fail else ot_recv_loop first_itr t [])"

definition ot_consume_entry :: "offset_table \<Rightarrow> int \<Rightarrow> (OffsetTableEntry \<times> int \<times> offset_table) res" where
  "ot_consume_entry t itr =
     (if itr < 0 \<or> itr \<ge> int (ot_num_tile_elements t) then Inl Panic
      else rbind (arr_get (ot_valid t) itr) (\<lambda>v.
        if \<not> v then Inl Panic
        else rbind (arr_get (ot_entries t) itr) (\<lambda>c.
          Inr (c, oe_next_itr c, ot_clear_cell t (nat itr)))))"

definition ot_check_reset :: "offset_table \<Rightarrow> unit res" where
  "ot_check_reset t =
     (if list_all Not (ot_valid t) \<and> list_all (\<lambda>c. oe_next_itr c = - 1 \<and> oe_wid c = - 1) (ot_entries t)
      then Inr () else Inl Panic)"

definition ot_reset :: "offset_table \<Rightarrow> offset_table" where
  "ot_reset t =
     t\<lparr> ot_valid := map (\<lambda>_. False) (ot_valid t),
        ot_entries := map (\<lambda>c. c\<lparr> oe_next_itr := - 1, oe_wid := - 1 \<rparr>) (ot_entries t) \<rparr>"

section \<open>Chains\<close>

definition ot_wf :: "offset_table \<Rightarrow> bool" where
  "ot_wf t \<longleftrightarrow> length (ot_entries t) = ot_num_tile_elements t \<and>
               length (ot_valid t) = ot_num_tile_elements t \<and>
               (\<forall>i < ot_num_tile_elements t. oe_itr (ot_entries t ! i) = int i) \<and>
               (\<forall>i < ot_num_tile_elements t. \<not> ot_valid t ! i \<longrightarrow>
                  oe_wid (ot_entries t ! i) = - 1 \<and> oe_next_itr (ot_entries t ! i) = - 1)"

text \<open>
  \<open>chain t first ws\<close>: following the links from \<open>first\<close> visits exactly the iterations of
  \<open>ws\<close>, in order, and finds the word offsets of \<open>ws\<close>.
\<close>

fun chain :: "offset_table \<Rightarrow> int \<Rightarrow> (nat \<times> int) list \<Rightarrow> bool" where
  "chain t f [] \<longleftrightarrow> f = - 1"
| "chain t f ((i, w) # ws) \<longleftrightarrow>
     f = int i \<and> i < ot_num_tile_elements t \<and> ot_valid t ! i \<and> oe_wid (ot_entries t ! i) = w \<and>
     i \<notin> fst ` set ws \<and> chain t (oe_next_itr (ot_entries t ! i)) ws"

lemma ot_allocate_wf: "ot_wf (ot_allocate n)"
  by (simp add: ot_wf_def ot_allocate_def)

lemma ot_clear_cell_wf: "ot_wf t \<Longrightarrow> ot_wf (ot_clear_cell t i)"
  by (auto simp: ot_wf_def ot_clear_cell_def nth_list_update_if)

lemma ot_clear_cell_other:
  "j \<noteq> i \<Longrightarrow> ot_valid (ot_clear_cell t i) ! j = ot_valid t ! j"
  "j \<noteq> i \<Longrightarrow> ot_entries (ot_clear_cell t i) ! j = ot_entries t ! j"
  "ot_num_tile_elements (ot_clear_cell t i) = ot_num_tile_elements t"
  by (simp_all add: ot_clear_cell_def)

text \<open>A chain only depends on its own cells.\<close>

lemma chain_cong:
  assumes "\<And>i. i \<in> fst ` set ws \<Longrightarrow> ot_valid t' ! i = ot_valid t ! i \<and> ot_entries t' ! i = ot_entries t ! i"
    and "ot_num_tile_elements t' = ot_num_tile_elements t"
  shows "chain t' f ws = chain t f ws"
  using assms(1)
proof (induction ws arbitrary: f)
  case (Cons x ws)
  then show ?case using assms(2) by (cases x) auto
qed simp

lemma chain_clear: "i \<notin> fst ` set ws \<Longrightarrow> chain (ot_clear_cell t i) f ws = chain t f ws"
  by (rule chain_cong) (metis ot_clear_cell_other)+

lemma chain_bounds:
  "chain t f ws \<Longrightarrow> i \<in> fst ` set ws \<Longrightarrow> i < ot_num_tile_elements t \<and> ot_valid t ! i"
  by (induction ws arbitrary: f) force+

lemma chain_distinct: "chain t f ws \<Longrightarrow> distinct (map fst ws)"
  by (induction ws arbitrary: f) force+

text \<open>What the receiving loop returns on a chain, and what it leaves behind.\<close>

lemma ot_recv_loop_chain:
  assumes "ot_wf t" "chain t f ws"
  shows "\<exists>es t'. ot_recv_loop f t acc = Inr (acc @ es, t') \<and> ot_wf t' \<and>
           map (\<lambda>c. (oe_itr c, oe_wid c)) es = map (\<lambda>(i, w). (int i, w)) ws \<and>
           ot_num_tile_elements t' = ot_num_tile_elements t \<and>
           (\<forall>i. ot_valid t' ! i = (ot_valid t ! i \<and> i \<notin> fst ` set ws) \<or> i \<ge> ot_num_tile_elements t) \<and>
           (\<forall>i. i \<notin> fst ` set ws \<longrightarrow> ot_entries t' ! i = ot_entries t ! i)"
  using assms
proof (induction ws arbitrary: f t acc)
  case Nil
  then show ?case by (simp add: ot_recv_loop.simps)
next
  case (Cons x ws)
  obtain i w where x: "x = (i, w)" by (cases x)
  let ?c = "ot_entries t ! i" and ?t = "ot_clear_cell t i"
  have i: "f = int i" "i < ot_num_tile_elements t" "ot_valid t ! i" "oe_wid ?c = w" "i \<notin> fst ` set ws"
    and ch: "chain t (oe_next_itr ?c) ws"
    using Cons.prems(2) x by auto
  have itr: "oe_itr ?c = int i" and len: "length (ot_valid t) = ot_num_tile_elements t"
    "length (ot_entries t) = ot_num_tile_elements t"
    using Cons.prems(1) i(2) by (auto simp: ot_wf_def)
  have step: "ot_recv_loop f t acc = ot_recv_loop (oe_next_itr ?c) ?t (acc @ [?c])"
    using i len by (subst ot_recv_loop.simps) simp
  have v: "ot_valid ?t ! i = False" using i len by (simp add: ot_clear_cell_def)
  obtain es t' where ih: "ot_recv_loop (oe_next_itr ?c) ?t (acc @ [?c]) = Inr ((acc @ [?c]) @ es, t')"
    "ot_wf t'" "map (\<lambda>c. (oe_itr c, oe_wid c)) es = map (\<lambda>(i, w). (int i, w)) ws"
    "ot_num_tile_elements t' = ot_num_tile_elements t"
    "\<forall>j. ot_valid t' ! j = (ot_valid ?t ! j \<and> j \<notin> fst ` set ws) \<or> j \<ge> ot_num_tile_elements t"
    "\<forall>j. j \<notin> fst ` set ws \<longrightarrow> ot_entries t' ! j = ot_entries ?t ! j"
    using Cons.IH[OF ot_clear_cell_wf[OF Cons.prems(1)], of i "oe_next_itr ?c" "acc @ [?c]"]
      chain_clear[OF i(5)] ch ot_clear_cell_other(3) by auto
  have "\<forall>j. ot_valid t' ! j = (ot_valid t ! j \<and> j \<notin> fst ` set (x # ws)) \<or> j \<ge> ot_num_tile_elements t"
    using ih(5) v by (metis image_insert insert_iff list.simps(15) ot_clear_cell_other(1) x fst_conv)
  moreover have "\<forall>j. j \<notin> fst ` set (x # ws) \<longrightarrow> ot_entries t' ! j = ot_entries t ! j"
    using ih(6) x ot_clear_cell_other(2) by simp
  ultimately show ?case using ih(1-4) step itr i(4) x by (intro exI[of _ "?c # es"] exI[of _ t']) simp
qed

text \<open>Appending a word: the chain that ends in \<open>last_itr\<close> grows, the others stay.\<close>

lemma chain_append:
  assumes "chain t f ws" "ws \<noteq> []" "i \<notin> fst ` set ws" "i < ot_num_tile_elements t"
    and last: "int (fst (last ws)) = l"
    and cells: "\<And>j. j \<in> fst ` set ws \<Longrightarrow> ot_valid t' ! j"
      "\<And>j. j \<in> fst ` set ws \<Longrightarrow> ot_entries t' ! j = (if int j = l then (ot_entries t ! j)\<lparr> oe_next_itr := int i \<rparr> else ot_entries t ! j)"
    and new: "ot_valid t' ! i" "oe_wid (ot_entries t' ! i) = w" "oe_next_itr (ot_entries t' ! i) = - 1"
    and n: "ot_num_tile_elements t' = ot_num_tile_elements t"
  shows "chain t' f (ws @ [(i, w)])"
  using assms(1-3) last cells
proof (induction ws arbitrary: f)
  case (Cons x ws)
  obtain j v where x: "x = (j, v)" by (cases x)
  show ?case
  proof (cases "ws = []")
    case True
    then show ?thesis using Cons.prems x n new assms(4) by auto
  next
    case False
    have "j \<notin> fst ` set ws" using Cons.prems(1) x by simp
    moreover have "fst (last ws) \<in> fst ` set ws" using False by simp
    ultimately have "j \<noteq> fst (last ws)" by metis
    then have jl: "int j \<noteq> l" using Cons.prems(4) False by auto
    have "chain t' (oe_next_itr (ot_entries t ! j)) (ws @ [(i, w)])"
      using Cons.prems x False by (intro Cons.IH) auto
    then show ?thesis using Cons.prems x n jl by auto
  qed
qed simp

lemma ot_insert_Inr:
  assumes wf: "ot_wf t" and i: "i < ot_num_tile_elements t"
    and l: "l = - 1 \<or> (0 \<le> l \<and> nat l < ot_num_tile_elements t)"
  shows "\<exists>t'. ot_insert t (int i) w l = Inr t' \<and> ot_num_tile_elements t' = ot_num_tile_elements t \<and>
      ot_words_inserted t' = Suc (ot_words_inserted t) \<and>
      ot_valid t' = (ot_valid t)[i := True] \<and>
      (let es = (ot_entries t)[i := (ot_entries t ! i)\<lparr> oe_wid := w, oe_next_itr := - 1 \<rparr>] in
       ot_entries t' = (if l = - 1 then es else es[nat l := (es ! nat l)\<lparr> oe_next_itr := int i \<rparr>]))"
  using assms by (auto simp: ot_insert_def arr_get_def arr_set_def ot_wf_def Let_def)

lemma ot_insert_wf:
  assumes "ot_wf t" "ot_insert t itr w l = Inr t'" "l \<noteq> - 1 \<Longrightarrow> ot_valid t ! nat l"
  shows "ot_wf t'"
proof -
  obtain es where es: "es = (ot_entries t)[nat itr := (ot_entries t ! nat itr)\<lparr> oe_wid := w, oe_next_itr := - 1 \<rparr>]"
    and t': "ot_valid t' = (ot_valid t)[nat itr := True]" "ot_num_tile_elements t' = ot_num_tile_elements t"
      "ot_entries t' = (if l = - 1 then es else es[nat l := (es ! nat l)\<lparr> oe_next_itr := itr \<rparr>])"
    using assms(2) by (auto simp: ot_insert_def res_simps arr_simps split: if_splits)
  show ?thesis
    using assms(1,3) unfolding ot_wf_def t' es
    by (auto simp: nth_list_update_if)
qed

lemma ot_recv_chain:
  assumes "ot_wf t" "chain t (int f) ws"
  shows "\<exists>es t'. ot_get_entry_recv t (int f) = Inr (es, t') \<and> ot_wf t' \<and>
           map (\<lambda>c. (oe_itr c, oe_wid c)) es = map (\<lambda>(i, w). (int i, w)) ws \<and>
           (\<forall>i < ot_num_tile_elements t. ot_valid t' ! i = (ot_valid t ! i \<and> i \<notin> fst ` set ws)) \<and>
           (\<forall>g vs. fst ` set vs \<inter> fst ` set ws = {} \<longrightarrow> chain t g vs \<longrightarrow> chain t' g vs)"
proof -
  obtain es t' where r: "ot_recv_loop (int f) t [] = Inr ([] @ es, t')" "ot_wf t'"
    "map (\<lambda>c. (oe_itr c, oe_wid c)) es = map (\<lambda>(i, w). (int i, w)) ws"
    "ot_num_tile_elements t' = ot_num_tile_elements t"
    "\<forall>i. ot_valid t' ! i = (ot_valid t ! i \<and> i \<notin> fst ` set ws) \<or> i \<ge> ot_num_tile_elements t"
    "\<forall>i. i \<notin> fst ` set ws \<longrightarrow> ot_entries t' ! i = ot_entries t ! i"
    using ot_recv_loop_chain[OF assms, of "[]"] by blast
  have "chain t' g vs" if d: "fst ` set vs \<inter> fst ` set ws = {}" and c: "chain t g vs" for g vs
  proof -
    have "i \<in> fst ` set vs \<Longrightarrow> ot_valid t' ! i = ot_valid t ! i \<and> ot_entries t' ! i = ot_entries t ! i" for i
      using r(5,6) d chain_bounds[OF c, of i] by (metis IntI empty_iff leD)
    from chain_cong[of vs t' t g, OF this r(4)] c show ?thesis by simp
  qed
  then show ?thesis using r(1-3,5) by (auto simp: ot_get_entry_recv_def)
qed

lemma ot_extend_chain:
  assumes "ot_wf t" "chain t (int f) ws" "ws \<noteq> []" "i < ot_num_tile_elements t" "\<not> ot_valid t ! i"
  shows "\<exists>t'. ot_insert t (int i) w (int (fst (last ws))) = Inr t' \<and> ot_wf t' \<and>
              chain t' (int f) (ws @ [(i, w)]) \<and>
              (\<forall>g vs. fst ` set vs \<inter> fst ` set ws = {} \<longrightarrow> chain t g vs \<longrightarrow> chain t' g vs)"
proof -
  let ?l = "fst (last ws)"
  have nin: "i \<notin> fst ` set vs" if "chain t g vs" for g vs
    using chain_bounds[OF that] assms(5) by blast
  have l: "?l \<in> fst ` set ws" using assms(3) by simp
  then have lb: "?l < ot_num_tile_elements t" "ot_valid t ! ?l"
    using chain_bounds[OF assms(2)] by blast+
  then have il: "i \<noteq> ?l" using assms(5) by blast
  obtain t' where t': "ot_insert t (int i) w (int ?l) = Inr t'"
    "ot_num_tile_elements t' = ot_num_tile_elements t" "ot_valid t' = (ot_valid t)[i := True]"
    "ot_entries t' = ((ot_entries t)[i := (ot_entries t ! i)\<lparr> oe_wid := w, oe_next_itr := - 1 \<rparr>])
        [?l := (ot_entries t ! ?l)\<lparr> oe_next_itr := int i \<rparr>]"
    using ot_insert_Inr[OF assms(1,4), of "int ?l" w] lb il by (auto simp: Let_def)
  have len: "length (ot_valid t) = ot_num_tile_elements t" "length (ot_entries t) = ot_num_tile_elements t"
    using assms(1) by (simp_all add: ot_wf_def)
  have "chain t' (int f) (ws @ [(i, w)])"
  proof (rule chain_append[OF assms(2,3) nin[OF assms(2)] assms(4) refl])
    fix j assume "j \<in> fst ` set ws"
    with nin[OF assms(2)] chain_bounds[OF assms(2)] lb len
    show "ot_valid t' ! j" "ot_entries t' ! j = (if int j = int ?l
        then (ot_entries t ! j)\<lparr> oe_next_itr := int i \<rparr> else ot_entries t ! j)"
      by (auto simp: t' nth_list_update_if)
  qed (use t' assms(4) il len in \<open>simp_all add: nth_list_update_if\<close>)
  moreover have "chain t' g vs" if d: "fst ` set vs \<inter> fst ` set ws = {}" and c: "chain t g vs" for g vs
  proof -
    have "ot_valid t' ! j = ot_valid t ! j \<and> ot_entries t' ! j = ot_entries t ! j" if "j \<in> fst ` set vs" for j
      using that d l nin[OF c] by (auto simp: t' nth_list_update_if)
    from chain_cong[of vs t' t g, OF this t'(2)] c show ?thesis by simp
  qed
  ultimately show ?thesis using t'(1) ot_insert_wf[OF assms(1) t'(1)] lb by auto
qed

section \<open>Properties\<close>

text \<open>
  C14.  Round trip of a chain: on a well-formed table, receiving the chain that starts at
  \<open>first_itr\<close> always returns; it yields exactly the iterations and word offsets of the chain,
  in link order; it frees exactly those cells; and every other chain can still be received.
\<close>

theorem offset_chain_recv:
  assumes "ot_wf t" "chain t (int f) ws"
  shows "\<exists>es t'. ot_get_entry_recv t (int f) = Inr (es, t') \<and> ot_wf t' \<and>
           map (\<lambda>c. (oe_itr c, oe_wid c)) es = map (\<lambda>(i, w). (int i, w)) ws \<and>
           (\<forall>i < ot_num_tile_elements t. ot_valid t' ! i = (ot_valid t ! i \<and> i \<notin> fst ` set ws)) \<and>
           (\<forall>g vs. fst ` set vs \<inter> fst ` set ws = {} \<longrightarrow> chain t g vs \<longrightarrow> chain t' g vs)"
  using assms by (rule ot_recv_chain)

theorem offset_chain_recv_witness:
  "\<exists>t es t'. chain t 2 [(2, 7), (0, 3)] \<and> ot_get_entry_recv t 2 = Inr (es, t') \<and> map oe_wid es = [7, 3]"
proof -
  define t where "t = (ot_allocate 4)\<lparr> ot_valid := [True, False, True, False],
     ot_entries := [\<lparr> oe_itr = 0, oe_wid = 3, oe_next_itr = - 1 \<rparr>, \<lparr> oe_itr = 1, oe_wid = - 1, oe_next_itr = - 1 \<rparr>,
                    \<lparr> oe_itr = 2, oe_wid = 7, oe_next_itr = 0 \<rparr>, \<lparr> oe_itr = 3, oe_wid = - 1, oe_next_itr = - 1 \<rparr>] \<rparr>"
  have wf: "ot_wf t"
    unfolding ot_wf_def t_def ot_allocate_def by (simp add: All_less_Suc numeral_nat)
  have ch: "chain t (int 2) [(2, 7), (0, 3)]" by (simp add: t_def ot_allocate_def)
  obtain es t' where r: "ot_get_entry_recv t (int 2) = Inr (es, t')"
    "map (\<lambda>c. (oe_itr c, oe_wid c)) es = map (\<lambda>(i, w). (int i, w)) [(2, 7), (0, 3)]"
    using offset_chain_recv[OF wf ch] by blast
  have "map oe_wid es = map snd (map (\<lambda>c. (oe_itr c, oe_wid c)) es)" by simp
  also have "\<dots> = [7, 3]" unfolding r(2) by simp
  finally show ?thesis using ch r(1) by auto
qed

text \<open>
  C15.  Insertion: inserting a free iteration at the tail of a chain succeeds, appends exactly that
  word to the chain, leaves every disjoint chain as it was and keeps the table well formed.
\<close>

theorem offset_insert_extends:
  assumes "ot_wf t" "chain t (int f) ws" "ws \<noteq> []" "i < ot_num_tile_elements t" "\<not> ot_valid t ! i"
  shows "\<exists>t'. ot_insert t (int i) w (int (fst (last ws))) = Inr t' \<and> ot_wf t' \<and>
              chain t' (int f) (ws @ [(i, w)]) \<and>
              (\<forall>g vs. fst ` set vs \<inter> fst ` set ws = {} \<longrightarrow> chain t g vs \<longrightarrow> chain t' g vs)"
  using assms by (rule ot_extend_chain)

theorem offset_insert_extends_witness:
  "\<exists>t t'. chain t 1 [(1, 5)] \<and> ot_insert t 3 9 1 = Inr t' \<and> chain t' 1 [(1, 5), (3, 9)]"
proof -
  obtain t where t: "ot_insert (ot_allocate 4) 1 5 (- 1) = Inr t"
    and eq: "t = (ot_allocate 4)\<lparr> ot_valid := (replicate 4 False)[1 := True], ot_words_inserted := 1,
        ot_entries := (ot_entries (ot_allocate 4))[1 := \<lparr> oe_itr = 1, oe_wid = 5, oe_next_itr = - 1 \<rparr>] \<rparr>"
    by (simp add: ot_insert_def ot_allocate_def arr_get_def arr_set_def)
  have wf: "ot_wf t" using ot_insert_wf[OF ot_allocate_wf t] by simp
  have ch: "chain t (int 1) [(1, 5)]" "3 < ot_num_tile_elements t" "\<not> ot_valid t ! 3"
    by (simp_all add: eq ot_allocate_def)
  from offset_insert_extends[OF wf ch(1) _ ch(2,3), of 9] ch(1) show ?thesis by auto
qed

end
