(* ===== verification/Row_Table.thy ===== *)
theory Row_Table
  imports Offset_Table "HOL-Library.Multiset"
begin

text \<open>
  The row table (\<open>RowTableEntry\<close> and \<open>RowTableSlice\<close> in \<open>Tables.hh\<close> and
  \<open>Tables.cc\<close>).  A slice holds rows, one per open group row address; a row holds cells, one
  per cache line; a cell names the first and the last iteration of its chain in the offset table.
  The offset table is shared by all slices of a unit, so every operation that touches it takes it
  as an argument and returns it.  Loops that search for the first index with a property are
  \<open>find\<close> over the index range; the sending loop, whose end depends on the state it changes, is a
  recursive function with a termination proof.
\<close>

section \<open>Rows\<close>

record row_cell =
  ce_addr :: Addr
  ce_first_itr :: int
  ce_last_itr :: int

record row_entry =
  grow_addr :: Addr
  cells :: "row_cell list"
  cells_valid :: "bool list"
  last_sent_entry_id :: nat
  row_lines_inserted :: nat

definition row_allocate :: "nat \<Rightarrow> row_entry" where
  "row_allocate n =
     \<lparr> grow_addr = 0, cells = replicate n \<lparr> ce_addr = 0, ce_first_itr = 0, ce_last_itr = 0 \<rparr>,
       cells_valid = replicate n False, last_sent_entry_id = 0, row_lines_inserted = 0 \<rparr>"

definition row_hit :: "row_entry \<Rightarrow> Addr \<Rightarrow> nat option" where
  "row_hit r addr =
     find (\<lambda>i. cells_valid r ! i \<and> ce_addr (cells r ! i) = addr) [0..<length (cells r)]"

definition row_find_addr :: "row_entry \<Rightarrow> Addr \<Rightarrow> bool" where
  "row_find_addr r addr \<longleftrightarrow> row_hit r addr \<noteq> None"

definition row_insert ::
  "row_entry \<Rightarrow> offset_table \<Rightarrow> Addr \<Rightarrow> int \<Rightarrow> int \<Rightarrow> (bool \<times> row_entry \<times> offset_table) res" where
  "row_insert r t addr itr wid =
     (case row_hit r addr of
        Some i \<Rightarrow>
          rbind (ot_insert t itr wid (ce_last_itr (cells r ! i))) (\<lambda>t'.
            Inr (True, r\<lparr> cells := (cells r)[i := (cells r ! i)\<lparr> ce_last_itr := itr \<rparr>] \<rparr>, t'))
      | None \<Rightarrow>
          (case find (\<lambda>i. \<not> cells_valid r ! i) [0..<length (cells r)] of
             None \<Rightarrow> Inr (False, r, t)
           | Some i \<Rightarrow>
               rbind (ot_insert t itr wid (- 1)) (\<lambda>t'.
                 Inr (True, r\<lparr> cells := (cells r)[i := \<lparr> ce_addr = addr, ce_first_itr = itr, ce_last_itr = itr \<rparr>],
                              cells_valid := (cells_valid r)[i := True],
                              row_lines_inserted := Suc (row_lines_inserted r) \<rparr>, t'))))"

definition row_check_reset :: "row_entry \<Rightarrow> unit res" where
  "row_check_reset r =
     (if \<not> list_all Not (cells_valid r) then Inl Panic
      else if last_sent_entry_id r \<noteq> 0 then Inl Panic else Inr ())"

definition row_reset :: "row_entry \<Rightarrow> row_entry" where
  "row_reset r = r\<lparr> cells_valid := map (\<lambda>_. False) (cells_valid r), last_sent_entry_id := 0 \<rparr>"

definition row_get_entry_send :: "row_entry \<Rightarrow> (Addr option \<times> row_entry) res" where
  "row_get_entry_send r =
     (if \<not> last_sent_entry_id r \<le> length (cells r) then Inl Assert_Fail
      else case find (\<lambda>i. cells_valid r ! i) [last_sent_entry_id r..<length (cells r)] of
             Some i \<Rightarrow> Inr (Some (ce_addr (cells r ! i)), r\<lparr> last_sent_entry_id := Suc i \<rparr>)
           | None \<Rightarrow> Inr (None, r\<lparr> last_sent_entry_id := length (cells r) \<rparr>))"

definition row_get_entry_recv ::
  "row_entry \<Rightarrow> offset_table \<Rightarrow> Addr \<Rightarrow> (OffsetTableEntry list \<times> row_entry \<times> offset_table) res" where
  "row_get_entry_recv r t addr =
     (case row_hit r addr of
        None \<Rightarrow> Inr ([], r, t)
      | Some i \<Rightarrow>
          rbind (ot_get_entry_recv t (ce_first_itr (cells r ! i))) (\<lambda>(es, t').
            Inr (es, r\<lparr> cells_valid := (cells_valid r)[i := False] \<rparr>, t')))"

definition row_get_entry_recv_head :: "row_entry \<Rightarrow> Addr \<Rightarrow> int \<times> row_entry" where
  "row_get_entry_recv_head r addr =
     (case row_hit r addr of
        None \<Rightarrow> (- 1, r)
      | Some i \<Rightarrow> (ce_first_itr (cells r ! i), r\<lparr> cells_valid := (cells_valid r)[i := False] \<rparr>))"

definition row_all_entries_received :: "row_entry \<Rightarrow> bool \<times> row_entry" where
  "row_all_entries_received r =
     (if list_all Not (cells_valid r) then (True, r\<lparr> last_sent_entry_id := 0 \<rparr>) else (False, r))"

section \<open>Slices\<close>

record row_slice =
  rows :: "row_entry list"
  rows_valid :: "bool list"
  rows_sent :: "bool list"
  last_sent_grow_addr :: Addr
  last_sent_rowid :: nat
  last_sent_grow_rowid :: nat
  slice_rows_inserted :: nat

definition slice_allocate :: "nat \<Rightarrow> nat \<Rightarrow> row_slice" where
  "slice_allocate nrows ncells =
     \<lparr> rows = replicate nrows (row_allocate ncells), rows_valid = replicate nrows False,
       rows_sent = replicate nrows False, last_sent_grow_addr = 0, last_sent_rowid = 0,
       last_sent_grow_rowid = 0, slice_rows_inserted = 0 \<rparr>"

definition open_row :: "row_slice \<Rightarrow> nat \<Rightarrow> bool" where
  "open_row s i \<longleftrightarrow> rows_valid s ! i \<and> \<not> rows_sent s ! i"

text \<open>
  Step 2 of \<open>insert\<close>: try the open rows of the group row in order, remembering the first free
  row.  \<open>Inl\<close> of the inner sum: inserted.  \<open>Inr\<close>: not inserted, with the free row if any.
\<close>

fun slice_scan ::
  "row_slice \<Rightarrow> offset_table \<Rightarrow> Addr \<Rightarrow> Addr \<Rightarrow> int \<Rightarrow> int \<Rightarrow> nat list \<Rightarrow> nat option \<Rightarrow>
   ((row_slice \<times> offset_table) + nat option) res" where
  "slice_scan s t g addr itr wid [] free = Inr (Inr free)"
| "slice_scan s t g addr itr wid (i # is) free =
     (if open_row s i \<and> grow_addr (rows s ! i) = g then
        rbind (row_insert (rows s ! i) t addr itr wid) (\<lambda>(b, r', t').
          if b then Inr (Inl (s\<lparr> rows := (rows s)[i := r'] \<rparr>, t'))
          else slice_scan s t g addr itr wid is free)
      else if \<not> rows_valid s ! i then
        if rows_sent s ! i then Inl Panic
        else slice_scan s t g addr itr wid is (if free = None then Some i else free)
      else slice_scan s t g addr itr wid is free)"

definition slice_insert ::
  "row_slice \<Rightarrow> offset_table \<Rightarrow> Addr \<Rightarrow> Addr \<Rightarrow> int \<Rightarrow> int \<Rightarrow> (bool \<times> bool \<times> row_slice \<times> offset_table) res" where
  "slice_insert s t g addr itr wid =
     (case find (\<lambda>i. open_row s i \<and> grow_addr (rows s ! i) = g \<and> row_find_addr (rows s ! i) addr)
             [0..<length (rows s)] of
        Some i \<Rightarrow>
          rbind (row_insert (rows s ! i) t addr itr wid) (\<lambda>(b, r', t').
            if b then Inr (True, False, s\<lparr> rows := (rows s)[i := r'] \<rparr>, t') else Inl Assert_Fail)
      | None \<Rightarrow>
          rbind (slice_scan s t g addr itr wid [0..<length (rows s)] None) (\<lambda>x.
            case x of
              Inl (s', t') \<Rightarrow> Inr (True, True, s', t')
            | Inr None \<Rightarrow> Inr (False, True, s, t)
            | Inr (Some i) \<Rightarrow>
                rbind (row_insert ((rows s ! i)\<lparr> grow_addr := g \<rparr>) t addr itr wid) (\<lambda>(b, r', t').
                  if b then Inr (True, True,
                    s\<lparr> rows := (rows s)[i := r'], rows_valid := (rows_valid s)[i := True],
                       rows_sent := (rows_sent s)[i := False],
                       slice_rows_inserted := Suc (slice_rows_inserted s) \<rparr>, t')
                  else Inl Assert_Fail)))"

definition slice_check_reset :: "row_slice \<Rightarrow> unit res" where
  "slice_check_reset s =
     (if \<not> list_all (\<lambda>r. is_ok (row_check_reset r)) (rows s) then Inl Panic
      else if \<not> list_all Not (rows_valid s) then Inl Panic
      else if last_sent_rowid s \<noteq> 0 then Inl Panic else Inr ())"

definition slice_reset :: "row_slice \<Rightarrow> row_slice" where
  "slice_reset s =
     s\<lparr> rows := map row_reset (rows s), rows_valid := map (\<lambda>_. False) (rows_valid s),
        rows_sent := map (\<lambda>_. False) (rows_sent s), last_sent_rowid := 0,
        last_sent_grow_rowid := 0, last_sent_grow_addr := 0 \<rparr>"

definition find_next_grow_addr :: "row_slice \<Rightarrow> bool \<times> row_slice" where
  "find_next_grow_addr s =
     (case find (open_row s) [last_sent_rowid s..<length (rows s)] of
        Some i \<Rightarrow> (True, s\<lparr> last_sent_rowid := i, last_sent_grow_rowid := i,
                             last_sent_grow_addr := grow_addr (rows s ! i) \<rparr>)
      | None \<Rightarrow> (False, s\<lparr> last_sent_rowid := 0 \<rparr>))"

definition get_send_grow_rowid :: "row_slice \<Rightarrow> row_slice" where
  "get_send_grow_rowid s =
     (case find (\<lambda>i. open_row s i \<and> grow_addr (rows s ! i) = last_sent_grow_addr s)
             [last_sent_grow_rowid s..<length (rows s)] of
        Some i \<Rightarrow> s\<lparr> last_sent_grow_rowid := i \<rparr>
      | None \<Rightarrow> s\<lparr> last_sent_grow_rowid := 0, last_sent_grow_addr := 0 \<rparr>)"

lemma filter_Not_update_less:
  "i < length vs \<Longrightarrow> \<not> vs ! i \<Longrightarrow> length (filter Not (vs[i := True])) < length (filter Not vs)"
proof (induction vs arbitrary: i)
  case (Cons v vs)
  then show ?case by (cases i) auto
qed simp

lemma find_next_keeps:
  "rows (snd (find_next_grow_addr s)) = rows s" "rows_valid (snd (find_next_grow_addr s)) = rows_valid s"
  "rows_sent (snd (find_next_grow_addr s)) = rows_sent s"
  by (simp_all add: find_next_grow_addr_def split: option.splits)

lemma get_send_keeps:
  "rows (get_send_grow_rowid s) = rows s" "rows_valid (get_send_grow_rowid s) = rows_valid s"
  "rows_sent (get_send_grow_rowid s) = rows_sent s" "last_sent_rowid (get_send_grow_rowid s) = last_sent_rowid s"
  by (simp_all add: get_send_grow_rowid_def split: option.splits)

text \<open>The sending loop: every turn that does not return marks one more row as sent.\<close>

definition send_start :: "row_slice \<Rightarrow> bool \<times> row_slice" where
  "send_start s = (if last_sent_grow_addr s = 0 then find_next_grow_addr s else (True, s))"

lemma send_start_keeps:
  "rows (snd (send_start s)) = rows s" "rows_valid (snd (send_start s)) = rows_valid s"
  "rows_sent (snd (send_start s)) = rows_sent s"
  by (simp_all add: send_start_def find_next_keeps)

function slice_get_entry_send :: "row_slice \<Rightarrow> (Addr option \<times> row_slice) res" where
  "slice_get_entry_send s =
     (case send_start s of
        (False, s1) \<Rightarrow> Inr (None, s1)
      | (True, s1) \<Rightarrow>
          (let k = last_sent_grow_rowid s1 in
           if k \<ge> length (rows s1) \<or> k \<ge> length (rows_valid s1) \<or> k \<ge> length (rows_sent s1)
           then Inl Out_Of_Bounds
           else if \<not> rows_valid s1 ! k then Inl Panic
           else if rows_sent s1 ! k then Inl Panic
           else case row_get_entry_send (rows s1 ! k) of
                  Inl e \<Rightarrow> Inl e
                | Inr (Some addr, r') \<Rightarrow> Inr (Some addr, s1\<lparr> rows := (rows s1)[k := r'] \<rparr>)
                | Inr (None, r') \<Rightarrow>
                    slice_get_entry_send (get_send_grow_rowid
                      (s1\<lparr> rows := (rows s1)[k := r'], rows_sent := (rows_sent s1)[k := True] \<rparr>))))"
  by pat_completeness auto
termination
proof (relation "measure (\<lambda>s. length (filter Not (rows_sent s)))", goal_cases)
  case (2 s x s1 k z y r')
  then have "rows_sent s1 = rows_sent s" by (metis send_start_keeps(3) snd_conv)
  with 2 show ?case using filter_Not_update_less[of k "rows_sent s1"] by (auto simp: get_send_keeps)
qed simp

declare slice_get_entry_send.simps [simp del]

fun slice_recv_loop ::
  "Addr \<Rightarrow> Addr \<Rightarrow> bool \<Rightarrow> nat list \<Rightarrow> row_slice \<Rightarrow> offset_table \<Rightarrow> OffsetTableEntry list \<Rightarrow>
   (OffsetTableEntry list \<times> row_slice \<times> offset_table) res" where
  "slice_recv_loop g addr check_sent [] s t results = Inr (results, s, t)"
| "slice_recv_loop g addr check_sent (i # is) s t results =
     (if rows_valid s ! i \<and> (\<not> check_sent \<or> rows_sent s ! i) \<and> grow_addr (rows s ! i) = g then
        rbind (row_get_entry_recv (rows s ! i) t addr) (\<lambda>(es, r1, t1).
          if es = [] then slice_recv_loop g addr check_sent is (s\<lparr> rows := (rows s)[i := r1] \<rparr>) t1 results
          else if results \<noteq> [] then Inl Panic
          else case row_all_entries_received r1 of
                 (True, r2) \<Rightarrow>
                   rbind (row_check_reset r2) (\<lambda>_.
                     slice_recv_loop g addr check_sent is
                       (s\<lparr> rows := (rows s)[i := r2], rows_valid := (rows_valid s)[i := False],
                          rows_sent := (rows_sent s)[i := False] \<rparr>) t1 es)
               | (False, r2) \<Rightarrow>
                   slice_recv_loop g addr check_sent is (s\<lparr> rows := (rows s)[i := r2] \<rparr>) t1 es)
      else slice_recv_loop g addr check_sent is s t results)"

definition slice_get_entry_recv ::
  "row_slice \<Rightarrow> offset_table \<Rightarrow> Addr \<Rightarrow> Addr \<Rightarrow> bool \<Rightarrow> (OffsetTableEntry list \<times> row_slice \<times> offset_table) res" where
  "slice_get_entry_recv s t g addr check_sent =
     rbind (slice_recv_loop g addr check_sent [0..<length (rows s)] s t []) (\<lambda>(es, s', t').
       Inr (sort_key oe_itr es, s', t'))"

fun slice_head_loop ::
  "Addr \<Rightarrow> Addr \<Rightarrow> bool \<Rightarrow> nat list \<Rightarrow> row_slice \<Rightarrow> int \<Rightarrow> (int \<times> row_slice) res" where
  "slice_head_loop g addr check_sent [] s result = Inr (result, s)"
| "slice_head_loop g addr check_sent (i # is) s result =
     (if rows_valid s ! i \<and> (\<not> check_sent \<or> rows_sent s ! i) \<and> grow_addr (rows s ! i) = g then
        (case row_get_entry_recv_head (rows s ! i) addr of (head, r1) \<Rightarrow>
          if head = - 1 then slice_head_loop g addr check_sent is (s\<lparr> rows := (rows s)[i := r1] \<rparr>) result
          else if result \<noteq> - 1 then Inl Panic
          else case row_all_entries_received r1 of
                 (True, r2) \<Rightarrow>
                   rbind (row_check_reset r2) (\<lambda>_.
                     let s1 = s\<lparr> rows := (rows s)[i := r2], rows_valid := (rows_valid s)[i := False],
                                 rows_sent := (rows_sent s)[i := False] \<rparr>;
                         s2 = (if i = last_sent_grow_rowid s1
                               then s1\<lparr> last_sent_grow_rowid := 0, last_sent_grow_addr := 0 \<rparr> else s1)
                     in slice_head_loop g addr check_sent is s2 head)
               | (False, r2) \<Rightarrow>
                   slice_head_loop g addr check_sent is (s\<lparr> rows := (rows s)[i := r2] \<rparr>) head)
      else slice_head_loop g addr check_sent is s result)"

definition slice_get_entry_recv_head :: "row_slice \<Rightarrow> Addr \<Rightarrow> Addr \<Rightarrow> bool \<Rightarrow> (int \<times> row_slice) res" where
  "slice_get_entry_recv_head s g addr check_sent =
     slice_head_loop g addr check_sent [0..<length (rows s)] s (- 1)"

definition slice_is_full :: "row_slice \<Rightarrow> bool" where
  "slice_is_full s \<longleftrightarrow> list_all id (rows_valid s)"

section \<open>Draining a slice sends every line exactly once\<close>

definition slice_wf :: "row_slice \<Rightarrow> bool" where
  "slice_wf s \<longleftrightarrow>
     length (rows_valid s) = length (rows s) \<and> length (rows_sent s) = length (rows s) \<and>
     list_all (\<lambda>r. length (cells_valid r) = length (cells r) \<and> last_sent_entry_id r \<le> length (cells r)) (rows s)"

text \<open>The addresses a row still has to send, and all of them.\<close>

definition row_pending :: "row_entry \<Rightarrow> Addr list" where
  "row_pending r = map (\<lambda>i. ce_addr (cells r ! i))
     (filter (\<lambda>i. cells_valid r ! i) [last_sent_entry_id r..<length (cells r)])"

definition slice_pending :: "row_slice \<Rightarrow> Addr multiset" where
  "slice_pending s = (\<Sum>i<length (rows s). if open_row s i then mset (row_pending (rows s ! i)) else {#})"

text \<open>
  The cursor of the sender: a remembered group row has an open row at the cursor, and no open row
  lies before the scan position.
\<close>

definition send_inv :: "row_slice \<Rightarrow> bool" where
  "send_inv s \<longleftrightarrow> slice_wf s \<and>
     (\<forall>i < last_sent_rowid s. i < length (rows s) \<longrightarrow> \<not> open_row s i) \<and>
     (last_sent_grow_addr s \<noteq> 0 \<longrightarrow>
        last_sent_grow_rowid s < length (rows s) \<and> open_row s (last_sent_grow_rowid s))"

lemma filter_upt_hd:
  assumes "a \<le> i" "i < b" "P i" "\<And>j. a \<le> j \<Longrightarrow> j < i \<Longrightarrow> \<not> P j"
  shows "filter P [a..<b] = i # filter P [Suc i..<b]"
proof -
  have s: "[a..<b] = [a..<i] @ i # [Suc i..<b]"
    using assms(1,2) upt_add_eq_append[of a i "b - i"] by (simp add: upt_conv_Cons)
  have "filter P [a..<i] = []" using assms(4) by (auto simp: filter_empty_conv)
  with assms(3) show ?thesis by (simp add: s)
qed

lemma row_send_cases:
  assumes "last_sent_entry_id r \<le> length (cells r)"
  obtains (line) a k where "row_get_entry_send r = Inr (Some a, r\<lparr> last_sent_entry_id := k \<rparr>)"
      "k \<le> length (cells r)" "row_pending r = a # row_pending (r\<lparr> last_sent_entry_id := k \<rparr>)"
  | (none) "row_get_entry_send r = Inr (None, r\<lparr> last_sent_entry_id := length (cells r) \<rparr>)"
      "row_pending r = []"
proof (cases "find (\<lambda>i. cells_valid r ! i) [last_sent_entry_id r..<length (cells r)]")
  case None
  then have "filter (\<lambda>i. cells_valid r ! i) [last_sent_entry_id r..<length (cells r)] = []"
    by (auto simp: find_upt_None filter_empty_conv)
  with None assms none show ?thesis by (simp add: row_get_entry_send_def row_pending_def)
next
  case (Some i)
  note f = find_upt_Some[OF Some]
  have "filter (\<lambda>i. cells_valid r ! i) [last_sent_entry_id r..<length (cells r)]
        = i # filter (\<lambda>i. cells_valid r ! i) [Suc i..<length (cells r)]"
    using f by (rule filter_upt_hd)
  with Some assms f(2) line[of "ce_addr (cells r ! i)" "Suc i"] show ?thesis
    by (simp add: row_get_entry_send_def row_pending_def)
qed

lemma slice_pending_split:
  assumes "k < length (rows s)"
  shows "slice_pending s = (if open_row s k then mset (row_pending (rows s ! k)) else {#}) +
    (\<Sum>i \<in> {..<length (rows s)} - {k}. if open_row s i then mset (row_pending (rows s ! i)) else {#})"
  using assms unfolding slice_pending_def by (subst sum.remove[of _ k]) auto

lemma slice_pending_cong:
  "rows s' = rows s \<Longrightarrow> rows_valid s' = rows_valid s \<Longrightarrow> rows_sent s' = rows_sent s \<Longrightarrow>
   slice_pending s' = slice_pending s"
  by (simp only: slice_pending_def open_row_def)

lemma slice_pending_update:
  assumes "k < length (rows s)" "rows s' = (rows s)[k := r]" "rows_valid s' = rows_valid s"
    and "\<And>i. i \<noteq> k \<Longrightarrow> rows_sent s' ! i = rows_sent s ! i"
  shows "slice_pending s' = (if open_row s' k then mset (row_pending r) else {#}) +
    (\<Sum>i \<in> {..<length (rows s)} - {k}. if open_row s i then mset (row_pending (rows s ! i)) else {#})"
proof -
  have "(\<Sum>i \<in> {..<length (rows s')} - {k}. if open_row s' i then mset (row_pending (rows s' ! i)) else {#})
      = (\<Sum>i \<in> {..<length (rows s)} - {k}. if open_row s i then mset (row_pending (rows s ! i)) else {#})"
    using assms by (intro sum.cong) (auto simp: open_row_def)
  then show ?thesis using assms slice_pending_split[of k s'] by simp
qed

lemma slice_wf_row:
  "slice_wf s \<Longrightarrow> k < length (rows s) \<Longrightarrow>
   length (cells_valid (rows s ! k)) = length (cells (rows s ! k)) \<and>
   last_sent_entry_id (rows s ! k) \<le> length (cells (rows s ! k))"
  by (simp add: slice_wf_def list_all_length)

lemma slice_wf_cursor:
  "slice_wf s \<Longrightarrow> k < length (rows s) \<Longrightarrow> m \<le> length (cells (rows s ! k)) \<Longrightarrow>
   slice_wf (s\<lparr> rows := (rows s)[k := (rows s ! k)\<lparr> last_sent_entry_id := m \<rparr>] \<rparr>)"
  by (auto simp: slice_wf_def list_all_length nth_list_update_if)

lemma send_start_inv:
  assumes "send_inv s" "send_start s = (b, s1)"
  shows "b \<Longrightarrow> send_inv s1 \<and> last_sent_grow_rowid s1 < length (rows s1) \<and> open_row s1 (last_sent_grow_rowid s1)"
    and "\<not> b \<Longrightarrow> send_inv s1 \<and> (\<forall>i < length (rows s). \<not> open_row s i)"
proof -
  have wf: "slice_wf s" and pre: "\<And>i. i < last_sent_rowid s \<Longrightarrow> i < length (rows s) \<Longrightarrow> \<not> open_row s i"
    using assms(1) by (auto simp: send_inv_def)
  show "send_inv s1 \<and> last_sent_grow_rowid s1 < length (rows s1) \<and> open_row s1 (last_sent_grow_rowid s1)" if bt: b
  proof (cases "last_sent_grow_addr s = 0")
    case False
    with assms show ?thesis by (auto simp: send_start_def send_inv_def)
  next
    case True
    obtain i where i: "find (open_row s) [last_sent_rowid s..<length (rows s)] = Some i"
      and s1: "s1 = s\<lparr> last_sent_rowid := i, last_sent_grow_rowid := i, last_sent_grow_addr := grow_addr (rows s ! i) \<rparr>"
      using assms(2) bt True by (auto simp: send_start_def find_next_grow_addr_def split: option.splits)
    note f = find_upt_Some[OF i]
    have "\<And>j. j < i \<Longrightarrow> \<not> open_row s j" using f(2,4) pre by (metis le_less_linear less_trans)
    then show ?thesis using f wf by (auto simp: s1 send_inv_def slice_wf_def open_row_def)
  qed
  show "send_inv s1 \<and> (\<forall>i < length (rows s). \<not> open_row s i)" if "\<not> b"
  proof -
    have a0: "last_sent_grow_addr s = 0" and n: "find (open_row s) [last_sent_rowid s..<length (rows s)] = None"
      and s1: "s1 = s\<lparr> last_sent_rowid := 0 \<rparr>"
      using assms(2) that by (auto simp: send_start_def find_next_grow_addr_def split: option.splits if_splits)
    have "\<not> open_row s i" if "i < length (rows s)" for i
      using n pre that by (cases "i < last_sent_rowid s") (auto simp: find_upt_None)
    then show ?thesis using wf a0 by (simp add: s1 send_inv_def slice_wf_def)
  qed
qed

lemma get_send_grow_rowid_inv:
  assumes "slice_wf s" "\<And>i. i < last_sent_rowid s \<Longrightarrow> i < length (rows s) \<Longrightarrow> \<not> open_row s i"
  shows "send_inv (get_send_grow_rowid s)"
proof (cases "find (\<lambda>i. open_row s i \<and> grow_addr (rows s ! i) = last_sent_grow_addr s)
             [last_sent_grow_rowid s..<length (rows s)]")
  case None
  with assms show ?thesis by (simp add: get_send_grow_rowid_def send_inv_def slice_wf_def open_row_def)
next
  case (Some i)
  with assms find_upt_Some[OF Some] show ?thesis
    by (simp add: get_send_grow_rowid_def send_inv_def slice_wf_def open_row_def)
qed

text \<open>One call of the sender.\<close>

definition send_ok :: "row_slice \<Rightarrow> bool" where
  "send_ok s \<longleftrightarrow> (\<exists>x s'. slice_get_entry_send s = Inr (x, s') \<and> send_inv s' \<and>
     length (rows s') = length (rows s) \<and>
     (case x of Some a \<Rightarrow> slice_pending s = add_mset a (slice_pending s')
              | None \<Rightarrow> slice_pending s = {#} \<and> (\<forall>i < length (rows s'). \<not> open_row s' i)))"

lemma slice_pending_none: "(\<And>i. i < length (rows s) \<Longrightarrow> \<not> open_row s i) \<Longrightarrow> slice_pending s = {#}"
  by (simp add: slice_pending_def)

lemma slice_send_ok: "send_inv s \<Longrightarrow> send_ok s"
proof (induction s rule: slice_get_entry_send.induct)
  case (1 s)
  obtain b s1 where st: "send_start s = (b, s1)" by (cases "send_start s")
  have k1: "rows s1 = rows s" "rows_valid s1 = rows_valid s" "rows_sent s1 = rows_sent s"
    using send_start_keeps[of s] st by simp_all
  have p1: "slice_pending s1 = slice_pending s" using k1 by (rule slice_pending_cong)
  show ?case
  proof (cases b)
    case False
    then have st': "slice_get_entry_send s = Inr (None, s1)"
      using st by (subst slice_get_entry_send.simps) simp
    note f = send_start_inv(2)[OF 1(2) st False]
    have "slice_pending s = {#}" using f by (intro slice_pending_none) blast
    then show ?thesis using st' f k1 unfolding send_ok_def by (auto simp: open_row_def)
  next
    case True
    define k where "k = last_sent_grow_rowid s1"
    have i1: "send_inv s1" and k: "k < length (rows s1)" "open_row s1 k"
      using send_start_inv(1)[OF 1(2) st True] by (auto simp: k_def)
    have wf: "slice_wf s1" and pre: "\<And>i. i < last_sent_rowid s1 \<Longrightarrow> i < length (rows s1) \<Longrightarrow> \<not> open_row s1 i"
      using i1 by (auto simp: send_inv_def)
    have le: "last_sent_entry_id (rows s1 ! k) \<le> length (cells (rows s1 ! k))"
      using slice_wf_row[OF wf k(1)] by blast
    have guards: "k < length (rows_valid s1)" "k < length (rows_sent s1)" "rows_valid s1 ! k" "\<not> rows_sent s1 ! k"
      using k wf by (auto simp: slice_wf_def open_row_def)
    from le show ?thesis
    proof (cases rule: row_send_cases)
      case (line a m)
      let ?s' = "s1\<lparr> rows := (rows s1)[k := (rows s1 ! k)\<lparr> last_sent_entry_id := m \<rparr>] \<rparr>"
      have "slice_get_entry_send s = Inr (Some a, ?s')"
        using st True line(1) k guards unfolding k_def by (subst slice_get_entry_send.simps) (simp add: Let_def)
      moreover have "send_inv ?s'"
        using slice_wf_cursor[OF wf k(1) line(2)] i1 by (auto simp: send_inv_def open_row_def)
      moreover have "slice_pending s1 = add_mset a (slice_pending ?s')"
        using slice_pending_split[OF k(1)] slice_pending_update[OF k(1), of ?s'] k(2) line(3)
        by (simp add: open_row_def)
      ultimately show ?thesis using p1 k1 unfolding send_ok_def by auto
    next
      case none
      let ?s2 = "s1\<lparr> rows := (rows s1)[k := (rows s1 ! k)\<lparr> last_sent_entry_id := length (cells (rows s1 ! k)) \<rparr>],
                      rows_sent := (rows_sent s1)[k := True] \<rparr>"
      have rec: "slice_get_entry_send s = slice_get_entry_send (get_send_grow_rowid ?s2)"
        using st True none(1) k guards unfolding k_def by (subst slice_get_entry_send.simps) (simp add: Let_def)
      have wf2: "slice_wf ?s2"
        using slice_wf_cursor[OF wf k(1) order_refl] by (simp add: slice_wf_def)
      have "\<not> open_row ?s2 i" if "i < last_sent_rowid ?s2" "i < length (rows ?s2)" for i
        using pre[of i] that guards by (auto simp: open_row_def nth_list_update_if)
      then have inv2: "send_inv (get_send_grow_rowid ?s2)" using wf2 by (intro get_send_grow_rowid_inv)
      have "\<not> open_row ?s2 k" using guards by (simp add: open_row_def)
      then have "slice_pending ?s2 = slice_pending s1"
        using slice_pending_split[OF k(1)] slice_pending_update[OF k(1), of ?s2] k(2) none(2) by simp
      then have p2: "slice_pending (get_send_grow_rowid ?s2) = slice_pending s"
        using p1 slice_pending_cong[OF get_send_keeps(1-3), of ?s2] by simp
      have "send_ok (get_send_grow_rowid ?s2)"
        using 1(1)[OF st[symmetric] _ refl _ _ _ none(1)[unfolded k_def] refl refl] True k guards inv2
        by (simp add: k_def)
      moreover have len: "length (rows (get_send_grow_rowid ?s2)) = length (rows s)"
        by (simp add: get_send_keeps k1(1))
      ultimately show ?thesis unfolding send_ok_def rec p2 len by blast
    qed
  qed
qed

text \<open>
  The build loop of the indirect unit asks for lines until there are none.  \<open>None\<close>: the given
  number of calls was not enough.
\<close>

primrec slice_drain :: "nat \<Rightarrow> row_slice \<Rightarrow> (Addr list \<times> row_slice) res option" where
  "slice_drain 0 s = None"
| "slice_drain (Suc n) s =
     (case slice_get_entry_send s of
        Inl e \<Rightarrow> Some (Inl e)
      | Inr (None, s') \<Rightarrow> Some (Inr ([], s'))
      | Inr (Some a, s') \<Rightarrow>
          (case slice_drain n s' of
             None \<Rightarrow> None
           | Some r \<Rightarrow> Some (rbind r (\<lambda>(as, s''). Inr (a # as, s'')))))"

lemma slice_drain_all:
  "send_inv s \<Longrightarrow> size (slice_pending s) < n \<Longrightarrow>
   \<exists>as s'. slice_drain n s = Some (Inr (as, s')) \<and> mset as = slice_pending s \<and>
           send_inv s' \<and> (\<forall>i < length (rows s'). \<not> open_row s' i)"
proof (induction n arbitrary: s)
  case (Suc n)
  from slice_send_ok[OF Suc.prems(1)] obtain x s1 where
    x: "slice_get_entry_send s = Inr (x, s1)" "send_inv s1"
      "case x of Some a \<Rightarrow> slice_pending s = add_mset a (slice_pending s1)
               | None \<Rightarrow> slice_pending s = {#} \<and> (\<forall>i < length (rows s1). \<not> open_row s1 i)"
    by (auto simp: send_ok_def)
  show ?case
  proof (cases x)
    case None
    with x show ?thesis by simp
  next
    case (Some a)
    with x Suc.prems have "size (slice_pending s1) < n" by simp
    from Suc.IH[OF x(2) this] x Some show ?thesis by auto
  qed
qed simp

section \<open>Inserting keeps the open lines unique\<close>

text \<open>An open line: a valid cell of an open row.\<close>

definition open_line :: "row_slice \<Rightarrow> nat \<Rightarrow> nat \<Rightarrow> bool" where
  "open_line s i c \<longleftrightarrow> i < length (rows s) \<and> open_row s i \<and> c < length (cells (rows s ! i)) \<and>
                      cells_valid (rows s ! i) ! c"

definition line_at :: "row_slice \<Rightarrow> nat \<Rightarrow> nat \<Rightarrow> Addr \<times> Addr" where
  "line_at s i c = (grow_addr (rows s ! i), ce_addr (cells (rows s ! i) ! c))"

definition unique_lines :: "row_slice \<Rightarrow> bool" where
  "unique_lines s \<longleftrightarrow>
     (\<forall>i c j d. open_line s i c \<longrightarrow> open_line s j d \<longrightarrow> line_at s i c = line_at s j d \<longrightarrow> i = j \<and> c = d)"

text \<open>A row that is not valid is clean.\<close>

definition free_rows_clean :: "row_slice \<Rightarrow> bool" where
  "free_rows_clean s \<longleftrightarrow>
     (\<forall>i < length (rows s). \<not> rows_valid s ! i \<longrightarrow>
        \<not> rows_sent s ! i \<and> list_all Not (cells_valid (rows s ! i)) \<and> last_sent_entry_id (rows s ! i) = 0)"

definition slice_inv :: "row_slice \<Rightarrow> bool" where
  "slice_inv s \<longleftrightarrow> slice_wf s \<and> unique_lines s \<and> free_rows_clean s"

lemma slice_allocate_inv: "slice_inv (slice_allocate n k)" "send_inv (slice_allocate n k)"
  by (auto simp: slice_inv_def slice_wf_def unique_lines_def free_rows_clean_def slice_allocate_def
      open_line_def open_row_def row_allocate_def list_all_length send_inv_def)

text \<open>What a successful \<open>row_insert\<close> does to the cells of its row.\<close>

lemma row_hit_Some:
  assumes "row_hit r a = Some c"
  shows "c < length (cells r)" "cells_valid r ! c" "ce_addr (cells r ! c) = a"
  using find_upt_Some[OF assms[unfolded row_hit_def]] by auto

lemma row_hit_None:
  "row_hit r a = None \<longleftrightarrow> (\<forall>c < length (cells r). cells_valid r ! c \<longrightarrow> ce_addr (cells r ! c) \<noteq> a)"
  by (auto simp: row_hit_def find_upt_None)

lemma row_insert_cases:
  assumes "row_insert r t a itr wid = Inr (b, r', t')"
  obtains (hit) c where "row_hit r a = Some c" "b" "ot_insert t itr wid (ce_last_itr (cells r ! c)) = Inr t'"
      "r' = r\<lparr> cells := (cells r)[c := (cells r ! c)\<lparr> ce_last_itr := itr \<rparr>] \<rparr>"
  | (new) c where "row_hit r a = None" "b" "c < length (cells r)" "\<not> cells_valid r ! c"
      "ot_insert t itr wid (- 1) = Inr t'"
      "r' = r\<lparr> cells := (cells r)[c := \<lparr> ce_addr = a, ce_first_itr = itr, ce_last_itr = itr \<rparr>],
               cells_valid := (cells_valid r)[c := True], row_lines_inserted := Suc (row_lines_inserted r) \<rparr>"
  | (full) "row_hit r a = None" "\<not> b" "r' = r" "t' = t" "\<forall>c < length (cells r). cells_valid r ! c"
proof (cases "row_hit r a")
  case (Some c)
  then have "b" "ot_insert t itr wid (ce_last_itr (cells r ! c)) = Inr t'"
    "r' = r\<lparr> cells := (cells r)[c := (cells r ! c)\<lparr> ce_last_itr := itr \<rparr>] \<rparr>"
    using assms by (simp_all add: row_insert_def rbind_eq_Inr)
  with Some show ?thesis by (rule hit)
next
  case hn: None
  show ?thesis
  proof (cases "find (\<lambda>i. \<not> cells_valid r ! i) [0..<length (cells r)]")
    case None
    then have "\<forall>c < length (cells r). cells_valid r ! c" by (simp add: find_upt_None)
    moreover have "\<not> b" "r' = r" "t' = t" using assms hn None by (simp_all add: row_insert_def)
    ultimately show ?thesis using hn by (intro full)
  next
    case (Some c)
    then have "b" "ot_insert t itr wid (- 1) = Inr t'"
      "r' = r\<lparr> cells := (cells r)[c := \<lparr> ce_addr = a, ce_first_itr = itr, ce_last_itr = itr \<rparr>],
               cells_valid := (cells_valid r)[c := True], row_lines_inserted := Suc (row_lines_inserted r) \<rparr>"
      using assms hn by (simp_all add: row_insert_def rbind_eq_Inr)
    with hn find_upt_Some(2,3)[OF Some] show ?thesis by (intro new)
  qed
qed

lemma row_insert_shape:
  assumes "row_insert r t a itr wid = Inr (b, r', t')"
  shows "grow_addr r' = grow_addr r" "last_sent_entry_id r' = last_sent_entry_id r"
    "length (cells r') = length (cells r)" "length (cells_valid r') = length (cells_valid r)"
  using assms by (cases rule: row_insert_cases; simp)+

lemma slice_scan_Inl:
  assumes "slice_scan s t g a itr wid is free = Inr (Inl (s', t'))"
  shows "\<exists>i r'. i \<in> set is \<and> open_row s i \<and> grow_addr (rows s ! i) = g \<and>
    row_insert (rows s ! i) t a itr wid = Inr (True, r', t') \<and> s' = s\<lparr> rows := (rows s)[i := r'] \<rparr>"
    (is "\<exists>i r'. i \<in> set is \<and> ?P i r'")
  using assms
proof (induction "is" arbitrary: free)
  case (Cons k ks)
  have rec: ?case if eq: "slice_scan s t g a itr wid ks free' = Inr (Inl (s', t'))" for free'
  proof -
    obtain i r' where "i \<in> set ks" "?P i r'" using Cons.IH[OF eq] by blast
    then show ?thesis by (intro exI[of _ i] exI[of _ r']) simp
  qed
  show ?case
  proof (cases "open_row s k \<and> grow_addr (rows s ! k) = g")
    case True
    then obtain b r' t1 where r: "row_insert (rows s ! k) t a itr wid = Inr (b, r', t1)"
      using Cons.prems by (auto simp: res_simps)
    show ?thesis
    proof (cases b)
      case bt: True
      then have "s' = s\<lparr> rows := (rows s)[k := r'] \<rparr>" "t' = t1" using r Cons.prems True by simp_all
      then show ?thesis using r bt True by (intro exI[of _ k] exI[of _ r']) simp
    next
      case False
      then show ?thesis using r Cons.prems True by (intro rec[of free]) simp
    qed
  next
    case False
    show ?thesis
      using Cons.prems rec by (simp only: slice_scan.simps False if_False split: if_splits) blast+
  qed
qed simp

lemma slice_scan_Inr:
  assumes "slice_scan s t g a itr wid is free = Inr (Inr x)"
    and "case free of Some i \<Rightarrow> i < n \<and> \<not> rows_valid s ! i | None \<Rightarrow> True" "set is \<subseteq> {..<n}"
  shows "case x of Some i \<Rightarrow> i < n \<and> \<not> rows_valid s ! i
                 | None \<Rightarrow> free = None \<and> (\<forall>i \<in> set is. rows_valid s ! i \<and>
                     (open_row s i \<and> grow_addr (rows s ! i) = g \<longrightarrow>
                        (\<forall>c < length (cells (rows s ! i)). cells_valid (rows s ! i) ! c)))"
  using assms
proof (induction "is" arbitrary: free)
  case (Cons k ks)
  show ?case
  proof (cases "open_row s k \<and> grow_addr (rows s ! k) = g")
    case True
    then obtain b r' t1 where r: "row_insert (rows s ! k) t a itr wid = Inr (b, r', t1)"
      using Cons.prems(1) by (auto simp: res_simps)
    then have nb: "\<not> b" using Cons.prems(1) True by auto
    with r True Cons.prems(1) have rec: "slice_scan s t g a itr wid ks free = Inr (Inr x)" by simp
    from r nb have "\<forall>c < length (cells (rows s ! k)). cells_valid (rows s ! k) ! c"
      by (cases rule: row_insert_cases) auto
    with Cons.IH[OF rec] Cons.prems(2,3) True show ?thesis by (auto simp: open_row_def split: option.splits)
  next
    case False
    show ?thesis
    proof (cases "rows_valid s ! k")
      case True
      have "slice_scan s t g a itr wid ks free = Inr (Inr x)"
        using Cons.prems(1) by (simp only: slice_scan.simps False True if_False not_True_eq_False)
      from Cons.IH[OF this] Cons.prems(2,3) True False show ?thesis by (auto split: option.splits)
    next
      case nv: False
      have "slice_scan s t g a itr wid ks (if free = None then Some k else free) = Inr (Inr x)"
        using Cons.prems(1)
        by (simp only: slice_scan.simps False nv if_False if_True not_False_eq_True split: if_splits) blast+
      from Cons.IH[OF this] Cons.prems(2,3) nv show ?thesis by (auto split: option.splits if_splits)
    qed
  qed
qed (auto split: option.splits)

text \<open>The open line of a group row and an address, if there is one.\<close>

definition has_line :: "row_slice \<Rightarrow> Addr \<Rightarrow> Addr \<Rightarrow> bool" where
  "has_line s g a \<longleftrightarrow> (\<exists>i c. open_line s i c \<and> line_at s i c = (g, a))"

lemma has_line_find:
  "has_line s g a \<longleftrightarrow>
   find (\<lambda>i. open_row s i \<and> grow_addr (rows s ! i) = g \<and> row_find_addr (rows s ! i) a) [0..<length (rows s)] \<noteq> None"
  by (auto simp: has_line_def open_line_def line_at_def row_find_addr_def find_None_iff row_hit_None)

lemma slice_insert_True:
  assumes "slice_insert s t g a itr wid = Inr (True, first, s', t')" "slice_wf s"
  obtains i r0 r' where "i < length (rows s)" "row_insert r0 t a itr wid = Inr (True, r', t')"
    "grow_addr r0 = g" "rows s' = (rows s)[i := r']" "rows_valid s' = (rows_valid s)[i := True]"
    "rows_sent s' = (rows_sent s)[i := False]" "first \<longleftrightarrow> \<not> has_line s g a"
    "open_row s i \<and> r0 = rows s ! i \<or> \<not> rows_valid s ! i \<and> r0 = (rows s ! i)\<lparr> grow_addr := g \<rparr>"
    "first \<or> row_hit r0 a \<noteq> None" "last_sent_rowid s' = last_sent_rowid s"
    "last_sent_grow_rowid s' = last_sent_grow_rowid s" "last_sent_grow_addr s' = last_sent_grow_addr s"
proof -
  let ?f = "find (\<lambda>i. open_row s i \<and> grow_addr (rows s ! i) = g \<and> row_find_addr (rows s ! i) a) [0..<length (rows s)]"
  have same: "(rows_valid s)[i := True] = rows_valid s" "(rows_sent s)[i := False] = rows_sent s"
    if "open_row s i" "i < length (rows s)" for i
    using that assms(2) by (simp_all add: open_row_def slice_wf_def list_update_same_conv)
  show thesis
  proof (cases ?f)
    case (Some i)
    note f = find_upt_Some[OF Some]
    obtain r' where "row_insert (rows s ! i) t a itr wid = Inr (True, r', t')" "\<not> first"
      "s' = s\<lparr> rows := (rows s)[i := r'] \<rparr>"
      using assms(1) Some by (auto simp: slice_insert_def res_simps split: if_splits)
    then show thesis
      using f same[of i] Some has_line_find[of s g a] that[of i "rows s ! i" r']
      by (simp add: row_find_addr_def)
  next
    case None
    then have nl: "\<not> has_line s g a" by (simp add: has_line_find)
    obtain x where x: "slice_scan s t g a itr wid [0..<length (rows s)] None = Inr x"
      and rest: "(case x of Inl (s', t') \<Rightarrow> Inr (True, True, s', t') | Inr None \<Rightarrow> Inr (False, True, s, t)
        | Inr (Some i) \<Rightarrow> rbind (row_insert ((rows s ! i)\<lparr> grow_addr := g \<rparr>) t a itr wid) (\<lambda>(b, r', t').
                  if b then Inr (True, True,
                    s\<lparr> rows := (rows s)[i := r'], rows_valid := (rows_valid s)[i := True],
                       rows_sent := (rows_sent s)[i := False],
                       slice_rows_inserted := Suc (slice_rows_inserted s) \<rparr>, t')
                  else Inl Assert_Fail)) = Inr (True, first, s', t')"
      using assms(1) None unfolding slice_insert_def by (simp only: option.case rbind_eq_Inr) blast
    show thesis
    proof (cases x)
      case (Inl y)
      with rest have y: "y = (s', t')" and fs: "first" by (auto split: prod.splits)
      from x[unfolded Inl y] obtain i r' where i: "i \<in> set [0..<length (rows s)]" "open_row s i"
        "grow_addr (rows s ! i) = g" "row_insert (rows s ! i) t a itr wid = Inr (True, r', t')"
        "s' = s\<lparr> rows := (rows s)[i := r'] \<rparr>"
        using slice_scan_Inl by blast
      then have l: "i < length (rows s)" by simp
      from that[OF l i(4,3)] i(2,5) same[OF i(2) l] nl fs show thesis by simp
    next
      case (Inr z)
      then obtain i where z: "z = Some i" using rest by (auto split: option.splits)
      have i: "i < length (rows s) \<and> \<not> rows_valid s ! i"
        using slice_scan_Inr[OF x[unfolded Inr z], of "length (rows s)"] by (simp add: subset_iff)
      obtain r' where r: "row_insert ((rows s ! i)\<lparr> grow_addr := g \<rparr>) t a itr wid = Inr (True, r', t')"
        and s': "s' = s\<lparr> rows := (rows s)[i := r'], rows_valid := (rows_valid s)[i := True],
             rows_sent := (rows_sent s)[i := False], slice_rows_inserted := Suc (slice_rows_inserted s) \<rparr>" and fs: "first"
        using rest unfolding Inr z by (auto simp: res_simps split: if_splits)
      from that[OF conjunct1[OF i] r] i nl fs s' show thesis by simp
    qed
  qed
qed

text \<open>A held line is a valid cell of a valid row, sent or not.\<close>

definition held :: "row_slice \<Rightarrow> nat \<Rightarrow> nat \<Rightarrow> bool" where
  "held s i c \<longleftrightarrow> i < length (rows s) \<and> rows_valid s ! i \<and> c < length (cells (rows s ! i)) \<and>
                 cells_valid (rows s ! i) ! c"

abbreviation cell_at :: "row_slice \<Rightarrow> nat \<Rightarrow> nat \<Rightarrow> row_cell" where
  "cell_at s i c \<equiv> cells (rows s ! i) ! c"

lemma open_line_held: "open_line s i c \<longleftrightarrow> held s i c \<and> \<not> rows_sent s ! i"
  by (auto simp: open_line_def held_def open_row_def)

text \<open>
  The effect of an accepted insertion: one line \<open>(i, c)\<close> either grows by the iteration or
  appears with it, and every other held line keeps its cell.
\<close>

definition insert_effect ::
  "row_slice \<Rightarrow> offset_table \<Rightarrow> Addr \<Rightarrow> Addr \<Rightarrow> int \<Rightarrow> int \<Rightarrow> bool \<Rightarrow> row_slice \<Rightarrow> offset_table \<Rightarrow> nat \<Rightarrow> nat \<Rightarrow> bool" where
  "insert_effect s t g a itr wid first s' t' i c \<longleftrightarrow>
     \<not> rows_sent s ! i \<and> rows_sent s' = rows_sent s \<and>
     (\<forall>j d. held s' j d \<longleftrightarrow> held s j d \<or> j = i \<and> d = c) \<and>
     (\<forall>j d. held s j d \<longrightarrow> (j, d) \<noteq> (i, c) \<longrightarrow> line_at s' j d = line_at s j d \<and> cell_at s' j d = cell_at s j d) \<and>
     line_at s' i c = (g, a) \<and>
     (if first then \<not> held s i c \<and> \<not> has_line s g a \<and> ot_insert t itr wid (- 1) = Inr t' \<and>
                    cell_at s' i c = \<lparr> ce_addr = a, ce_first_itr = itr, ce_last_itr = itr \<rparr>
      else held s i c \<and> line_at s i c = (g, a) \<and>
           ot_insert t itr wid (ce_last_itr (cell_at s i c)) = Inr t' \<and>
           cell_at s' i c = (cell_at s i c)\<lparr> ce_last_itr := itr \<rparr>)"

lemma clean_row_no_hit: "list_all Not (cells_valid r) \<Longrightarrow> length (cells_valid r) = length (cells r) \<Longrightarrow> row_hit r a = None"
  by (auto simp: row_hit_None list_all_length)

lemma held_update:
  assumes "i < length (rows s)" "length (rows_valid s) = length (rows s)"
    and "rows s' = (rows s)[i := r']" "rows_valid s' = (rows_valid s)[i := True]"
  shows "held s' j d \<longleftrightarrow> (if j = i then d < length (cells r') \<and> cells_valid r' ! d else held s j d)"
    and "j \<noteq> i \<Longrightarrow> rows s' ! j = rows s ! j" "rows s' ! i = r'"
  using assms by (auto simp: held_def)

lemma slice_insert_effect:
  assumes inv: "slice_inv s" and ins: "slice_insert s t g a itr wid = Inr (True, first, s', t')"
  shows "\<exists>i c. i < length (rows s) \<and> insert_effect s t g a itr wid first s' t' i c"
proof -
  have wf: "slice_wf s" and clean: "free_rows_clean s" using inv by (auto simp: slice_inv_def)
  obtain i r0 r' where e: "i < length (rows s)" "row_insert r0 t a itr wid = Inr (True, r', t')"
    "grow_addr r0 = g" "rows s' = (rows s)[i := r']" "rows_valid s' = (rows_valid s)[i := True]"
    "rows_sent s' = (rows_sent s)[i := False]" "first \<longleftrightarrow> \<not> has_line s g a"
    "open_row s i \<and> r0 = rows s ! i \<or> \<not> rows_valid s ! i \<and> r0 = (rows s ! i)\<lparr> grow_addr := g \<rparr>"
    "first \<or> row_hit r0 a \<noteq> None" "last_sent_rowid s' = last_sent_rowid s"
    "last_sent_grow_rowid s' = last_sent_grow_rowid s" "last_sent_grow_addr s' = last_sent_grow_addr s"
    using slice_insert_True[OF ins wf] .
  have len: "length (rows_valid s) = length (rows s)" "length (rows_sent s) = length (rows s)"
    using wf by (auto simp: slice_wf_def)
  note rl = slice_wf_row[OF wf e(1)]
  have ns: "\<not> rows_sent s ! i" using e(1,8) clean by (auto simp: free_rows_clean_def open_row_def)
  then have sent: "rows_sent s' = rows_sent s" using e(1,6) len by (simp add: list_update_same_conv)
  note h = held_update[OF e(1) len(1) e(4,5)]
  from e(8) have r0: "cells r0 = cells (rows s ! i)" "cells_valid r0 = cells_valid (rows s ! i)" by auto
  have hi: "held s i d \<longleftrightarrow> d < length (cells r0) \<and> cells_valid r0 ! d" for d
  proof (cases "rows_valid s ! i")
    case False
    then have "list_all Not (cells_valid (rows s ! i))" using clean e(1) by (simp add: free_rows_clean_def)
    then show ?thesis using False rl r0 by (auto simp: held_def list_all_length)
  qed (use e(1) r0 in \<open>simp add: held_def\<close>)
  have old: "held s i d \<Longrightarrow> grow_addr (rows s ! i) = g" for d using e(3,8) by (auto simp: held_def)
  have other: "\<forall>j d. held s j d \<longrightarrow> (j, d) \<noteq> (i, c) \<longrightarrow> line_at s' j d = line_at s j d \<and> cell_at s' j d = cell_at s j d"
    if "\<And>d. d \<noteq> c \<Longrightarrow> cells r' ! d = cells r0 ! d" for c
  proof (intro allI impI)
    fix j d assume hd: "held s j d" "(j, d) \<noteq> (i, c)"
    show "line_at s' j d = line_at s j d \<and> cell_at s' j d = cell_at s j d"
      using hd h(2)[of j] h(3) that[of d] r0 e(3) old[of d] row_insert_shape(1)[OF e(2)]
      by (cases "j = i") (auto simp: line_at_def)
  qed
  from e(2) show ?thesis
  proof (cases rule: row_insert_cases)
    case (hit c)
    note hc = row_hit_Some[OF hit(1)]
    have hold: "held s i c" using hc hi by simp
    have op: "open_row s i" using hold e(8) by (auto simp: held_def)
    then have "has_line s g a" using hold hc old[OF hold] r0 ns
      unfolding has_line_def open_line_held line_at_def by auto
    then have "insert_effect s t g a itr wid first s' t' i c"
      unfolding insert_effect_def
      using ns sent h(1,3) hi hold hit hc e(3,7) old[OF hold] r0 other[of c] by (auto simp: line_at_def)
    then show ?thesis using e(1) by blast
  next
    case (new c)
    have nf: "first" using e(9) new(1) by blast
    have "c < length (cells_valid r0)" using new(3) rl r0 by simp
    then have "insert_effect s t g a itr wid first s' t' i c"
      unfolding insert_effect_def
      using ns sent h(1,3) hi new e(3,7) nf r0 other[of c] by (auto simp: line_at_def nth_list_update_if)
    then show ?thesis using e(1) by blast
  qed simp
qed

lemma insert_effect_unique:
  assumes u: "unique_lines s" and e: "insert_effect s t g a itr wid first s' t' i c"
  shows "unique_lines s'"
proof -
  have old: "open_line s j d \<and> line_at s' j d = line_at s j d \<or> first \<and> j = i \<and> d = c"
    if "open_line s' j d" for j d
    using that e unfolding open_line_held insert_effect_def
    by (cases "(j, d) = (i, c)") (auto split: if_splits)
  have new: "line_at s' i c = (g, a)" "first \<Longrightarrow> \<not> has_line s g a"
    using e by (auto simp: insert_effect_def)
  show ?thesis
    unfolding unique_lines_def
  proof (intro allI impI)
    fix j d j' d'
    assume "open_line s' j d" "open_line s' j' d'" and eq: "line_at s' j d = line_at s' j' d'"
    from old[OF this(1)] old[OF this(2)] show "j = j' \<and> d = d'"
    proof (elim disjE conjE)
      assume "open_line s j d" "open_line s j' d'" "line_at s' j d = line_at s j d" "line_at s' j' d' = line_at s j' d'"
      then show ?thesis using u eq unfolding unique_lines_def by metis
    qed (use eq new in \<open>auto simp: has_line_def\<close>)
  qed
qed

lemma slice_insert_inv:
  assumes inv: "slice_inv s" and ins: "slice_insert s t g a itr wid = Inr (True, first, s', t')"
  shows "slice_inv s'" "send_inv s \<Longrightarrow> last_sent_rowid s = 0 \<Longrightarrow> send_inv s'"
proof -
  have wf: "slice_wf s" and clean: "free_rows_clean s" and u: "unique_lines s"
    using inv by (auto simp: slice_inv_def)
  obtain i r0 r' where e: "i < length (rows s)" "row_insert r0 t a itr wid = Inr (True, r', t')"
    "grow_addr r0 = g" "rows s' = (rows s)[i := r']" "rows_valid s' = (rows_valid s)[i := True]"
    "rows_sent s' = (rows_sent s)[i := False]" "first \<longleftrightarrow> \<not> has_line s g a"
    "open_row s i \<and> r0 = rows s ! i \<or> \<not> rows_valid s ! i \<and> r0 = (rows s ! i)\<lparr> grow_addr := g \<rparr>"
    "first \<or> row_hit r0 a \<noteq> None" "last_sent_rowid s' = last_sent_rowid s"
    "last_sent_grow_rowid s' = last_sent_grow_rowid s" "last_sent_grow_addr s' = last_sent_grow_addr s"
    using slice_insert_True[OF ins wf] .
  have len: "length (rows_valid s) = length (rows s)" "length (rows_sent s) = length (rows s)"
    using wf by (auto simp: slice_wf_def)
  have r': "length (cells_valid r') = length (cells r')" "last_sent_entry_id r' \<le> length (cells r')"
    using row_insert_shape[OF e(2)] slice_wf_row[OF wf e(1)] e(8) by auto
  have wf': "slice_wf s'"
    using wf r' e(1,4-6) by (auto simp: slice_wf_def list_all_length nth_list_update_if)
  moreover have "free_rows_clean s'"
    using clean e(1,4-6) len by (auto simp: free_rows_clean_def nth_list_update_if)
  moreover obtain j c where "insert_effect s t g a itr wid first s' t' j c"
    using slice_insert_effect[OF inv ins] by blast
  ultimately show "slice_inv s'" using insert_effect_unique[OF u] by (auto simp: slice_inv_def)
  show "send_inv s'" if "send_inv s" "last_sent_rowid s = 0"
    using that wf' e(1,4-6,10-12) len by (auto simp: send_inv_def open_row_def nth_list_update_if)
qed

section \<open>The words of the lines\<close>

text \<open>Every held line owns a chain of the offset table, and the chains are disjoint.\<close>

definition cell_chain :: "offset_table \<Rightarrow> row_cell \<Rightarrow> (nat \<times> int) list \<Rightarrow> bool" where
  "cell_chain t c ws \<longleftrightarrow> ws \<noteq> [] \<and> chain t (ce_first_itr c) ws \<and> int (fst (last ws)) = ce_last_itr c"

definition words_ok :: "row_slice \<Rightarrow> offset_table \<Rightarrow> (nat \<Rightarrow> nat \<Rightarrow> (nat \<times> int) list) \<Rightarrow> bool" where
  "words_ok s t W \<longleftrightarrow> ot_wf t \<and>
     (\<forall>i c. held s i c \<longrightarrow> cell_chain t (cell_at s i c) (W i c)) \<and>
     (\<forall>i c j d. held s i c \<longrightarrow> held s j d \<longrightarrow> (i, c) \<noteq> (j, d) \<longrightarrow> fst ` set (W i c) \<inter> fst ` set (W j d) = {})"

lemma chain_first_is_int: "chain t f ws \<Longrightarrow> ws \<noteq> [] \<Longrightarrow> \<exists>k. f = int k"
  by (cases ws) auto

text \<open>A new chain of one word, next to the others.\<close>

lemma offset_insert_new:
  assumes "ot_wf t" "k < ot_num_tile_elements t" "\<not> ot_valid t ! k"
  shows "\<exists>t'. ot_insert t (int k) w (- 1) = Inr t' \<and> ot_wf t' \<and> chain t' (int k) [(k, w)] \<and>
              (\<forall>g vs. chain t g vs \<longrightarrow> chain t' g vs)"
proof -
  obtain t' where t': "ot_insert t (int k) w (- 1) = Inr t'" "ot_num_tile_elements t' = ot_num_tile_elements t"
    "ot_valid t' = (ot_valid t)[k := True]"
    "ot_entries t' = (ot_entries t)[k := (ot_entries t ! k)\<lparr> oe_wid := w, oe_next_itr := - 1 \<rparr>]"
    using ot_insert_Inr[OF assms(1,2), of "- 1" w] by (auto simp: Let_def)
  have len: "length (ot_valid t) = ot_num_tile_elements t" "length (ot_entries t) = ot_num_tile_elements t"
    using assms(1) by (simp_all add: ot_wf_def)
  have "chain t' g vs" if c: "chain t g vs" for g vs
  proof -
    have "ot_valid t' ! j = ot_valid t ! j \<and> ot_entries t' ! j = ot_entries t ! j" if "j \<in> fst ` set vs" for j
      using chain_bounds[OF c that] assms(3) by (auto simp: t' nth_list_update_if)
    from chain_cong[of vs t' t g, OF this t'(2)] c show ?thesis by simp
  qed
  moreover have "chain t' (int k) [(k, w)]" using assms(2) len by (simp add: t')
  ultimately show ?thesis using t'(1) ot_insert_wf[OF assms(1) t'(1)] by auto
qed

lemma insert_effect_words:
  assumes e: "insert_effect s t g a (int k) wid first s' t' i c" and W: "words_ok s t W"
    and k: "k < ot_num_tile_elements t" "\<not> ot_valid t ! k"
  shows "words_ok s' t' (W(i := (W i)(c := (if first then [] else W i c) @ [(k, wid)])))"
    (is "words_ok s' t' ?W'")
proof -
  have wf: "ot_wf t" and cc: "\<And>i c. held s i c \<Longrightarrow> cell_chain t (cell_at s i c) (W i c)"
    and dj: "\<And>i c j d. held s i c \<Longrightarrow> held s j d \<Longrightarrow> (i, c) \<noteq> (j, d) \<Longrightarrow> fst ` set (W i c) \<inter> fst ` set (W j d) = {}"
    using W by (auto simp: words_ok_def)
  have kn: "k \<notin> fst ` set (W j d)" if "held s j d" for j d
    using cc[OF that] chain_bounds k(2) unfolding cell_chain_def by blast
  have hd: "\<And>j d. held s' j d \<longleftrightarrow> held s j d \<or> j = i \<and> d = c"
    and same: "\<And>j d. held s j d \<Longrightarrow> (j, d) \<noteq> (i, c) \<Longrightarrow> cell_at s' j d = cell_at s j d"
    using e by (auto simp: insert_effect_def)
  have main: "ot_wf t' \<and> cell_chain t' (cell_at s' i c) (?W' i c) \<and>
      (\<forall>j d. held s j d \<longrightarrow> (j, d) \<noteq> (i, c) \<longrightarrow> (\<forall>f. chain t f (W j d) \<longrightarrow> chain t' f (W j d)))"
  proof (cases first)
    case True
    then have "ot_insert t (int k) wid (- 1) = Inr t'"
      "cell_at s' i c = \<lparr> ce_addr = a, ce_first_itr = int k, ce_last_itr = int k \<rparr>"
      using e by (auto simp: insert_effect_def)
    then show ?thesis using offset_insert_new[OF wf k, of wid] True by (auto simp: cell_chain_def)
  next
    case False
    then have h: "held s i c" and ins: "ot_insert t (int k) wid (ce_last_itr (cell_at s i c)) = Inr t'"
      and cell: "cell_at s' i c = (cell_at s i c)\<lparr> ce_last_itr := int k \<rparr>"
      using e by (auto simp: insert_effect_def)
    have w: "W i c \<noteq> []" "chain t (ce_first_itr (cell_at s i c)) (W i c)"
      "int (fst (last (W i c))) = ce_last_itr (cell_at s i c)"
      using cc[OF h] by (auto simp: cell_chain_def)
    obtain f where f: "ce_first_itr (cell_at s i c) = int f" using chain_first_is_int[OF w(2,1)] by blast
    have x: "ot_wf t'" "chain t' (int f) (W i c @ [(k, wid)])"
      "\<forall>g vs. fst ` set vs \<inter> fst ` set (W i c) = {} \<longrightarrow> chain t g vs \<longrightarrow> chain t' g vs"
      using ot_extend_chain[OF wf w(2)[unfolded f] w(1) k, of wid] ins w(3) by auto
    have "chain t' u (W j d)" if "held s j d" "(j, d) \<noteq> (i, c)" "chain t u (W j d)" for j d u
      using x(3) dj[OF that(1) h that(2)] that(3) by blast
    then show ?thesis using x(1,2) cell f False by (auto simp: cell_chain_def)
  qed
  have "cell_chain t' (cell_at s' j d) (?W' j d)" if "held s' j d" for j d
  proof (cases "(j, d) = (i, c)")
    case False
    then have "held s j d" using that hd by auto
    then show ?thesis using cc[of j d] same[of j d] main False by (auto simp: cell_chain_def)
  qed (use main in auto)
  moreover have half: "fst ` set (?W' j d) \<inter> fst ` set (?W' j' d') = {}"
    if h: "held s' j d" "held s j' d'" and ne: "(j, d) \<noteq> (j', d')" "(j', d') \<noteq> (i, c)" for j d j' d'
  proof -
    have W': "?W' j' d' = W j' d'" using ne(2) by auto
    show ?thesis
    proof (cases "(j, d) = (i, c)")
      case True
      have "fst ` set (if first then [] else W i c) \<inter> fst ` set (W j' d') = {}"
        using dj[OF _ h(2), of i c] ne True e by (cases first) (auto simp: insert_effect_def)
      then show ?thesis unfolding W' using True kn[OF h(2)] by auto
    next
      case False
      then have "held s j d" "?W' j d = W j d" using h hd by auto
      then show ?thesis unfolding W' using dj[OF _ h(2) ne(1)] by simp
    qed
  qed
  moreover have "fst ` set (?W' j d) \<inter> fst ` set (?W' j' d') = {}"
    if h: "held s' j d" "held s' j' d'" and ne: "(j, d) \<noteq> (j', d')" for j d j' d'
  proof (cases "(j', d') = (i, c)")
    case True
    then have "(j, d) \<noteq> (i, c)" "held s j d" using ne h(1) hd by auto
    from half[OF h(2) this(2) ne[symmetric] this(1)] show ?thesis by (simp only: Int_commute)
  next
    case False
    then have "held s j' d'" using h(2) hd by auto
    from half[OF h(1) this ne False] show ?thesis .
  qed
  ultimately show ?thesis using main unfolding words_ok_def by blast
qed

section \<open>Receiving a line\<close>

definition recv_row :: "bool \<Rightarrow> row_slice \<Rightarrow> Addr \<Rightarrow> nat \<Rightarrow> bool" where
  "recv_row check_sent s g i \<longleftrightarrow>
     rows_valid s ! i \<and> (\<not> check_sent \<or> rows_sent s ! i) \<and> grow_addr (rows s ! i) = g"

lemma slice_recv_loop_append:
  "slice_recv_loop g a b (xs @ ys) s t res =
     rbind (slice_recv_loop g a b xs s t res) (\<lambda>(res', s', t'). slice_recv_loop g a b ys s' t' res')"
proof (induction xs arbitrary: s t res)
  case (Cons i xs)
  show ?case
  proof (cases "row_get_entry_recv (rows s ! i) t a")
    case (Inl e)
    then show ?thesis by (auto simp: Cons.IH)
  next
    case (Inr x)
    obtain es r1 t1 where "x = (es, r1, t1)" by (cases x)
    with Inr show ?thesis
      by (cases "row_all_entries_received r1"; cases "row_check_reset (snd (row_all_entries_received r1))")
        (auto simp: Cons.IH split: bool.splits)
  qed
qed simp

lemma slice_recv_loop_skip:
  assumes "\<And>i. i \<in> set is \<Longrightarrow> recv_row b s g i \<Longrightarrow> row_hit (rows s ! i) a = None"
  shows "slice_recv_loop g a b is s t res = Inr (res, s, t)"
  using assms
proof (induction "is")
  case (Cons i "is")
  then show ?case
    by (cases "recv_row b s g i") (auto simp: recv_row_def row_get_entry_recv_def)
qed simp

text \<open>The state after the cell \<open>c\<close> of row \<open>i\<close> was received.\<close>

definition drop_line :: "row_slice \<Rightarrow> nat \<Rightarrow> nat \<Rightarrow> row_slice" where
  "drop_line s i c =
     (let r = (rows s ! i)\<lparr> cells_valid := (cells_valid (rows s ! i))[c := False] \<rparr> in
      if list_all Not (cells_valid r)
      then s\<lparr> rows := (rows s)[i := r\<lparr> last_sent_entry_id := 0 \<rparr>], rows_valid := (rows_valid s)[i := False],
              rows_sent := (rows_sent s)[i := False] \<rparr>
      else s\<lparr> rows := (rows s)[i := r] \<rparr>)"

lemma drop_line_other:
  "j \<noteq> i \<Longrightarrow> rows (drop_line s i c) ! j = rows s ! j"
  "j \<noteq> i \<Longrightarrow> rows_valid (drop_line s i c) ! j = rows_valid s ! j"
  "j \<noteq> i \<Longrightarrow> rows_sent (drop_line s i c) ! j = rows_sent s ! j"
  "length (rows (drop_line s i c)) = length (rows s)"
  by (simp_all add: drop_line_def Let_def)

lemma slice_recv_one:
  assumes hit: "recv_row b s g i" "row_hit (rows s ! i) a = Some c"
    and recv: "ot_get_entry_recv t (ce_first_itr (cell_at s i c)) = Inr (es, t')" "es \<noteq> []"
  shows "slice_recv_loop g a b [i] s t [] = Inr (es, drop_line s i c, t')"
  using assms
  by (simp add: recv_row_def row_get_entry_recv_def row_all_entries_received_def row_check_reset_def
      drop_line_def Let_def)

text \<open>When exactly one row answers, \<open>get_entry_recv\<close> returns its chain.\<close>

lemma slice_get_entry_recv_one:
  assumes i: "i < length (rows s)" and hit: "recv_row b s g i" "row_hit (rows s ! i) a = Some c"
    and only: "\<And>j. j < length (rows s) \<Longrightarrow> j \<noteq> i \<Longrightarrow> recv_row b s g j \<Longrightarrow> row_hit (rows s ! j) a = None"
    and recv: "ot_get_entry_recv t (ce_first_itr (cell_at s i c)) = Inr (es, t')" "es \<noteq> []"
  shows "slice_get_entry_recv s t g a b = Inr (sort_key oe_itr es, drop_line s i c, t')"
proof -
  have split: "[0..<length (rows s)] = [0..<i] @ [i] @ [Suc i..<length (rows s)]"
    using i upt_add_eq_append[of 0 i "length (rows s) - i"] by (simp add: upt_conv_Cons)
  have before: "slice_recv_loop g a b [0..<i] s t [] = Inr ([], s, t)"
    by (rule slice_recv_loop_skip) (use only i in auto)
  have "row_hit (rows (drop_line s i c) ! j) a = None"
    if "j \<in> set [Suc i..<length (rows s)]" "recv_row b (drop_line s i c) g j" for j
    using that only[of j] by (simp add: recv_row_def drop_line_other)
  then have after: "slice_recv_loop g a b [Suc i..<length (rows s)] (drop_line s i c) t' es
      = Inr (es, drop_line s i c, t')"
    by (rule slice_recv_loop_skip)
  show ?thesis
    unfolding slice_get_entry_recv_def split slice_recv_loop_append before
    by (simp only: rbind.simps prod.case slice_recv_one[OF hit recv] after)
qed

lemma drop_line_held:
  assumes "slice_wf s" "held s i c"
  shows "held (drop_line s i c) j d \<longleftrightarrow> held s j d \<and> (j, d) \<noteq> (i, c)"
    and "cells (rows (drop_line s i c) ! j) = cells (rows s ! j)"
    and "grow_addr (rows (drop_line s i c) ! j) = grow_addr (rows s ! j)"
proof -
  have i: "i < length (rows s)" "i < length (rows_valid s)" "c < length (cells_valid (rows s ! i))"
    "length (cells_valid (rows s ! i)) = length (cells (rows s ! i))" "rows_valid s ! i"
    using assms slice_wf_row[of s i] by (auto simp: held_def slice_wf_def)
  show "cells (rows (drop_line s i c) ! j) = cells (rows s ! j)"
    "grow_addr (rows (drop_line s i c) ! j) = grow_addr (rows s ! j)"
    using i by (simp_all add: drop_line_def Let_def nth_list_update_if)
  show "held (drop_line s i c) j d \<longleftrightarrow> held s j d \<and> (j, d) \<noteq> (i, c)"
  proof (cases "j = i")
    case False
    then show ?thesis by (simp add: held_def drop_line_other)
  next
    case True
    then show ?thesis using i
      by (auto simp: held_def drop_line_def Let_def nth_list_update_if list_all_length split: if_splits)
  qed
qed

lemma drop_line_inv:
  assumes inv: "slice_inv s" and h: "held s i c"
  shows "slice_inv (drop_line s i c)"
proof -
  have wf: "slice_wf s" and u: "unique_lines s" and clean: "free_rows_clean s"
    using inv by (auto simp: slice_inv_def)
  have i: "i < length (rows s)" using h by (simp add: held_def)
  note rl = slice_wf_row[OF wf i]
  have "slice_wf (drop_line s i c)"
    using wf rl by (auto simp: slice_wf_def drop_line_def Let_def list_all_length nth_list_update_if)
  moreover have "free_rows_clean (drop_line s i c)"
    using clean wf i h
    by (auto simp: free_rows_clean_def drop_line_def Let_def nth_list_update_if slice_wf_def held_def)
  moreover have "unique_lines (drop_line s i c)"
  proof -
    have o: "open_line s j d \<and> line_at (drop_line s i c) j d = line_at s j d" if l: "open_line (drop_line s i c) j d" for j d
    proof -
      have hd: "held (drop_line s i c) j d" "\<not> rows_sent (drop_line s i c) ! j" using l by (auto simp: open_line_held)
      have "rows_sent (drop_line s i c) ! j = rows_sent s ! j"
      proof (cases "j = i")
        case True
        with hd(1) i wf show ?thesis by (auto simp: held_def drop_line_def Let_def slice_wf_def split: if_splits)
      qed (rule drop_line_other)
      then show ?thesis using hd drop_line_held[OF wf h] by (simp add: open_line_held line_at_def)
    qed
    show ?thesis using u o unfolding unique_lines_def by metis
  qed
  ultimately show ?thesis by (simp add: slice_inv_def)
qed

lemma drop_line_words:
  assumes "slice_wf s" "held s i c" "words_ok s t W" "ot_wf t'"
    and "\<And>g vs. fst ` set vs \<inter> fst ` set (W i c) = {} \<Longrightarrow> chain t g vs \<Longrightarrow> chain t' g vs"
  shows "words_ok (drop_line s i c) t' W"
proof -
  note h = drop_line_held[OF assms(1,2)]
  have "cell_chain t' (cell_at (drop_line s i c) j d) (W j d)" if "held (drop_line s i c) j d" for j d
  proof -
    have hd: "held s j d" "(j, d) \<noteq> (i, c)" using that h(1) by blast+
    then have "fst ` set (W j d) \<inter> fst ` set (W i c) = {}" and "cell_chain t (cell_at s j d) (W j d)"
      using assms(2,3) unfolding words_ok_def by blast+
    then show ?thesis using assms(5) h(2)[of j] by (simp add: cell_chain_def)
  qed
  moreover have "fst ` set (W j d) \<inter> fst ` set (W j' d') = {}"
    if "held (drop_line s i c) j d" "held (drop_line s i c) j' d'" "(j, d) \<noteq> (j', d')" for j d j' d'
    using that assms(3) h(1) unfolding words_ok_def by blast
  ultimately show ?thesis using assms(4) unfolding words_ok_def by blast
qed

section \<open>Properties\<close>

text \<open>The slice of the witnesses: two rows of two cells over an offset table of eight elements.\<close>

definition slice_demo :: row_slice where
  "slice_demo = slice_allocate 2 2"

definition ot_demo :: offset_table where
  "ot_demo = ot_allocate 8"

lemma words_ok_demo: "words_ok slice_demo ot_demo (\<lambda>_ _. [])"
  by (auto simp: words_ok_def ot_demo_def ot_allocate_wf held_def slice_demo_def slice_allocate_def)

text \<open>
  C5.  Insertion into a slice: an accepted insertion of a free iteration keeps the slice invariant
  (open lines are unique, free rows are clean) and the chain invariant.  Exactly one line, that of
  the group row and cache-line address, changes: the iteration and its word offset are appended to
  its words, which were empty exactly when the call reported a first access to the line.  All other
  held lines keep their words.
\<close>

theorem slice_insert_appends:
  assumes "slice_inv s" "words_ok s t W" "k < ot_num_tile_elements t" "\<not> ot_valid t ! k"
    and "slice_insert s t g a (int k) wid = Inr (True, first, s', t')"
  shows "slice_inv s' \<and> (first \<longleftrightarrow> \<not> has_line s g a) \<and>
         (\<exists>i c W'. words_ok s' t' W' \<and> held s' i c \<and> \<not> rows_sent s' ! i \<and> line_at s' i c = (g, a) \<and>
            W' i c = (if first then [] else W i c) @ [(k, wid)] \<and>
            (\<forall>j d. held s j d \<longrightarrow> (j, d) \<noteq> (i, c) \<longrightarrow>
               held s' j d \<and> W' j d = W j d \<and> line_at s' j d = line_at s j d))"
proof -
  obtain i c where e: "insert_effect s t g a (int k) wid first s' t' i c"
    using slice_insert_effect[OF assms(1,5)] by blast
  let ?W' = "W(i := (W i)(c := (if first then [] else W i c) @ [(k, wid)]))"
  have "words_ok s' t' ?W'" using insert_effect_words[OF e assms(2-4)] .
  moreover have "first \<longleftrightarrow> \<not> has_line s g a"
    using e unfolding has_line_def open_line_held insert_effect_def by (auto split: if_splits)
  ultimately show ?thesis
    using slice_insert_inv(1)[OF assms(1,5)] e
    by (intro conjI exI[of _ i] exI[of _ c] exI[of _ ?W']) (auto simp: insert_effect_def)
qed

theorem slice_insert_appends_witness:
  "\<exists>s' t'. slice_insert slice_demo ot_demo 3 64 5 7 = Inr (True, True, s', t') \<and> slice_inv s' \<and>
           \<not> has_line slice_demo 3 64 \<and> (\<exists>i c. held s' i c \<and> line_at s' i c = (3, 64))"
proof -
  have "(case slice_insert slice_demo ot_demo 3 64 (int 5) 7 of Inr (True, True, _) \<Rightarrow> True | _ \<Rightarrow> False)"
    by code_simp
  then obtain s' t' where r: "slice_insert slice_demo ot_demo 3 64 (int 5) 7 = Inr (True, True, s', t')"
    by (auto split: sum.splits bool.splits)
  have "slice_inv slice_demo" by (simp add: slice_demo_def slice_allocate_inv)
  moreover have "5 < ot_num_tile_elements ot_demo" "\<not> ot_valid ot_demo ! 5"
    by (simp_all add: ot_demo_def ot_allocate_def)
  ultimately show ?thesis using slice_insert_appends[OF _ words_ok_demo _ _ r] r by auto
qed

text \<open>
  C6.  Receiving a line: if exactly one row answers for a group row and a cache-line address, then
  \<open>get_entry_recv\<close> returns all the words of that line, each once, sorted by iteration.  The line is
  no longer held, the slice and chain invariants are kept, and every other line keeps its words.
\<close>

theorem slice_recv_returns_line:
  assumes "slice_inv s" "words_ok s t W" "held s i c" "recv_row b s g i" "row_hit (rows s ! i) a = Some c"
    and "\<And>j. j < length (rows s) \<Longrightarrow> j \<noteq> i \<Longrightarrow> recv_row b s g j \<Longrightarrow> row_hit (rows s ! j) a = None"
  shows "\<exists>es s' t'. slice_get_entry_recv s t g a b = Inr (es, s', t') \<and>
           mset (map (\<lambda>e. (oe_itr e, oe_wid e)) es) = mset (map (\<lambda>(i, w). (int i, w)) (W i c)) \<and>
           sorted (map oe_itr es) \<and> slice_inv s' \<and> words_ok s' t' W \<and>
           (\<forall>j d. held s' j d \<longleftrightarrow> held s j d \<and> (j, d) \<noteq> (i, c))"
proof -
  have wf: "slice_wf s" using assms(1) by (simp add: slice_inv_def)
  have ot: "ot_wf t" and w: "W i c \<noteq> []" "chain t (ce_first_itr (cell_at s i c)) (W i c)"
    using assms(2,3) by (auto simp: words_ok_def cell_chain_def)
  obtain f where f: "ce_first_itr (cell_at s i c) = int f" using chain_first_is_int[OF w(2,1)] by blast
  obtain es t' where r: "ot_get_entry_recv t (int f) = Inr (es, t')" "ot_wf t'"
    "map (\<lambda>c. (oe_itr c, oe_wid c)) es = map (\<lambda>(i, w). (int i, w)) (W i c)"
    "\<forall>g vs. fst ` set vs \<inter> fst ` set (W i c) = {} \<longrightarrow> chain t g vs \<longrightarrow> chain t' g vs"
    using ot_recv_chain[OF ot w(2)[unfolded f]] by blast
  have ne: "es \<noteq> []" using r(3) w(1) by auto
  have i: "i < length (rows s)" using assms(3) by (simp add: held_def)
  have "slice_get_entry_recv s t g a b = Inr (sort_key oe_itr es, drop_line s i c, t')"
    using slice_get_entry_recv_one[OF i assms(4,5,6) r(1)[folded f] ne] .
  moreover have "mset (map (\<lambda>e. (oe_itr e, oe_wid e)) (sort_key oe_itr es)) = mset (map (\<lambda>(i, w). (int i, w)) (W i c))"
    unfolding r(3)[symmetric] by simp
  moreover have "words_ok (drop_line s i c) t' W"
    using drop_line_words[OF wf assms(3,2) r(2)] r(4) by blast
  ultimately show ?thesis
    using drop_line_inv[OF assms(1,3)] drop_line_held(1)[OF wf assms(3)] by (auto simp: sorted_sort_key)
qed

theorem slice_recv_returns_line_witness:
  "\<exists>s t es s' t'. slice_insert slice_demo ot_demo 3 64 5 7 = Inr (True, True, s, t) \<and>
     slice_get_entry_recv s t 3 64 False = Inr (es, s', t') \<and> map oe_wid es = [7]"
proof -
  have "(case slice_insert slice_demo ot_demo 3 64 (int 5) 7 of Inr (True, True, _) \<Rightarrow> True | _ \<Rightarrow> False)"
    by code_simp
  then obtain s t where r: "slice_insert slice_demo ot_demo 3 64 (int 5) 7 = Inr (True, True, s, t)"
    by (auto split: sum.splits bool.splits)
  have inv0: "slice_inv slice_demo" by (simp add: slice_demo_def slice_allocate_inv)
  have k: "5 < ot_num_tile_elements ot_demo" "\<not> ot_valid ot_demo ! 5"
    by (simp_all add: ot_demo_def ot_allocate_def)
  obtain i c where e: "insert_effect slice_demo ot_demo 3 64 (int 5) 7 True s t i c"
    using slice_insert_effect[OF inv0 r] by blast
  have nh: "\<not> held slice_demo j d" for j d by (auto simp: held_def slice_demo_def slice_allocate_def)
  have hd: "held s j d \<longleftrightarrow> j = i \<and> d = c" for j d using e nh by (auto simp: insert_effect_def)
  have l: "line_at s i c = (3, 64)" using e by (simp add: insert_effect_def)
  have W: "words_ok s t ((\<lambda>_ _. [])(i := (\<lambda>_. [])(c := [] @ [(5, 7)])))"
    using insert_effect_words[OF e words_ok_demo k] by simp
  have h: "held s i c" using hd by simp
  have rr: "recv_row False s 3 i" using h l by (simp add: recv_row_def held_def line_at_def)
  have nil: "row_hit (rows s ! j) 64 = None" if "j < length (rows s)" "j \<noteq> i" "recv_row False s 3 j" for j
    using that hd[of j] by (auto simp: row_hit_None recv_row_def held_def)
  have rh: "row_hit (rows s ! i) 64 = Some c"
  proof (cases "row_hit (rows s ! i) 64")
    case None
    then show ?thesis using h l by (auto simp: row_hit_None held_def line_at_def)
  next
    case (Some d)
    then have "held s i d" using row_hit_Some[OF Some] h by (simp add: held_def)
    then show ?thesis using hd Some by simp
  qed
  obtain es s' t' where x: "slice_get_entry_recv s t 3 64 False = Inr (es, s', t')"
    "mset (map (\<lambda>e. (oe_itr e, oe_wid e)) es) = {#(5, 7)#}"
    using slice_recv_returns_line[OF slice_insert_inv(1)[OF inv0 r] W h rr rh nil] by auto
  have "mset (map snd (map (\<lambda>e. (oe_itr e, oe_wid e)) es)) = {#7#}" unfolding mset_map x(2)[unfolded mset_map] by simp
  then have "mset (map oe_wid es) = {#7#}" by (simp add: comp_def)
  then have "map oe_wid es = [7]" by (simp only: mset_single_iff)
  then show ?thesis using r x(1) by auto
qed

text \<open>
  C2.  Draining: with the sender at its start, asking for lines until there are none returns (a
  bound on the number of calls is one more than the number of pending lines), raises no panic, and
  yields the address of every valid cell of every open row exactly once.  Afterwards no row is open.
\<close>

theorem slice_drain_exactly_once:
  assumes "send_inv s" "size (slice_pending s) < n"
  shows "\<exists>as s'. slice_drain n s = Some (Inr (as, s')) \<and> mset as = slice_pending s \<and>
                 (\<forall>i < length (rows s'). \<not> open_row s' i)"
  using slice_drain_all[OF assms] by blast

theorem slice_drain_exactly_once_witness:
  "\<exists>s t as s'. slice_insert slice_demo ot_demo 3 64 5 7 = Inr (True, True, s, t) \<and>
     slice_drain 9 s = Some (Inr (as, s')) \<and> as = [64]"
proof -
  have "(case slice_insert slice_demo ot_demo 3 64 5 7 of
           Inr (True, True, s, t) \<Rightarrow> last_sent_grow_addr s = 0 \<and> last_sent_rowid s = 0 \<and>
             rows s = [(row_allocate 2)\<lparr> grow_addr := 3, row_lines_inserted := 1,
               cells := [\<lparr> ce_addr = 64, ce_first_itr = 5, ce_last_itr = 5 \<rparr>, \<lparr> ce_addr = 0, ce_first_itr = 0, ce_last_itr = 0 \<rparr>],
               cells_valid := [True, False] \<rparr>, row_allocate 2] \<and>
             rows_valid s = [True, False] \<and> rows_sent s = [False, False] | _ \<Rightarrow> False)"
    by code_simp
  then obtain s t where r: "slice_insert slice_demo ot_demo 3 64 5 7 = Inr (True, True, s, t)"
    and f: "last_sent_grow_addr s = 0" "last_sent_rowid s = 0"
      "rows s = [(row_allocate 2)\<lparr> grow_addr := 3, row_lines_inserted := 1,
               cells := [\<lparr> ce_addr = 64, ce_first_itr = 5, ce_last_itr = 5 \<rparr>, \<lparr> ce_addr = 0, ce_first_itr = 0, ce_last_itr = 0 \<rparr>],
               cells_valid := [True, False] \<rparr>, row_allocate 2]"
      "rows_valid s = [True, False]" "rows_sent s = [False, False]"
    by (auto split: sum.splits bool.splits)
  have "send_inv s" using f by (simp add: send_inv_def slice_wf_def row_allocate_def)
  moreover have p: "slice_pending s = {#64#}"
    using f by (simp add: slice_pending_def open_row_def row_pending_def row_allocate_def lessThan_Suc numeral_2_eq_2)
  ultimately obtain as s' where "slice_drain 9 s = Some (Inr (as, s'))" "mset as = {#64#}"
    using slice_drain_exactly_once[of s 9] by auto
  then show ?thesis using r by (auto simp: mset_single_iff)
qed

end
