(* ===== verification/IF_Model.thy ===== *)
theory IF_Model
  imports SPD_Model
begin

text \<open>
  Instructions and the instruction file (\<open>IF.hh\<close>, \<open>IF.cc\<close>).  The instruction file keeps,
  per accelerator, a window of instruction slots; the model groups the three arrays of the code
  (\<open>instructions\<close>, \<open>valids\<close>, \<open>completion_only_tiles\<close>) by accelerator, so an instruction pointer
  is a slot number of a window.  The results of \<open>rand()\<close> and the region permit of the invalidator
  are arguments.  Fields that the constructor leaves uninitialised are arguments of its model.
\<close>

section \<open>Instructions\<close>

datatype OpcodeType =
    STREAM_LD | STREAM_ST | INDIR_LD | INDIR_ST_SCALAR | INDIR_ST_VECTOR | INDIR_RMW_SCALAR
  | INDIR_RMW_VECTOR | RANGE_LOOP | ALU_SCALAR | ALU_VECTOR | ALU_REDUCE | INDIR_LD_VIRTUAL | Opcode_MAX

datatype OPType =
    ADD_OP | SUB_OP | MUL_OP | DIV_OP | MIN_OP | MAX_OP | AND_OP | OR_OP | XOR_OP | SHL_OP | SHR_OP
  | GT_OP | GTE_OP | LT_OP | LTE_OP | EQ_OP | OPType_MAX

datatype DataType = UINT32_TYPE | INT32_TYPE | FLOAT32_TYPE | UINT64_TYPE | INT64_TYPE | FLOAT64_TYPE | DataType_MAX

datatype AccessType = READ | WRITE | COMPUTE | AccessType_MAX

datatype InstrStatus = Instr_Idle | Instr_Service | Instr_Finish

datatype TileStatus = WaitForInvalidation | Invalidating | WaitForService | TS_Service | TS_Finished

record Instruction =
  baseAddr :: Addr
  backingAddr :: Addr
  minAddr :: Addr
  maxAddr :: Addr
  addrRangeID :: int
  src1RegID :: int
  src2RegID :: int
  src3RegID :: int
  dst1RegID :: int
  dst2RegID :: int
  src1SpdID :: int
  src2SpdID :: int
  src1Status :: TileStatus
  src2Status :: TileStatus
  dst1SpdID :: int
  dst2SpdID :: int
  dst1Status :: TileStatus
  dst2Status :: TileStatus
  condSpdID :: int
  condStatus :: TileStatus
  opcode :: OpcodeType
  optype :: OPType
  datatyp :: DataType
  accessType :: AccessType
  istate :: InstrStatus
  funcUniType :: FuncUnitType
  CID :: int
  PC :: Addr
  if_id :: int
  core_id :: int
  maa_id :: int
  func_unit_id :: int

definition Instruction_init :: "Addr \<Rightarrow> Addr \<Rightarrow> int \<Rightarrow> AccessType \<Rightarrow> Instruction" where
  "Instruction_init min0 max0 range0 access0 =
     \<lparr> baseAddr = - 1, backingAddr = - 1, minAddr = min0, maxAddr = max0, addrRangeID = range0,
       src1RegID = - 1, src2RegID = - 1, src3RegID = - 1, dst1RegID = - 1, dst2RegID = - 1,
       src1SpdID = - 1, src2SpdID = - 1,
       src1Status = WaitForInvalidation, src2Status = WaitForInvalidation,
       dst1SpdID = - 1, dst2SpdID = - 1,
       dst1Status = WaitForInvalidation, dst2Status = WaitForInvalidation,
       condSpdID = - 1, condStatus = WaitForInvalidation,
       opcode = Opcode_MAX, optype = OPType_MAX, datatyp = DataType_MAX, accessType = access0,
       istate = Instr_Idle, funcUniType = FuncUnit_MAX, CID = - 1, PC = 0, if_id = - 1,
       core_id = - 1, maa_id = - 1, func_unit_id = - 1 \<rparr>"

definition WordSize :: "Instruction \<Rightarrow> nat res" where
  "WordSize ins =
     (case datatyp ins of
        UINT32_TYPE \<Rightarrow> Inr 4 | INT32_TYPE \<Rightarrow> Inr 4 | FLOAT32_TYPE \<Rightarrow> Inr 4
      | UINT64_TYPE \<Rightarrow> Inr 8 | INT64_TYPE \<Rightarrow> Inr 8 | FLOAT64_TYPE \<Rightarrow> Inr 8
      | DataType_MAX \<Rightarrow> Inl Assert_Fail)"

definition is_compare :: "OPType \<Rightarrow> bool" where
  "is_compare op \<longleftrightarrow> op = GT_OP \<or> op = GTE_OP \<or> op = LT_OP \<or> op = LTE_OP \<or> op = EQ_OP"

definition getWordSize :: "Instruction \<Rightarrow> int \<Rightarrow> nat res" where
  "getWordSize ins tile_id =
     (if tile_id = - 1 then Inl Panic
      else if tile_id = condSpdID ins then Inr 4
      else if tile_id = src1SpdID ins then
        (if opcode ins \<in> {ALU_SCALAR, ALU_VECTOR, ALU_REDUCE, STREAM_ST} then WordSize ins
         else if opcode ins \<in> {INDIR_LD, INDIR_LD_VIRTUAL, INDIR_ST_VECTOR, INDIR_ST_SCALAR,
                               INDIR_RMW_VECTOR, INDIR_RMW_SCALAR, RANGE_LOOP} then Inr 4
         else Inl Assert_Fail)
      else if tile_id = src2SpdID ins then
        (if opcode ins \<in> {INDIR_ST_VECTOR, INDIR_RMW_VECTOR, ALU_VECTOR} then WordSize ins
         else if opcode ins = RANGE_LOOP then Inr 4
         else Inl Assert_Fail)
      else if tile_id = dst1SpdID ins then
        (if opcode ins \<in> {ALU_SCALAR, ALU_VECTOR} then
           (if is_compare (optype ins) then Inr 4 else WordSize ins)
         else if opcode ins \<in> {STREAM_LD, INDIR_LD, INDIR_LD_VIRTUAL, INDIR_ST_VECTOR, INDIR_ST_SCALAR,
                               INDIR_RMW_VECTOR, INDIR_RMW_SCALAR} then WordSize ins
         else if opcode ins = RANGE_LOOP then Inr 4
         else Inl Assert_Fail)
      else if tile_id = dst2SpdID ins then
        (if opcode ins = RANGE_LOOP then Inr 4 else Inl Assert_Fail)
      else Inl Assert_Fail)"

definition funcUnit_of_opcode :: "OpcodeType \<Rightarrow> FuncUnitType res" where
  "funcUnit_of_opcode op =
     (if op \<in> {STREAM_LD, STREAM_ST} then Inr STREAM
      else if op \<in> {INDIR_LD, INDIR_LD_VIRTUAL, INDIR_ST_VECTOR, INDIR_ST_SCALAR, INDIR_RMW_VECTOR,
                    INDIR_RMW_SCALAR} then Inr INDIRECT
      else if op = RANGE_LOOP then Inr RANGE
      else if op \<in> {ALU_SCALAR, ALU_VECTOR, ALU_REDUCE} then Inr ALU
      else Inl Assert_Fail)"

section \<open>The instruction window of one accelerator\<close>

record if_window =
  instructions :: "Instruction list"
  valids :: "bool list"
  completion_only_tiles :: "bool list"

definition IF_init :: "nat \<Rightarrow> nat \<Rightarrow> Instruction \<Rightarrow> if_window" where
  "IF_init num_instructions ntiles ins0 =
     \<lparr> instructions = replicate num_instructions ins0, valids = replicate num_instructions False,
       completion_only_tiles = replicate ntiles False \<rparr>"

text \<open>The hazard tests of \<open>pushInstruction\<close> against one valid instruction.\<close>

definition dst_clash :: "int \<Rightarrow> Instruction \<Rightarrow> bool" where
  "dst_clash d old \<longleftrightarrow> d \<noteq> - 1 \<and>
     (dst1SpdID old \<noteq> - 1 \<and> d = dst1SpdID old \<or> dst2SpdID old \<noteq> - 1 \<and> d = dst2SpdID old \<or>
      src1SpdID old \<noteq> - 1 \<and> d = src1SpdID old \<or> src2SpdID old \<noteq> - 1 \<and> d = src2SpdID old \<or>
      condSpdID old \<noteq> - 1 \<and> d = condSpdID old)"

definition range_clash :: "Instruction \<Rightarrow> Instruction \<Rightarrow> bool" where
  "range_clash ins old \<longleftrightarrow>
     addrRangeID ins = addrRangeID old \<and>
     (accessType ins = WRITE \<and> accessType old \<noteq> COMPUTE \<or>
      accessType ins = READ \<and> accessType old = WRITE)"

definition hazard :: "Instruction \<Rightarrow> Instruction \<Rightarrow> bool" where
  "hazard ins old \<longleftrightarrow> dst_clash (dst1SpdID ins) old \<or> dst_clash (dst2SpdID ins) old \<or> range_clash ins old"

definition reject_completion_source :: "if_window \<Rightarrow> int \<Rightarrow> unit res" where
  "reject_completion_source w tile_id =
     (if tile_id = - 1 then Inr ()
      else rbind (arr_get (completion_only_tiles w) tile_id) (\<lambda>c. if c then Inl Panic else Inr ()))"

text \<open>
  The scan: a hazard with any valid instruction refuses the push; otherwise the first free slot is
  taken.
\<close>

definition mark_completion :: "bool list \<Rightarrow> int \<Rightarrow> bool \<Rightarrow> bool list res" where
  "mark_completion cs tile_id v = (if tile_id = - 1 then Inr cs else arr_set cs tile_id v)"

definition pushInstruction :: "if_window \<Rightarrow> Instruction \<Rightarrow> (bool \<times> if_window) res" where
  "pushInstruction w ins0 =
     rbind (funcUnit_of_opcode (opcode ins0)) (\<lambda>fu.
     let ins = ins0\<lparr> funcUniType := fu \<rparr> in
     rbind (reject_completion_source w (src1SpdID ins)) (\<lambda>_.
     rbind (reject_completion_source w (src2SpdID ins)) (\<lambda>_.
     rbind (reject_completion_source w (condSpdID ins)) (\<lambda>_.
       if list_ex (\<lambda>i. valids w ! i \<and> hazard ins (instructions w ! i)) [0..<length (instructions w)]
       then Inr (False, w)
       else case find (\<lambda>i. \<not> valids w ! i) [0..<length (instructions w)] of
              None \<Rightarrow> Inr (False, w)
            | Some i \<Rightarrow>
                rbind (mark_completion (completion_only_tiles w) (dst1SpdID ins) (opcode ins = INDIR_LD_VIRTUAL)) (\<lambda>c1.
                rbind (mark_completion c1 (dst2SpdID ins) False) (\<lambda>c2.
                  Inr (True, w\<lparr> instructions := (instructions w)[i := ins\<lparr> if_id := int i \<rparr>],
                                valids := (valids w)[i := True], completion_only_tiles := c2 \<rparr>))))))) "

definition canPushRegister :: "if_window \<Rightarrow> int \<Rightarrow> bool" where
  "canPushRegister w register_id =
     (\<not> list_ex (\<lambda>i. valids w ! i \<and>
         (let old = instructions w ! i in
          dst1RegID old = register_id \<or> dst2RegID old = register_id \<or> src1RegID old = register_id \<or>
          src2RegID old = register_id \<or> src3RegID old = register_id)) [0..<length (instructions w)])"

text \<open>The loops over all valid instructions apply one update to each.\<close>

definition map_valid :: "(Instruction \<Rightarrow> Instruction) \<Rightarrow> if_window \<Rightarrow> if_window" where
  "map_valid f w =
     w\<lparr> instructions := map2 (\<lambda>v ins. if v then f ins else ins) (valids w) (instructions w) \<rparr>"

definition upd_instr :: "nat \<Rightarrow> (Instruction \<Rightarrow> Instruction) \<Rightarrow> if_window \<Rightarrow> if_window" where
  "upd_instr k f w = w\<lparr> instructions := (instructions w)[k := f (instructions w ! k)] \<rparr>"

definition set_src_status :: "int \<Rightarrow> TileStatus \<Rightarrow> Instruction \<Rightarrow> Instruction" where
  "set_src_status d st ins =
     ins\<lparr> src1Status := (if src1SpdID ins = d then st else src1Status ins),
          src2Status := (if src2SpdID ins = d then st else src2Status ins),
          condStatus := (if condSpdID ins = d then st else condStatus ins) \<rparr>"

definition set_dst_status :: "int \<Rightarrow> TileStatus \<Rightarrow> Instruction \<Rightarrow> Instruction" where
  "set_dst_status d st ins =
     ins\<lparr> dst1Status := (if dst1SpdID ins = d then st else dst1Status ins),
          dst2Status := (if dst2SpdID ins = d then st else dst2Status ins) \<rparr>"

definition step_status :: "int \<Rightarrow> TileStatus \<Rightarrow> TileStatus \<Rightarrow> Instruction \<Rightarrow> Instruction" where
  "step_status d from_st to_st ins =
     ins\<lparr> src1Status := (if src1SpdID ins = d \<and> src1Status ins = from_st then to_st else src1Status ins),
          src2Status := (if src2SpdID ins = d \<and> src2Status ins = from_st then to_st else src2Status ins),
          condStatus := (if condSpdID ins = d \<and> condStatus ins = from_st then to_st else condStatus ins),
          dst1Status := (if dst1SpdID ins = d \<and> dst1Status ins = from_st then to_st else dst1Status ins),
          dst2Status := (if dst2SpdID ins = d \<and> dst2Status ins = from_st then to_st else dst2Status ins) \<rparr>"

definition issueInstructionCompute :: "if_window \<Rightarrow> nat \<Rightarrow> if_window" where
  "issueInstructionCompute w k =
     (let d1 = dst1SpdID (instructions w ! k);
          d2 = dst2SpdID (instructions w ! k);
          w0 = upd_instr k (\<lambda>ins. ins\<lparr> istate := Instr_Service \<rparr>) w;
          w1 = (if d1 \<noteq> - 1 then map_valid (set_dst_status d1 TS_Service \<circ> set_src_status d1 TS_Service) w0 else w0)
      in if d2 \<noteq> - 1 then map_valid (set_dst_status d2 TS_Service \<circ> set_src_status d2 TS_Service) w1 else w1)"

definition issueInstructionInvalidate :: "if_window \<Rightarrow> nat \<Rightarrow> int \<Rightarrow> if_window" where
  "issueInstructionInvalidate w k tile_id =
     map_valid (step_status tile_id WaitForInvalidation Invalidating)
       (upd_instr k (\<lambda>ins. ins\<lparr> istate := Instr_Service \<rparr>) w)"

definition finishInstructionCompute :: "if_window \<Rightarrow> nat \<Rightarrow> if_window" where
  "finishInstructionCompute w k =
     (let d1 = dst1SpdID (instructions w ! k);
          d2 = dst2SpdID (instructions w ! k);
          slot = nat (if_id (instructions w ! k));
          w0 = (upd_instr k (\<lambda>ins. ins\<lparr> istate := Instr_Finish \<rparr>) w)\<lparr> valids := (valids w)[slot := False] \<rparr>;
          w1 = (if d1 \<noteq> - 1 then map_valid (set_src_status d1 TS_Finished) w0 else w0)
      in if d2 \<noteq> - 1 then map_valid (set_src_status d2 TS_Finished) w1 else w1)"

definition tileStatus_of_spd :: "SPD_TileStatus \<Rightarrow> TileStatus" where
  "tileStatus_of_spd st = (case st of Tile_Idle \<Rightarrow> WaitForService | Tile_Service \<Rightarrow> TS_Service | Tile_Finished \<Rightarrow> TS_Finished)"

definition finishInstructionInvalidate :: "if_window \<Rightarrow> nat \<Rightarrow> int \<Rightarrow> SPD_TileStatus \<Rightarrow> if_window" where
  "finishInstructionInvalidate w k tile_id st =
     map_valid (step_status tile_id Invalidating (tileStatus_of_spd st))
       (upd_instr k (\<lambda>ins. ins\<lparr> istate := Instr_Idle \<rparr>) w)"

section \<open>Choosing an instruction\<close>

definition rotated :: "nat \<Rightarrow> nat \<Rightarrow> nat list" where
  "rotated r n = map (\<lambda>i. (r mod n + i) mod n) [0..<n]"

definition src_ready :: "int \<Rightarrow> TileStatus \<Rightarrow> bool" where
  "src_ready d st \<longleftrightarrow> d = - 1 \<or> st = TS_Service \<or> st = TS_Finished"

definition dst_ready :: "int \<Rightarrow> TileStatus \<Rightarrow> bool" where
  "dst_ready d st \<longleftrightarrow> d = - 1 \<or> st = WaitForService"

definition compute_ready :: "if_window \<Rightarrow> FuncUnitType \<Rightarrow> int \<Rightarrow> nat \<Rightarrow> bool" where
  "compute_ready w fu m i \<longleftrightarrow>
     valids w ! i \<and>
     (let ins = instructions w ! i in
      maa_id ins = m \<and> istate ins = Instr_Idle \<and>
      src_ready (src1SpdID ins) (src1Status ins) \<and> src_ready (src2SpdID ins) (src2Status ins) \<and>
      src_ready (condSpdID ins) (condStatus ins) \<and>
      dst_ready (dst1SpdID ins) (dst1Status ins) \<and> dst_ready (dst2SpdID ins) (dst2Status ins) \<and>
      funcUniType ins = fu)"

text \<open>
  The search for an instruction a unit of type \<open>fu\<close> may execute.  The permit is asked only for
  instructions that are ready; it may change the state of the regions also when it is refused.
\<close>

fun getReady_scan ::
  "('r \<Rightarrow> Instruction \<Rightarrow> (bool \<times> 'r) res) \<Rightarrow> bool \<Rightarrow> if_window \<Rightarrow> FuncUnitType \<Rightarrow> int \<Rightarrow> nat list \<Rightarrow> 'r \<Rightarrow>
   (nat option \<times> 'r) res" where
  "getReady_scan permit single w fu m [] r = Inr (None, r)"
| "getReady_scan permit single w fu m (i # is) r =
     (if compute_ready w fu m i then
        if single then Inr (Some i, r)
        else rbind (permit r (instructions w ! i)) (\<lambda>(ok, r').
               if ok then Inr (Some i, r') else getReady_scan permit single w fu m is r')
      else getReady_scan permit single w fu m is r)"

definition getReady_compute ::
  "('r \<Rightarrow> Instruction \<Rightarrow> (bool \<times> 'r) res) \<Rightarrow> bool \<Rightarrow> if_window \<Rightarrow> FuncUnitType \<Rightarrow> int \<Rightarrow> nat \<Rightarrow> 'r \<Rightarrow>
   (nat option \<times> if_window \<times> 'r) res" where
  "getReady_compute permit single w fu m rnd r =
     (if fu = INVALIDATOR \<or> m = - 1 then Inl Panic
      else rbind (getReady_scan permit single w fu m (rotated rnd (length (instructions w))) r) (\<lambda>(x, r').
        case x of None \<Rightarrow> Inr (None, w, r')
                | Some i \<Rightarrow> Inr (Some i, issueInstructionCompute w i, r')))"

text \<open>The tile the invalidator should handle for an instruction: the first that waits.\<close>

definition invalidate_tile :: "Instruction \<Rightarrow> int" where
  "invalidate_tile ins =
     (if dst1Status ins = WaitForInvalidation then dst1SpdID ins
      else if dst2Status ins = WaitForInvalidation then dst2SpdID ins
      else if src1Status ins = WaitForInvalidation then src1SpdID ins
      else if src2Status ins = WaitForInvalidation then src2SpdID ins
      else if condStatus ins = WaitForInvalidation then condSpdID ins
      else - 1)"

definition invalidate_ready :: "if_window \<Rightarrow> nat \<Rightarrow> bool" where
  "invalidate_ready w i \<longleftrightarrow>
     valids w ! i \<and> istate (instructions w ! i) = Instr_Idle \<and> invalidate_tile (instructions w ! i) \<noteq> - 1"

definition getReady_invalidator ::
  "if_window list \<Rightarrow> nat \<Rightarrow> nat \<Rightarrow> nat \<Rightarrow> ((nat \<times> nat \<times> int) option \<times> if_window list)" where
  "getReady_invalidator ws n rnd_i rnd_m =
     (case find (\<lambda>(m, i). invalidate_ready (ws ! m) i)
             (concat (map (\<lambda>m. map (\<lambda>i. (m, i)) (rotated rnd_i n)) (rotated rnd_m (length ws)))) of
        None \<Rightarrow> (None, ws)
      | Some (m, i) \<Rightarrow>
          (let tile = invalidate_tile (instructions (ws ! m) ! i) in
           (Some (m, i, tile), ws[m := issueInstructionInvalidate (ws ! m) i tile])))"

section \<open>Static fields and the hazard invariant\<close>

text \<open>
  What an instruction is, apart from its progress: the updates of the instruction file change only
  the progress.
\<close>

definition static :: "Instruction \<Rightarrow> Instruction" where
  "static ins = ins\<lparr> src1Status := WaitForInvalidation, src2Status := WaitForInvalidation,
     dst1Status := WaitForInvalidation, dst2Status := WaitForInvalidation,
     condStatus := WaitForInvalidation, istate := Instr_Idle \<rparr>"

lemma static_updates [simp]:
  "static (set_src_status d st ins) = static ins" "static (set_dst_status d st ins) = static ins"
  "static (step_status d a b ins) = static ins" "static (ins\<lparr> istate := s \<rparr>) = static ins"
  by (simp_all add: static_def set_src_status_def set_dst_status_def step_status_def)

lemma static_select [simp]:
  "dst1SpdID (static a) = dst1SpdID a" "dst2SpdID (static a) = dst2SpdID a" "src1SpdID (static a) = src1SpdID a"
  "src2SpdID (static a) = src2SpdID a" "condSpdID (static a) = condSpdID a" "addrRangeID (static a) = addrRangeID a"
  "accessType (static a) = accessType a" "if_id (static a) = if_id a" "funcUniType (static a) = funcUniType a"
  "maa_id (static a) = maa_id a"
  by (simp_all add: static_def)

lemma static_fields:
  assumes "static a = static b"
  shows "dst1SpdID a = dst1SpdID b" "dst2SpdID a = dst2SpdID b" "src1SpdID a = src1SpdID b"
    "src2SpdID a = src2SpdID b" "condSpdID a = condSpdID b" "addrRangeID a = addrRangeID b"
    "accessType a = accessType b" "if_id a = if_id b" "funcUniType a = funcUniType b" "maa_id a = maa_id b"
  using assms static_select by metis+

definition window_wf :: "if_window \<Rightarrow> bool" where
  "window_wf w \<longleftrightarrow> length (valids w) = length (instructions w) \<and>
     (\<forall>i < length (instructions w). valids w ! i \<longrightarrow> if_id (instructions w ! i) = int i)"

text \<open>Two valid instructions never write the same tile, and never conflict on a memory region.\<close>

definition writes_tile :: "Instruction \<Rightarrow> int \<Rightarrow> bool" where
  "writes_tile ins d \<longleftrightarrow> d \<noteq> - 1 \<and> (d = dst1SpdID ins \<or> d = dst2SpdID ins)"

definition reads_tile :: "Instruction \<Rightarrow> int \<Rightarrow> bool" where
  "reads_tile ins d \<longleftrightarrow> d \<noteq> - 1 \<and> (d = src1SpdID ins \<or> d = src2SpdID ins \<or> d = condSpdID ins)"

definition compatible :: "Instruction \<Rightarrow> Instruction \<Rightarrow> bool" where
  "compatible a b \<longleftrightarrow>
     (\<forall>d. \<not> (writes_tile a d \<and> writes_tile b d)) \<and>
     (addrRangeID a = addrRangeID b \<longrightarrow> accessType a = WRITE \<longrightarrow> accessType b \<noteq> READ \<and> accessType b \<noteq> WRITE) \<and>
     (addrRangeID a = addrRangeID b \<longrightarrow> accessType b = WRITE \<longrightarrow> accessType a \<noteq> READ \<and> accessType a \<noteq> WRITE)"

definition hazard_free :: "if_window \<Rightarrow> bool" where
  "hazard_free w \<longleftrightarrow>
     (\<forall>i < length (instructions w). \<forall>j < length (instructions w).
        i \<noteq> j \<longrightarrow> valids w ! i \<longrightarrow> valids w ! j \<longrightarrow> compatible (instructions w ! i) (instructions w ! j))"

lemma dst_clash_iff: "dst_clash d old \<longleftrightarrow> writes_tile old d \<or> reads_tile old d"
  by (auto simp: dst_clash_def writes_tile_def reads_tile_def)

lemma no_hazard_compatible: "\<not> hazard ins old \<Longrightarrow> compatible ins old"
  by (auto simp: hazard_def compatible_def dst_clash_iff range_clash_def writes_tile_def)

lemma compatible_sym: "compatible a b \<Longrightarrow> compatible b a"
  by (auto simp: compatible_def)

lemma compatible_static:
  "static a = static a' \<Longrightarrow> static b = static b' \<Longrightarrow> compatible a b = compatible a' b'"
  using static_fields[of a a'] static_fields[of b b'] by (simp add: compatible_def writes_tile_def)

text \<open>A window whose valid instructions are, up to progress, among those of another.\<close>

definition progressed :: "if_window \<Rightarrow> if_window \<Rightarrow> bool" where
  "progressed w w' \<longleftrightarrow> length (valids w') = length (valids w) \<and>
     length (instructions w') = length (instructions w) \<and>
     (\<forall>i < length (instructions w). static (instructions w' ! i) = static (instructions w ! i)) \<and>
     (\<forall>i < length (valids w). valids w' ! i \<longrightarrow> valids w ! i)"

lemma progressed_trans: "progressed w1 w2 \<Longrightarrow> progressed w2 w3 \<Longrightarrow> progressed w1 w3"
  by (simp add: progressed_def)

lemma progressed_refl: "progressed w w"
  by (simp add: progressed_def)

lemma map_valid_nth:
  "length (valids w) = length (instructions w) \<Longrightarrow> i < length (instructions w) \<Longrightarrow>
   instructions (map_valid f w) ! i = (if valids w ! i then f (instructions w ! i) else instructions w ! i)"
  by (simp add: map_valid_def)

lemma map_valid_valids [simp]: "valids (map_valid f w) = valids w"
  "length (valids w) = length (instructions w) \<Longrightarrow> length (instructions (map_valid f w)) = length (instructions w)"
  by (simp_all add: map_valid_def)

lemma upd_instr_simps [simp]: "valids (upd_instr k f w) = valids w"
  "length (instructions (upd_instr k f w)) = length (instructions w)"
  "k < length (instructions w) \<Longrightarrow>
   instructions (upd_instr k f w) ! i = (if i = k then f (instructions w ! k) else instructions w ! i)"
  by (simp_all add: upd_instr_def nth_list_update_if)

lemma map_valid_progressed:
  assumes "length (valids w) = length (instructions w)" "\<And>ins. static (f ins) = static ins"
  shows "progressed w (map_valid f w)"
  using assms by (simp add: progressed_def map_valid_nth)

lemma upd_instr_progressed:
  assumes "\<And>ins. static (f ins) = static ins"
  shows "progressed w (upd_instr k f w)"
  using assms by (simp add: progressed_def upd_instr_def nth_list_update_if)

lemma progressed_wf: "progressed w w' \<Longrightarrow> window_wf w \<Longrightarrow> window_wf w'"
  unfolding progressed_def window_wf_def using static_fields(8) by metis

lemma progressed_hazard_free:
  assumes "progressed w w'" "window_wf w" "hazard_free w"
  shows "hazard_free w'"
  unfolding hazard_free_def
proof (intro allI impI)
  fix i j assume ij: "i < length (instructions w')" "j < length (instructions w')" "i \<noteq> j" "valids w' ! i" "valids w' ! j"
  have len: "length (instructions w') = length (instructions w)" "length (valids w) = length (instructions w)"
    using assms by (auto simp: progressed_def window_wf_def)
  have st: "static (instructions w' ! k) = static (instructions w ! k)" "valids w' ! k \<Longrightarrow> valids w ! k"
    if "k < length (instructions w)" for k
    using assms(1) that len by (auto simp: progressed_def)
  have "compatible (instructions w ! i) (instructions w ! j)"
    using assms(3) ij len st unfolding hazard_free_def by simp
  then show "compatible (instructions w' ! i) (instructions w' ! j)"
    using compatible_static[OF st(1) st(1), of i j] ij len by simp
qed

lemma issue_compute_progressed: "window_wf w \<Longrightarrow> progressed w (issueInstructionCompute w k)"
  unfolding issueInstructionCompute_def Let_def window_wf_def
  by (auto intro!: progressed_refl upd_instr_progressed map_valid_progressed
      progressed_trans[OF _ map_valid_progressed])

lemma issue_invalidate_progressed: "window_wf w \<Longrightarrow> progressed w (issueInstructionInvalidate w k t)"
  unfolding issueInstructionInvalidate_def window_wf_def
  by (rule progressed_trans[OF upd_instr_progressed map_valid_progressed]) auto

lemma finish_invalidate_progressed: "window_wf w \<Longrightarrow> progressed w (finishInstructionInvalidate w k t st)"
  unfolding finishInstructionInvalidate_def window_wf_def
  by (rule progressed_trans[OF upd_instr_progressed map_valid_progressed]) auto

lemma release_progressed:
  "progressed w ((upd_instr k (\<lambda>ins. ins\<lparr> istate := st \<rparr>) w)\<lparr> valids := (valids w)[s := False] \<rparr>)"
  by (auto simp: progressed_def upd_instr_def nth_list_update_if)

lemma finish_compute_progressed:
  assumes "window_wf w"
  shows "progressed w (finishInstructionCompute w k)"
proof -
  define w0 where "w0 = (upd_instr k (\<lambda>ins. ins\<lparr> istate := Instr_Finish \<rparr>) w)
    \<lparr> valids := (valids w)[nat (if_id (instructions w ! k)) := False] \<rparr>"
  have p0: "progressed w w0" unfolding w0_def by (rule release_progressed)
  have step: "progressed w w1 \<Longrightarrow> progressed w (map_valid (set_src_status d TS_Finished) w1)" for w1 d
    by (rule progressed_trans[OF _ map_valid_progressed])
      (use assms in \<open>simp_all add: progressed_def window_wf_def\<close>)
  show ?thesis
    unfolding finishInstructionCompute_def Let_def w0_def[symmetric] using p0 step by simp
qed

text \<open>What a push does when it is accepted.\<close>

lemma pushInstruction_True:
  assumes "pushInstruction w ins = Inr (True, w')"
  obtains i fu c where "i < length (instructions w)" "\<not> valids w ! i"
    "funcUnit_of_opcode (opcode ins) = Inr fu"
    "\<And>j. j < length (instructions w) \<Longrightarrow> valids w ! j \<Longrightarrow> \<not> hazard ins (instructions w ! j)"
    "w' = w\<lparr> instructions := (instructions w)[i := ins\<lparr> funcUniType := fu, if_id := int i \<rparr>],
             valids := (valids w)[i := True], completion_only_tiles := c \<rparr>"
    "\<And>j. j < i \<Longrightarrow> valids w ! j"
proof -
  obtain fu where fu: "funcUnit_of_opcode (opcode ins) = Inr fu"
    using assms by (auto simp: pushInstruction_def res_simps)
  have hz: "hazard (ins\<lparr> funcUniType := fu \<rparr>) old = hazard ins old" for old
    by (simp add: hazard_def range_clash_def)
  have nh: "\<not> list_ex (\<lambda>i. valids w ! i \<and> hazard (ins\<lparr> funcUniType := fu \<rparr>) (instructions w ! i)) [0..<length (instructions w)]"
    using assms fu by (auto simp: pushInstruction_def res_simps Let_def split: if_splits)
  obtain i where i: "find (\<lambda>i. \<not> valids w ! i) [0..<length (instructions w)] = Some i"
    using assms fu nh by (cases "find (\<lambda>i. \<not> valids w ! i) [0..<length (instructions w)]")
      (auto simp: pushInstruction_def res_simps Let_def split: if_splits)
  obtain c where w': "w' = w\<lparr> instructions := (instructions w)[i := ins\<lparr> funcUniType := fu, if_id := int i \<rparr>],
             valids := (valids w)[i := True], completion_only_tiles := c \<rparr>"
    using assms fu nh i by (auto simp: pushInstruction_def res_simps Let_def split: if_splits)
  have "\<not> hazard ins (instructions w ! j)" if "j < length (instructions w)" "valids w ! j" for j
    using nh that by (auto simp: list_ex_iff hz)
  then show thesis using that[OF _ _ fu _ w'] find_upt_Some[OF i] by blast
qed

text \<open>The steps of a window: what the controller, the units and the invalidator make it do.\<close>

inductive if_step :: "if_window \<Rightarrow> if_window \<Rightarrow> bool" where
  step_push: "pushInstruction w ins = Inr (b, w') \<Longrightarrow> if_step w w'"
| step_issue: "compute_ready w fu m k \<Longrightarrow> k < length (instructions w) \<Longrightarrow>
    if_step w (issueInstructionCompute w k)"
| step_invalidate: "invalidate_ready w k \<Longrightarrow> k < length (instructions w) \<Longrightarrow>
    if_step w (issueInstructionInvalidate w k (invalidate_tile (instructions w ! k)))"
| step_finish_invalidate: "k < length (instructions w) \<Longrightarrow>
    if_step w (finishInstructionInvalidate w k tile_id st)"
| step_finish_compute: "k < length (instructions w) \<Longrightarrow> valids w ! k \<Longrightarrow>
    if_step w (finishInstructionCompute w k)"

lemma push_False_same: "pushInstruction w ins = Inr (False, w') \<Longrightarrow> w' = w"
  by (auto simp: pushInstruction_def res_simps Let_def split: if_splits option.splits)

lemma push_keeps:
  assumes "pushInstruction w ins = Inr (b, w')" "window_wf w" "hazard_free w"
  shows "window_wf w' \<and> hazard_free w'"
proof (cases b)
  case False
  with assms(1) have "pushInstruction w ins = Inr (False, w')" by simp
  from push_False_same[OF this] assms(2,3) show ?thesis by simp
next
  case True
  with assms(1) have "pushInstruction w ins = Inr (True, w')" by simp
  then show ?thesis
  proof (rule pushInstruction_True)
    fix i fu c
    let ?new = "ins\<lparr> funcUniType := fu, if_id := int i \<rparr>"
    assume i: "i < length (instructions w)" "\<not> valids w ! i"
      and nh: "\<And>j. j < length (instructions w) \<Longrightarrow> valids w ! j \<Longrightarrow> \<not> hazard ins (instructions w ! j)"
      and w': "w' = w\<lparr> instructions := (instructions w)[i := ?new], valids := (valids w)[i := True],
                       completion_only_tiles := c \<rparr>"
    have len: "length (valids w) = length (instructions w)" using assms(2) by (simp add: window_wf_def)
    have nc: "compatible ?new (instructions w ! j)" if "j < length (instructions w)" "valids w ! j" for j
      using no_hazard_compatible[OF nh[OF that]] by (simp add: compatible_def writes_tile_def)
    have "hazard_free w'"
      unfolding hazard_free_def
    proof (intro allI impI)
      fix j k assume jk: "j < length (instructions w')" "k < length (instructions w')" "j \<noteq> k"
        "valids w' ! j" "valids w' ! k"
      show "compatible (instructions w' ! j) (instructions w' ! k)"
        using jk nc compatible_sym[OF nc] assms(3) len i
        by (auto simp: w' nth_list_update_if hazard_free_def split: if_splits)
    qed
    then show ?thesis using assms(2) i by (auto simp: w' window_wf_def nth_list_update_if)
  qed
qed

lemma if_step_keeps:
  assumes "if_step w w'" "window_wf w" "hazard_free w"
  shows "window_wf w' \<and> hazard_free w'"
  using assms(1)
proof cases
  case (step_push ins b)
  then show ?thesis using push_keeps assms by blast
next
  case (step_issue fu m k)
  then show ?thesis
    using issue_compute_progressed[OF assms(2)] progressed_wf progressed_hazard_free assms(2,3) by blast
next
  case (step_invalidate k)
  then show ?thesis
    using issue_invalidate_progressed[OF assms(2)] progressed_wf progressed_hazard_free assms(2,3) by blast
next
  case (step_finish_invalidate k tile_id st)
  then show ?thesis
    using finish_invalidate_progressed[OF assms(2)] progressed_wf progressed_hazard_free assms(2,3) by blast
next
  case (step_finish_compute k)
  then show ?thesis
    using finish_compute_progressed[OF assms(2)] progressed_wf progressed_hazard_free assms(2,3) by blast
qed

lemma set_rotated: "set (rotated r n) = {..<n}"
proof (cases "n = 0")
  case False
  define b where "b = r mod n"
  have b: "b < n" using False by (simp add: b_def)
  have "k \<in> (\<lambda>i. (b + i) mod n) ` {0..<n}" if "k < n" for k
  proof
    show "(k + (n - b)) mod n \<in> {0..<n}" using False by simp
    have "(b + (k + (n - b)) mod n) mod n = (b + (k + (n - b))) mod n" by (simp add: mod_add_right_eq)
    also have "b + (k + (n - b)) = k + n" using b by simp
    finally show "k = (b + (k + (n - b)) mod n) mod n" using that by simp
  qed
  then show ?thesis using False by (auto simp: rotated_def b_def[symmetric])
qed (simp add: rotated_def)

lemma getReady_scan_Some:
  "getReady_scan permit single w fu m is r = Inr (Some i, r') \<Longrightarrow> i \<in> set is \<and> compute_ready w fu m i"
  by (induction "is" arbitrary: r) (auto simp: res_simps split: if_splits)

lemma getReady_scan_single:
  "getReady_scan permit True w fu m is r = Inr (find (compute_ready w fu m) is, r)"
  by (induction "is") auto

text \<open>After an issue, everything that uses a destination of the issued instruction is in service.\<close>

definition in_service :: "int \<Rightarrow> Instruction \<Rightarrow> bool" where
  "in_service d ins \<longleftrightarrow>
     (src1SpdID ins = d \<longrightarrow> src1Status ins = TS_Service) \<and> (src2SpdID ins = d \<longrightarrow> src2Status ins = TS_Service) \<and>
     (condSpdID ins = d \<longrightarrow> condStatus ins = TS_Service) \<and> (dst1SpdID ins = d \<longrightarrow> dst1Status ins = TS_Service) \<and>
     (dst2SpdID ins = d \<longrightarrow> dst2Status ins = TS_Service)"

lemma in_service_set: "in_service d (set_dst_status d TS_Service (set_src_status d TS_Service ins))"
  by (simp add: in_service_def set_dst_status_def set_src_status_def)

lemma in_service_keep: "in_service d ins \<Longrightarrow> in_service d (set_dst_status e TS_Service (set_src_status e TS_Service ins))"
  by (simp add: in_service_def set_dst_status_def set_src_status_def)

lemma istate_status [simp]: "istate (set_dst_status d a ins) = istate ins" "istate (set_src_status d a ins) = istate ins"
  by (simp_all add: set_dst_status_def set_src_status_def)

lemma issue_compute_effect:
  assumes wf: "window_wf w" and k: "k < length (instructions w)"
  shows "istate (instructions (issueInstructionCompute w k) ! k) = Instr_Service"
    and "valids (issueInstructionCompute w k) = valids w"
    and "j < length (instructions w) \<Longrightarrow> valids w ! j \<Longrightarrow> d \<noteq> - 1 \<Longrightarrow> writes_tile (instructions w ! k) d \<Longrightarrow>
         in_service d (instructions (issueInstructionCompute w k) ! j)"
proof -
  have len: "length (valids w) = length (instructions w)" using wf by (simp add: window_wf_def)
  define w0 where "w0 = upd_instr k (\<lambda>ins. ins\<lparr> istate := Instr_Service \<rparr>) w"
  have w0: "length (valids w0) = length (instructions w0)" "valids w0 = valids w"
    "length (instructions w0) = length (instructions w)" "istate (instructions w0 ! k) = Instr_Service"
    using len k by (simp_all add: w0_def)
  note unf = issueInstructionCompute_def Let_def w0_def[symmetric]
  show "istate (instructions (issueInstructionCompute w k) ! k) = Instr_Service"
    unfolding unf using w0 k by (simp add: map_valid_nth)
  show "valids (issueInstructionCompute w k) = valids w"
    unfolding unf using w0 by simp
  show "in_service d (instructions (issueInstructionCompute w k) ! j)"
    if "j < length (instructions w)" "valids w ! j" "d \<noteq> - 1" "writes_tile (instructions w ! k) d"
    unfolding unf using that w0
    by (auto simp: map_valid_nth writes_tile_def in_service_set intro: in_service_keep)
qed

lemma finish_compute_effect:
  assumes wf: "window_wf w" and k: "k < length (instructions w)" "valids w ! k"
  shows "valids (finishInstructionCompute w k) = (valids w)[k := False]"
    and "j < length (instructions w) \<Longrightarrow> j \<noteq> k \<Longrightarrow> valids w ! j \<Longrightarrow> writes_tile (instructions w ! k) d \<Longrightarrow>
         (let ins = instructions (finishInstructionCompute w k) ! j in
          (src1SpdID ins = d \<longrightarrow> src1Status ins = TS_Finished) \<and> (src2SpdID ins = d \<longrightarrow> src2Status ins = TS_Finished) \<and>
          (condSpdID ins = d \<longrightarrow> condStatus ins = TS_Finished))"
proof -
  have len: "length (valids w) = length (instructions w)" and slot: "if_id (instructions w ! k) = int k"
    using wf k by (auto simp: window_wf_def)
  define w0 where "w0 = (upd_instr k (\<lambda>ins. ins\<lparr> istate := Instr_Finish \<rparr>) w)\<lparr> valids := (valids w)[k := False] \<rparr>"
  have w0: "length (valids w0) = length (instructions w0)" "valids w0 = (valids w)[k := False]"
    "length (instructions w0) = length (instructions w)"
    using len by (simp_all add: w0_def upd_instr_def)
  have unf: "finishInstructionCompute w k =
    (let w1 = (if dst1SpdID (instructions w ! k) \<noteq> - 1 then map_valid (set_src_status (dst1SpdID (instructions w ! k)) TS_Finished) w0 else w0)
     in if dst2SpdID (instructions w ! k) \<noteq> - 1 then map_valid (set_src_status (dst2SpdID (instructions w ! k)) TS_Finished) w1 else w1)"
    by (simp add: finishInstructionCompute_def Let_def w0_def slot)
  show "valids (finishInstructionCompute w k) = (valids w)[k := False]"
    unfolding unf Let_def using w0 by simp
  show "let ins = instructions (finishInstructionCompute w k) ! j in
          (src1SpdID ins = d \<longrightarrow> src1Status ins = TS_Finished) \<and> (src2SpdID ins = d \<longrightarrow> src2Status ins = TS_Finished) \<and>
          (condSpdID ins = d \<longrightarrow> condStatus ins = TS_Finished)"
    if "j < length (instructions w)" "j \<noteq> k" "valids w ! j" "writes_tile (instructions w ! k) d"
    unfolding unf Let_def using that w0
    by (auto simp: map_valid_nth writes_tile_def set_src_status_def)
qed

section \<open>Properties\<close>

definition ld_demo :: "int \<Rightarrow> AccessType \<Rightarrow> Instruction" where
  "ld_demo d acc = (Instruction_init 0 0 2 acc)\<lparr> opcode := STREAM_LD, datatyp := UINT32_TYPE,
     dst1SpdID := d, dst1Status := WaitForService, dst2Status := TS_Finished, src1Status := TS_Finished,
     src2Status := TS_Finished, condStatus := TS_Finished, maa_id := 0 \<rparr>"

definition win_demo :: if_window where
  "win_demo = IF_init 2 4 (Instruction_init 0 0 0 READ)"

lemma win_demo_inv: "window_wf win_demo" "hazard_free win_demo"
  by (simp_all add: win_demo_def IF_init_def window_wf_def hazard_free_def)

text \<open>
  C3.  Hazard freedom: in every state a window reaches from its constructor, by pushes, issues,
  invalidations and completions in any order, two different valid instructions never write the same
  tile, and on a memory region a writer never coexists with another reader or writer.
\<close>

theorem if_reachable_hazard_free:
  assumes "if_step\<^sup>*\<^sup>* (IF_init n ntiles ins0) w"
    and "i < length (instructions w)" "j < length (instructions w)" "i \<noteq> j" "valids w ! i" "valids w ! j"
  shows "(\<forall>d. \<not> (writes_tile (instructions w ! i) d \<and> writes_tile (instructions w ! j) d)) \<and>
         \<not> (addrRangeID (instructions w ! i) = addrRangeID (instructions w ! j) \<and>
            accessType (instructions w ! i) = WRITE \<and> accessType (instructions w ! j) \<in> {READ, WRITE})"
proof -
  have "window_wf w \<and> hazard_free w"
    using assms(1)
  proof (induction rule: rtranclp_induct)
    case base
    show ?case by (simp add: IF_init_def window_wf_def hazard_free_def)
  next
    case (step w w')
    then show ?case using if_step_keeps by blast
  qed
  then have "compatible (instructions w ! i) (instructions w ! j)"
    using assms(2-) by (auto simp: hazard_free_def)
  then show ?thesis by (auto simp: compatible_def)
qed

theorem if_reachable_hazard_free_witness:
  "\<exists>w. if_step\<^sup>*\<^sup>* (IF_init 2 4 (Instruction_init 0 0 0 READ)) w \<and> valids w = [True, True] \<and>
       \<not> (writes_tile (instructions w ! 0) 1 \<and> writes_tile (instructions w ! 1) 1)"
proof -
  let ?w0 = "IF_init 2 4 (Instruction_init 0 0 0 READ)"
  have "(case pushInstruction ?w0 (ld_demo 1 READ) of Inl _ \<Rightarrow> False | Inr x \<Rightarrow>
          (case pushInstruction (snd x) (ld_demo 2 READ) of Inl _ \<Rightarrow> False | Inr y \<Rightarrow>
             valids (snd y) = [True, True] \<and> length (instructions (snd y)) = 2))"
    by code_simp
  then obtain b1 w1 b2 w2 where p1: "pushInstruction ?w0 (ld_demo 1 READ) = Inr (b1, w1)"
    and p: "pushInstruction w1 (ld_demo 2 READ) = Inr (b2, w2)" "valids w2 = [True, True]" "length (instructions w2) = 2"
    by (elim case_okE) (metis prod.collapse)
  have r: "if_step\<^sup>*\<^sup>* ?w0 w2"
    using step_push[OF p1] step_push[OF p(1)] by (meson rtranclp.rtrancl_into_rtrancl r_into_rtranclp)
  from if_reachable_hazard_free[OF r, of 0 1] p r show ?thesis by auto
qed

text \<open>
  C10.  Admission: when no source is a completion token and the destinations are tile numbers of the
  scratchpad, a push returns, and it is accepted exactly when there is a free slot and no valid
  instruction reads or writes one of the new destinations or conflicts on its memory region.  An
  accepted instruction goes to the first free slot; a refused push changes nothing.
\<close>

theorem pushInstruction_accepts_iff:
  assumes "funcUnit_of_opcode (opcode ins) = Inr fu"
    and "\<forall>t \<in> {src1SpdID ins, src2SpdID ins, condSpdID ins}. is_ok (reject_completion_source w t)"
    and "\<forall>t \<in> {dst1SpdID ins, dst2SpdID ins}. t = - 1 \<or> 0 \<le> t \<and> nat t < length (completion_only_tiles w)"
  shows "\<exists>b w'. pushInstruction w ins = Inr (b, w') \<and>
    (b \<longleftrightarrow> (\<exists>i < length (instructions w). \<not> valids w ! i) \<and>
           (\<forall>j < length (instructions w). valids w ! j \<longrightarrow>
              (\<forall>d \<in> {dst1SpdID ins, dst2SpdID ins}. \<not> writes_tile (instructions w ! j) d \<and> \<not> reads_tile (instructions w ! j) d) \<and>
              \<not> range_clash ins (instructions w ! j))) \<and>
    (\<not> b \<longrightarrow> w' = w) \<and>
    (b \<longrightarrow> (\<exists>i. i < length (instructions w) \<and> \<not> valids w ! i \<and> (\<forall>j<i. valids w ! j) \<and>
             instructions w' = (instructions w)[i := ins\<lparr> funcUniType := fu, if_id := int i \<rparr>] \<and>
             valids w' = (valids w)[i := True]))"
proof -
  let ?hz = "list_ex (\<lambda>i. valids w ! i \<and> hazard (ins\<lparr> funcUniType := fu \<rparr>) (instructions w ! i)) [0..<length (instructions w)]"
  have hz: "?hz \<longleftrightarrow> (\<exists>j < length (instructions w). valids w ! j \<and> hazard ins (instructions w ! j))"
    by (auto simp: list_ex_iff hazard_def range_clash_def)
  have hz': "hazard ins old \<longleftrightarrow> \<not> ((\<forall>d \<in> {dst1SpdID ins, dst2SpdID ins}. \<not> writes_tile old d \<and> \<not> reads_tile old d)
      \<and> \<not> range_clash ins old)" for old
    by (auto simp: hazard_def dst_clash_iff)
  have src: "reject_completion_source w (src1SpdID ins) = Inr ()" "reject_completion_source w (src2SpdID ins) = Inr ()"
    "reject_completion_source w (condSpdID ins) = Inr ()"
    using assms(2) by (auto elim!: is_okE)
  obtain c1 where c1: "mark_completion (completion_only_tiles w) (dst1SpdID ins) (opcode ins = INDIR_LD_VIRTUAL) = Inr c1"
    "length c1 = length (completion_only_tiles w)"
    using assms(3) by (auto simp: mark_completion_def arr_set_def)
  obtain c2 where c2: "mark_completion c1 (dst2SpdID ins) False = Inr c2"
    using assms(3) c1(2) by (auto simp: mark_completion_def arr_set_def)
  show ?thesis
  proof (cases ?hz)
    case True
    then have "pushInstruction w ins = Inr (False, w)"
      using src assms(1) by (simp add: pushInstruction_def Let_def)
    then show ?thesis using True hz hz' by auto
  next
    case False
    show ?thesis
    proof (cases "find (\<lambda>i. \<not> valids w ! i) [0..<length (instructions w)]")
      case None
      then have "pushInstruction w ins = Inr (False, w)"
        using src assms(1) by (simp add: pushInstruction_def Let_def)
      then show ?thesis using None by (auto simp: find_upt_None)
    next
      case (Some i)
      then have "pushInstruction w ins = Inr (True, w\<lparr> instructions := (instructions w)[i := ins\<lparr> funcUniType := fu, if_id := int i \<rparr>],
          valids := (valids w)[i := True], completion_only_tiles := c2 \<rparr>)"
        using src assms(1) False c1(1) c2 by (simp add: pushInstruction_def Let_def)
      then show ?thesis using find_upt_Some[OF Some] False hz hz' by (intro exI conjI) auto
    qed
  qed
qed

theorem pushInstruction_accepts_iff_witness:
  "\<exists>w'. pushInstruction win_demo (ld_demo 1 READ) = Inr (True, w') \<and> valids w' = [True, False]"
proof -
  have a: "funcUnit_of_opcode (opcode (ld_demo 1 READ)) = Inr STREAM"
    "\<forall>t \<in> {src1SpdID (ld_demo 1 READ), src2SpdID (ld_demo 1 READ), condSpdID (ld_demo 1 READ)}.
       is_ok (reject_completion_source win_demo t)"
    "\<forall>t \<in> {dst1SpdID (ld_demo 1 READ), dst2SpdID (ld_demo 1 READ)}.
       t = - 1 \<or> 0 \<le> t \<and> nat t < length (completion_only_tiles win_demo)"
    by (simp_all add: ld_demo_def Instruction_init_def funcUnit_of_opcode_def reject_completion_source_def
        win_demo_def IF_init_def)
  have v: "valids win_demo = [False, False]" "length (instructions win_demo) = 2"
    by (simp_all add: win_demo_def IF_init_def numeral_2_eq_2)
  have "(case pushInstruction win_demo (ld_demo 1 READ) of Inr (True, _) \<Rightarrow> True | _ \<Rightarrow> False)"
    by code_simp
  then obtain w' where p: "pushInstruction win_demo (ld_demo 1 READ) = Inr (True, w')"
    by (auto split: sum.splits bool.splits)
  obtain i where "i < 2" "\<forall>j<i. valids win_demo ! j" "valids w' = (valids win_demo)[i := True]"
    using pushInstruction_accepts_iff[OF a] p v(2) by auto
  then show ?thesis using v p by (cases i) auto
qed



text \<open>
  C12.  Work conservation: with one accelerator, \<open>getReady\<close> never fails for a unit request and
  returns no instruction only if no instruction of the window is ready for that unit, whatever the
  random starting slot.
\<close>

theorem getReady_work_conserving:
  assumes "fu \<noteq> INVALIDATOR" "m \<noteq> - 1"
  shows "\<exists>x w'. getReady_compute permit True w fu m rnd r = Inr (x, w', r) \<and>
           (x = None \<longleftrightarrow> (\<forall>i < length (instructions w). \<not> compute_ready w fu m i)) \<and>
           (x = None \<longrightarrow> w' = w)"
proof (cases "find (compute_ready w fu m) (rotated rnd (length (instructions w)))")
  case None
  then have "\<forall>i < length (instructions w). \<not> compute_ready w fu m i"
    by (auto simp: find_None_iff set_rotated)
  with None show ?thesis using assms by (auto simp: getReady_compute_def getReady_scan_single)
next
  case (Some k)
  then have "k \<in> set (rotated rnd (length (instructions w)))" "compute_ready w fu m k"
    by (auto simp: find_Some_iff)
  then show ?thesis using assms Some
    by (auto simp: getReady_compute_def getReady_scan_single set_rotated)
qed

theorem getReady_work_conserving_witness:
  "\<exists>w'. getReady_compute (\<lambda>r _. Inr (True, r)) True win_demo ALU 0 5 () = Inr (None, w', ())"
  using getReady_work_conserving[of ALU 0 "\<lambda>r _. Inr (True, r)" win_demo 5 "()"]
  by (auto simp: compute_ready_def win_demo_def IF_init_def)

text \<open>
  C13.  Completion: finishing an instruction frees exactly its slot, and every valid instruction that
  reads one of its destination tiles then sees that source as finished.
\<close>

theorem finish_releases_readers:
  assumes "window_wf w" "k < length (instructions w)" "valids w ! k"
  shows "valids (finishInstructionCompute w k) = (valids w)[k := False] \<and>
    (\<forall>j < length (instructions w). \<forall>d. valids (finishInstructionCompute w k) ! j \<longrightarrow>
       writes_tile (instructions w ! k) d \<longrightarrow>
       (let ins = instructions (finishInstructionCompute w k) ! j in
          (src1SpdID ins = d \<longrightarrow> src1Status ins = TS_Finished) \<and> (src2SpdID ins = d \<longrightarrow> src2Status ins = TS_Finished) \<and>
          (condSpdID ins = d \<longrightarrow> condStatus ins = TS_Finished)))"
proof -
  have len: "length (valids w) = length (instructions w)" using assms(1) by (simp add: window_wf_def)
  have v: "valids (finishInstructionCompute w k) ! j \<Longrightarrow> j \<noteq> k \<and> valids w ! j" for j
    using finish_compute_effect(1)[OF assms] assms(2) len by (auto simp: nth_list_update_if split: if_splits)
  show ?thesis using finish_compute_effect[OF assms] v by blast
qed

theorem finish_releases_readers_witness:
  "\<exists>b w. pushInstruction win_demo (ld_demo 1 READ) = Inr (b, w) \<and>
         valids (finishInstructionCompute w 0) = [False, False]"
proof -
  have "(case pushInstruction win_demo (ld_demo 1 READ) of Inl _ \<Rightarrow> False | Inr x \<Rightarrow>
          valids (snd x) = [True, False] \<and> length (instructions (snd x)) = 2)"
    by code_simp
  then obtain b w where p: "pushInstruction win_demo (ld_demo 1 READ) = Inr (b, w)"
    "valids w = [True, False]" "length (instructions w) = 2"
    by (elim case_okE) (metis prod.collapse)
  have "window_wf w" using push_keeps[OF p(1) win_demo_inv] by simp
  from finish_releases_readers[OF this, of 0] p show ?thesis by auto
qed


end
