(* ===== verification/Invalidator_Model.thy ===== *)
theory Invalidator_Model
  imports IF_Model
begin

text \<open>
  The invalidator (\<open>Invalidator.hh\<close>, \<open>Invalidator.cc\<close>).  It has two parts.  The region
  directory decides which accelerator may read or write a memory region: a state per accelerator and
  region, and a queue of instructions that wait out the transient states.  The tile invalidator walks
  the cache lines of a tile and snoops the cached ones out of the cores.  The tick of the clock edge
  a given number of cycles ahead and the reply of the cores to a snoop are parameters; the snoop
  reply may depend on a state of the environment.  Instructions in the queue are identified by
  accelerator and slot, which is what their addresses stand for in the code.
\<close>

section \<open>State\<close>

datatype CLStatus = Uncached | ReadCached | WriteCached

datatype RGStatus =
    RG_Invalid | TransientShared | UnusedShared | UsingShared | UsedShared
  | TransientModified | UnusedModified | UsingModified | UsedModified

datatype InvStatus = Inv_Idle | Inv_Decode | Inv_Request | Inv_Response

record invalidator =
  inv_num_maas :: nat
  inv_num_tiles :: nat
  inv_num_tile_elements :: nat
  my_base_addr :: Addr
  cl_status :: "CLStatus list"
  rg_status :: "RGStatus list list"
  transientInstructions :: "Instruction list"
  transientTicks :: "Tick list"
  transient_event :: "Tick option"
  inv_state :: InvStatus
  my_instruction :: "Instruction option"
  my_invalidating_tile :: int
  my_word_size :: nat
  my_i :: nat
  my_cl_id :: int
  my_last_block_addr :: Addr
  my_outstanding_pkt :: bool
  my_received_responses :: nat
  my_total_invalidations_sent :: nat
  inv_stat_lines :: nat

definition Invalidator_allocate :: "nat \<Rightarrow> nat \<Rightarrow> nat \<Rightarrow> Addr \<Rightarrow> invalidator" where
  "Invalidator_allocate nmaas ntiles nelems base =
     \<lparr> inv_num_maas = nmaas, inv_num_tiles = ntiles, inv_num_tile_elements = nelems, my_base_addr = base,
       cl_status = replicate (ntiles * nelems * 4 div 64) Uncached,
       rg_status = replicate nmaas (replicate ntiles RG_Invalid),
       transientInstructions = [], transientTicks = [], transient_event = None,
       inv_state = Inv_Idle, my_instruction = None, my_invalidating_tile = - 1, my_word_size = 0,
       my_i = 0, my_cl_id = - 1, my_last_block_addr = 0, my_outstanding_pkt = False,
       my_received_responses = 0, my_total_invalidations_sent = 0, inv_stat_lines = 0 \<rparr>"

section \<open>The region directory\<close>

definition rg_get :: "invalidator \<Rightarrow> int \<Rightarrow> int \<Rightarrow> RGStatus res" where
  "rg_get v m r = rbind (arr_get (rg_status v) m) (\<lambda>row. arr_get row r)"

definition rg_set :: "invalidator \<Rightarrow> int \<Rightarrow> int \<Rightarrow> RGStatus \<Rightarrow> invalidator res" where
  "rg_set v m r st =
     rbind (arr_get (rg_status v) m) (\<lambda>row.
     rbind (arr_set row r st) (\<lambda>row'. Inr (v\<lparr> rg_status := (rg_status v)[nat m := row'] \<rparr>)))"

text \<open>The column of a region, and a loop that rewrites the statuses of a column.\<close>

definition rg_any :: "invalidator \<Rightarrow> int \<Rightarrow> RGStatus set \<Rightarrow> bool" where
  "rg_any v r S \<longleftrightarrow> list_ex (\<lambda>row. row ! nat r \<in> S) (rg_status v)"

definition rg_demote :: "invalidator \<Rightarrow> int \<Rightarrow> RGStatus set \<Rightarrow> RGStatus \<Rightarrow> invalidator" where
  "rg_demote v r S to_st =
     v\<lparr> rg_status := map (\<lambda>row. if row ! nat r \<in> S then row[nat r := to_st] else row) (rg_status v) \<rparr>"

definition schedule_min :: "Tick option \<Rightarrow> Tick \<Rightarrow> Tick option" where
  "schedule_min ev t = (case ev of None \<Rightarrow> Some t | Some t0 \<Rightarrow> Some (if t < t0 then t else t0))"

definition same_instruction :: "Instruction \<Rightarrow> Instruction \<Rightarrow> bool" where
  "same_instruction a b \<longleftrightarrow> maa_id a = maa_id b \<and> if_id a = if_id b"

text \<open>Entering a transient state: set it, queue the instruction, schedule the event in 100 cycles.\<close>

definition enter_transient ::
  "(Cycles \<Rightarrow> Tick) \<Rightarrow> invalidator \<Rightarrow> Instruction \<Rightarrow> RGStatus \<Rightarrow> (bool \<times> invalidator) res" where
  "enter_transient clockEdge v ins st =
     rbind (rg_set v (maa_id ins) (addrRangeID ins) st) (\<lambda>v1.
       if list_ex (same_instruction ins) (transientInstructions v1) then Inl Panic
       else Inr (False, v1\<lparr> transientInstructions := transientInstructions v1 @ [ins],
                           transientTicks := transientTicks v1 @ [clockEdge 100],
                           transient_event := schedule_min (transient_event v1) (clockEdge 100) \<rparr>))"

definition getAddrRegionPermit ::
  "(Cycles \<Rightarrow> Tick) \<Rightarrow> invalidator \<Rightarrow> Instruction \<Rightarrow> (bool \<times> invalidator) res" where
  "getAddrRegionPermit clockEdge v ins =
     (let m = maa_id ins; r = addrRangeID ins in
      case accessType ins of
        COMPUTE \<Rightarrow> Inr (True, v)
      | READ \<Rightarrow>
          rbind (rg_get v m r) (\<lambda>st. case st of
            RG_Invalid \<Rightarrow>
              if rg_any v r {TransientModified, UnusedModified, UsingModified} then Inr (False, v)
              else enter_transient clockEdge (rg_demote v r {UsedModified} UsedShared) ins TransientShared
          | TransientShared \<Rightarrow> Inr (False, v)
          | UnusedShared \<Rightarrow> rbind (rg_set v m r UsingShared) (\<lambda>v'. Inr (True, v'))
          | UsedShared \<Rightarrow> rbind (rg_set v m r UsingShared) (\<lambda>v'. Inr (True, v'))
          | UsingShared \<Rightarrow> Inr (False, v)
          | TransientModified \<Rightarrow> Inr (False, v)
          | UnusedModified \<Rightarrow> Inr (False, v)
          | UsingModified \<Rightarrow> Inr (False, v)
          | UsedModified \<Rightarrow> rbind (rg_set v m r UsingModified) (\<lambda>v'. Inr (True, v')))
      | WRITE \<Rightarrow>
          rbind (rg_get v m r) (\<lambda>st.
            if st = RG_Invalid \<or> st = UsedShared then
              if rg_any v r {TransientModified, UnusedModified, UsingModified,
                             TransientShared, UnusedShared, UsingShared} then Inr (False, v)
              else enter_transient clockEdge (rg_demote v r {UsedModified, UsedShared} RG_Invalid) ins TransientModified
            else if st = UnusedModified \<or> st = UsedModified then
              rbind (rg_set v m r UsingModified) (\<lambda>v'. Inr (True, v'))
            else Inr (False, v))
      | AccessType_MAX \<Rightarrow> Inl Panic)"

text \<open>One turn of the loop of \<open>transientInstruction\<close>: the state the waiting region moves to.\<close>

definition leave_transient :: "invalidator \<Rightarrow> Instruction \<Rightarrow> invalidator res" where
  "leave_transient v ins =
     rbind (rg_get v (maa_id ins) (addrRangeID ins)) (\<lambda>st.
       if st = TransientShared then
         if accessType ins \<noteq> READ then Inl Panic else rg_set v (maa_id ins) (addrRangeID ins) UnusedShared
       else if st = TransientModified then
         if accessType ins \<noteq> WRITE then Inl Panic else rg_set v (maa_id ins) (addrRangeID ins) UnusedModified
       else Inl Panic)"

text \<open>
  The loop stops at the first instruction whose tick lies ahead.  The result tells whether any
  transition happened, which makes the controller try to issue again.
\<close>

fun transient_loop :: "Tick \<Rightarrow> Instruction list \<Rightarrow> Tick list \<Rightarrow> bool \<Rightarrow> invalidator \<Rightarrow>
    (bool \<times> Tick option \<times> invalidator) res" where
  "transient_loop now (ins # is) (t # ts) happened v =
     (if t > now then
        Inr (happened, Some (t - now), v\<lparr> transientInstructions := ins # is, transientTicks := t # ts \<rparr>)
      else rbind (leave_transient v ins) (\<lambda>v'. transient_loop now is ts True v'))"
| "transient_loop now is ts happened v =
     Inr (happened, None, v\<lparr> transientInstructions := is, transientTicks := ts \<rparr>)"

definition transientInstruction ::
  "(Cycles \<Rightarrow> Tick) \<Rightarrow> nat \<Rightarrow> Tick \<Rightarrow> invalidator \<Rightarrow> (bool \<times> invalidator) res" where
  "transientInstruction clockEdge period now v =
     rbind (transient_loop now (transientInstructions v) (transientTicks v) False (v\<lparr> transient_event := None \<rparr>))
       (\<lambda>(happened, remaining, v').
          Inr (happened, case remaining of None \<Rightarrow> v'
             | Some t \<Rightarrow> v'\<lparr> transient_event :=
                 schedule_min (transient_event v') (clockEdge (ticksToCycles period t)) \<rparr>))"

definition inv_finishInstruction :: "invalidator \<Rightarrow> Instruction \<Rightarrow> invalidator res" where
  "inv_finishInstruction v ins =
     (let m = maa_id ins; r = addrRangeID ins in
      if accessType ins = READ then
        rbind (rg_get v m r) (\<lambda>st.
          if st = UsingShared then rg_set v m r UsedShared
          else if st = UsingModified then rg_set v m r UsedModified
          else Inl Panic)
      else if accessType ins = WRITE then
        rbind (rg_get v m r) (\<lambda>st.
          if st \<noteq> UsingModified then Inl Panic else rg_set v m r UsedModified)
      else Inr v)"

section \<open>The tile invalidator\<close>

datatype snoop_reply = Send_Failed | Cache_Responds | No_Cache_Responds

definition get_cl_id :: "invalidator \<Rightarrow> int \<Rightarrow> int \<Rightarrow> nat \<Rightarrow> int" where
  "get_cl_id v tile_id element_id word_size =
     (tile_id * int (inv_num_tile_elements v) * 4 + element_id * int word_size) div 64"

definition inv_mark :: "CLStatus \<Rightarrow> invalidator \<Rightarrow> int \<Rightarrow> int \<Rightarrow> invalidator res" where
  "inv_mark st v tile_id element_id =
     (if \<not> (0 \<le> tile_id \<and> tile_id < int (inv_num_tiles v)) then Inl Assert_Fail
      else if \<not> (0 \<le> element_id \<and> element_id < int (inv_num_tile_elements v)) then Inl Assert_Fail
      else rbind (arr_set (cl_status v) (get_cl_id v tile_id element_id 4) st) (\<lambda>cs.
             Inr (v\<lparr> cl_status := cs \<rparr>)))"

definition inv_read :: "invalidator \<Rightarrow> int \<Rightarrow> int \<Rightarrow> invalidator res" where
  "inv_read v tile_id element_id = inv_mark ReadCached v tile_id element_id"

definition inv_write :: "invalidator \<Rightarrow> int \<Rightarrow> int \<Rightarrow> invalidator res" where
  "inv_write v tile_id element_id = inv_mark WriteCached v tile_id element_id"

definition inv_setInstruction :: "invalidator \<Rightarrow> Instruction \<Rightarrow> invalidator res" where
  "inv_setInstruction v ins =
     (if my_instruction v \<noteq> None then Inl Assert_Fail else Inr (v\<lparr> my_instruction := Some ins \<rparr>))"

definition createMyPacket :: "invalidator \<Rightarrow> invalidator" where
  "createMyPacket v = v\<lparr> my_outstanding_pkt := True, inv_stat_lines := Suc (inv_stat_lines v) \<rparr>"

definition sendOutstandingPacket ::
  "('e \<Rightarrow> Addr \<Rightarrow> snoop_reply \<times> 'e) \<Rightarrow> 'e \<Rightarrow> invalidator \<Rightarrow> (bool \<times> 'e \<times> invalidator) res" where
  "sendOutstandingPacket snoop e v =
     (case snoop e (my_last_block_addr v) of
        (Send_Failed, e') \<Rightarrow> Inr (False, e', v)
      | (Cache_Responds, e') \<Rightarrow> Inr (True, e', v)
      | (No_Cache_Responds, e') \<Rightarrow>
          rbind (arr_set (cl_status v) (my_cl_id v) Uncached) (\<lambda>cs.
            Inr (True, e', v\<lparr> my_received_responses := Suc (my_received_responses v), cl_status := cs \<rparr>)))"

definition decode_tile :: "Instruction \<Rightarrow> int" where
  "decode_tile ins =
     (let t1 = (if dst1Status ins = Invalidating then dst1SpdID ins else - 1);
          t2 = (if t1 = - 1 \<and> dst2Status ins = Invalidating then dst2SpdID ins else t1);
          t3 = (if t2 = - 1 \<and> src1Status ins = Invalidating then src1SpdID ins else t2);
          t4 = (if t3 = - 1 \<and> src2Status ins = Invalidating then src2SpdID ins else t3)
      in if t4 = - 1 \<and> condStatus ins = Invalidating then condSpdID ins else t4)"

definition inv_decode :: "invalidator \<Rightarrow> Instruction \<Rightarrow> invalidator res" where
  "inv_decode v ins =
     (let tile = decode_tile ins in
      if tile = - 1 then Inl Panic
      else rbind (getWordSize ins tile) (\<lambda>ws.
        Inr (v\<lparr> my_invalidating_tile := tile, my_word_size := ws, my_i := 0, my_last_block_addr := 0,
                my_outstanding_pkt := False, my_received_responses := 0,
                my_total_invalidations_sent := 0, my_cl_id := - 1, inv_state := Inv_Request \<rparr>)))"

text \<open>The request loop over the elements left.  \<open>False\<close>: a send failed and the loop returned.\<close>

fun inv_request_loop ::
  "('e \<Rightarrow> Addr \<Rightarrow> snoop_reply \<times> 'e) \<Rightarrow> nat list \<Rightarrow> 'e \<Rightarrow> invalidator \<Rightarrow> (bool \<times> 'e \<times> invalidator) res" where
  "inv_request_loop snoop [] e v = Inr (True, e, v\<lparr> my_i := inv_num_tile_elements v \<rparr>)"
| "inv_request_loop snoop (i # is) e v =
     (let cl = get_cl_id v (my_invalidating_tile v) (int i) (my_word_size v);
          v1 = v\<lparr> my_i := i, my_cl_id := cl \<rparr> in
      rbind (arr_get (cl_status v1) cl) (\<lambda>st.
        if st \<noteq> Uncached then
          (let addr = my_base_addr v1 + word_of_int (cl * 64) in
           if addr \<noteq> my_last_block_addr v1 then
             rbind (sendOutstandingPacket snoop e
                (let v2 = createMyPacket (v1\<lparr> my_last_block_addr := addr \<rparr>) in
                 v2\<lparr> my_total_invalidations_sent := Suc (my_total_invalidations_sent v2) \<rparr>))
               (\<lambda>(ok, e', v3).
                  if ok then inv_request_loop snoop is e' v3
                  else Inr (False, e', v3\<lparr> my_i := Suc i \<rparr>))
           else inv_request_loop snoop is e v1)
        else inv_request_loop snoop is e v1))"

definition inv_request ::
  "('e \<Rightarrow> Addr \<Rightarrow> snoop_reply \<times> 'e) \<Rightarrow> 'e \<Rightarrow> invalidator \<Rightarrow> (bool \<times> 'e \<times> invalidator) res" where
  "inv_request snoop e v =
     rbind (if my_outstanding_pkt v then sendOutstandingPacket snoop e v else Inr (True, e, v))
       (\<lambda>(ok, e1, v1).
          if \<not> ok then Inr (False, e1, v1)
          else rbind (inv_request_loop snoop [my_i v1..<inv_num_tile_elements v1] e1 v1) (\<lambda>(done1, e2, v2).
            if done1 then Inr (True, e2, v2\<lparr> inv_state := Inv_Response \<rparr>) else Inr (False, e2, v2)))"

text \<open>In \<open>Response\<close>: the finished instruction and tile are reported to the controller.\<close>

definition inv_response :: "invalidator \<Rightarrow> ((Instruction \<times> int) option \<times> invalidator) res" where
  "inv_response v =
     (case my_instruction v of
        None \<Rightarrow> Inl Assert_Fail
      | Some ins \<Rightarrow>
          if my_received_responses v = my_total_invalidations_sent v
          then Inr (Some (ins, my_invalidating_tile v), v\<lparr> inv_state := Inv_Idle, my_instruction := None \<rparr>)
          else Inr (None, v))"

definition inv_executeInstruction ::
  "('e \<Rightarrow> Addr \<Rightarrow> snoop_reply \<times> 'e) \<Rightarrow> 'e \<Rightarrow> invalidator \<Rightarrow>
   ((Instruction \<times> int) option \<times> 'e \<times> invalidator) res" where
  "inv_executeInstruction snoop e v =
     (case my_instruction v of
        None \<Rightarrow> Inl Assert_Fail
      | Some ins \<Rightarrow>
          rbind (if inv_state v = Inv_Idle \<or> inv_state v = Inv_Decode then inv_decode v ins else Inr v) (\<lambda>v1.
          rbind (if inv_state v1 = Inv_Request then inv_request snoop e v1 else Inr (True, e, v1)) (\<lambda>(ok, e2, v2).
            if ok then rbind (inv_response v2) (\<lambda>(x, v3). Inr (x, e2, v3)) else Inr (None, e2, v2))))"

definition inv_recvData ::
  "invalidator \<Rightarrow> spd \<Rightarrow> int \<Rightarrow> int \<Rightarrow> u32 list \<Rightarrow> (bool \<times> invalidator \<times> spd) res" where
  "inv_recvData v s tile_id element_id ws =
     (if \<not> (0 \<le> tile_id \<and> tile_id < int (inv_num_tiles v)) then Inl Assert_Fail
      else if \<not> (0 \<le> element_id \<and> element_id < int (inv_num_tile_elements v)) then Inl Assert_Fail
      else let cl = get_cl_id v tile_id element_id 4 in
        rbind (arr_get (cl_status v) cl) (\<lambda>st.
          if st = Uncached then Inl Assert_Fail
          else let v1 = v\<lparr> cl_status := (cl_status v)[nat cl := Uncached],
                          my_received_responses := Suc (my_received_responses v) \<rparr> in
            rbind (store_list (\<lambda>s. setData_u32 s tile_id) s element_id (take 16 ws)) (\<lambda>s'.
              Inr (inv_state v1 = Inv_Response \<and>
                     my_received_responses v1 = my_total_invalidations_sent v1, v1, s'))))"

section \<open>The directory as a matrix\<close>

definition rg_at :: "invalidator \<Rightarrow> int \<Rightarrow> int \<Rightarrow> RGStatus" where
  "rg_at v m r = rg_status v ! nat m ! nat r"

definition in_dir :: "invalidator \<Rightarrow> int \<Rightarrow> int \<Rightarrow> bool" where
  "in_dir v m r \<longleftrightarrow> 0 \<le> m \<and> m < int (inv_num_maas v) \<and> 0 \<le> r \<and> r < int (inv_num_tiles v)"

definition dir_shape :: "invalidator \<Rightarrow> bool" where
  "dir_shape v \<longleftrightarrow> length (rg_status v) = inv_num_maas v \<and>
     (\<forall>m < inv_num_maas v. length (rg_status v ! m) = inv_num_tiles v)"

text \<open>Two directories that differ in their statuses at most; the statuses are given separately.\<close>

definition dir_upd :: "invalidator \<Rightarrow> invalidator \<Rightarrow> (int \<Rightarrow> int \<Rightarrow> RGStatus) \<Rightarrow> bool" where
  "dir_upd v v' f \<longleftrightarrow> dir_shape v' \<and> inv_num_maas v' = inv_num_maas v \<and> inv_num_tiles v' = inv_num_tiles v \<and>
     (\<forall>m r. in_dir v m r \<longrightarrow> rg_at v' m r = f m r)"

lemma dir_updD:
  assumes "dir_upd v v' f"
  shows "dir_shape v'" "in_dir v' m r = in_dir v m r" "in_dir v m r \<Longrightarrow> rg_at v' m r = f m r"
    "inv_num_maas v' = inv_num_maas v" "inv_num_tiles v' = inv_num_tiles v"
  using assms unfolding dir_upd_def in_dir_def by auto

lemma rg_get_at:
  assumes "dir_shape v" "in_dir v m r"
  shows "rg_get v m r = Inr (rg_at v m r)"
  using assms unfolding rg_get_def dir_shape_def in_dir_def rg_at_def
  by (simp add: arr_get_def nat_less_iff)

lemma rg_set_at:
  assumes "dir_shape v" "in_dir v m r"
  obtains v' where "rg_set v m r st = Inr v'"
    "dir_upd v v' (\<lambda>m' r'. if m' = m \<and> r' = r then st else rg_at v m' r')"
    "v' = v\<lparr> rg_status := rg_status v' \<rparr>"
proof -
  define v' where "v' = v\<lparr> rg_status := (rg_status v)[nat m := (rg_status v ! nat m)[nat r := st]] \<rparr>"
  have mr: "nat m < inv_num_maas v" "nat r < inv_num_tiles v" "0 \<le> m" "0 \<le> r"
    using assms(2) unfolding in_dir_def by auto
  have len: "length (rg_status v) = inv_num_maas v" "length (rg_status v ! nat m) = inv_num_tiles v"
    using assms(1) mr unfolding dir_shape_def by auto
  have "rg_set v m r st = Inr v'"
    unfolding rg_set_def v'_def using mr len
    by (simp add: arr_get_def arr_set_def nat_less_iff)
  moreover have "dir_upd v v' (\<lambda>m' r'. if m' = m \<and> r' = r then st else rg_at v m' r')"
    using assms(1) mr len unfolding dir_upd_def dir_shape_def in_dir_def rg_at_def v'_def
    by (auto simp: nth_list_update nat_eq_iff2)
  moreover have "v' = v\<lparr> rg_status := rg_status v' \<rparr>" unfolding v'_def by simp
  ultimately show thesis by (rule that)
qed

lemma rg_any_at:
  assumes "dir_shape v" "0 \<le> r" "r < int (inv_num_tiles v)"
  shows "rg_any v r S \<longleftrightarrow> (\<exists>m. in_dir v m r \<and> rg_at v m r \<in> S)"
proof
  assume "rg_any v r S"
  then obtain i where "i < length (rg_status v)" "rg_status v ! i ! nat r \<in> S"
    unfolding rg_any_def list_ex_length by blast
  then show "\<exists>m. in_dir v m r \<and> rg_at v m r \<in> S"
    using assms unfolding in_dir_def rg_at_def dir_shape_def by (intro exI[of _ "int i"]) auto
next
  assume "\<exists>m. in_dir v m r \<and> rg_at v m r \<in> S"
  then show "rg_any v r S"
    using assms unfolding rg_any_def list_ex_length in_dir_def rg_at_def dir_shape_def
    by (metis nat_less_iff)
qed

lemma rg_demote_at:
  assumes "dir_shape v" "0 \<le> r" "r < int (inv_num_tiles v)"
  shows "dir_upd v (rg_demote v r S t) (\<lambda>m' r'. if r' = r \<and> rg_at v m' r' \<in> S then t else rg_at v m' r')"
    "rg_demote v r S t = v\<lparr> rg_status := rg_status (rg_demote v r S t) \<rparr>"
proof -
  have len: "length (rg_status v) = inv_num_maas v" "\<And>m. m < inv_num_maas v \<Longrightarrow> length (rg_status v ! m) = inv_num_tiles v"
    using assms(1) unfolding dir_shape_def by auto
  show "dir_upd v (rg_demote v r S t) (\<lambda>m' r'. if r' = r \<and> rg_at v m' r' \<in> S then t else rg_at v m' r')"
    using assms(2,3) len unfolding dir_upd_def dir_shape_def in_dir_def rg_at_def rg_demote_def
    by (auto simp: nth_list_update nat_eq_iff2 nat_less_iff)
  show "rg_demote v r S t = v\<lparr> rg_status := rg_status (rg_demote v r S t) \<rparr>"
    unfolding rg_demote_def by simp
qed

section \<open>The protocol the permit implements\<close>

definition queue_of :: "invalidator \<Rightarrow> Instruction list \<times> Tick list" where
  "queue_of v = (transientInstructions v, transientTicks v)"

definition rg_key :: "Instruction \<Rightarrow> int \<times> int" where
  "rg_key ins = (maa_id ins, addrRangeID ins)"

definition ins_st :: "invalidator \<Rightarrow> Instruction \<Rightarrow> RGStatus" where
  "ins_st v ins = rg_at v (maa_id ins) (addrRangeID ins)"

definition ins_in_dir :: "invalidator \<Rightarrow> Instruction \<Rightarrow> bool" where
  "ins_in_dir v ins \<longleftrightarrow> in_dir v (maa_id ins) (addrRangeID ins)"

definition set_key :: "(int \<Rightarrow> int \<Rightarrow> RGStatus) \<Rightarrow> Instruction \<Rightarrow> RGStatus \<Rightarrow> int \<Rightarrow> int \<Rightarrow> RGStatus" where
  "set_key f ins st m r = (if (m, r) = rg_key ins then st else f m r)"

definition demoted :: "(int \<Rightarrow> int \<Rightarrow> RGStatus) \<Rightarrow> int \<Rightarrow> RGStatus set \<Rightarrow> RGStatus \<Rightarrow> int \<Rightarrow> int \<Rightarrow> RGStatus" where
  "demoted f r S t m' r' = (if r' = r \<and> f m' r' \<in> S then t else f m' r')"

inductive permit_outcome :: "Tick \<Rightarrow> invalidator \<Rightarrow> Instruction \<Rightarrow> bool \<Rightarrow> invalidator \<Rightarrow> bool" for t v ins where
  po_compute: "accessType ins = COMPUTE \<Longrightarrow> permit_outcome t v ins True v"
| po_deny: "accessType ins \<noteq> COMPUTE \<Longrightarrow> permit_outcome t v ins False v"
| po_shared: "accessType ins = READ \<Longrightarrow> ins_st v ins \<in> {UnusedShared, UsedShared} \<Longrightarrow>
    dir_upd v v' (set_key (rg_at v) ins UsingShared) \<Longrightarrow> queue_of v' = queue_of v \<Longrightarrow> permit_outcome t v ins True v'"
| po_modified: "accessType ins = READ \<and> ins_st v ins = UsedModified \<or>
    accessType ins = WRITE \<and> ins_st v ins \<in> {UnusedModified, UsedModified} \<Longrightarrow>
    dir_upd v v' (set_key (rg_at v) ins UsingModified) \<Longrightarrow> queue_of v' = queue_of v \<Longrightarrow> permit_outcome t v ins True v'"
| po_wait_shared: "accessType ins = READ \<Longrightarrow> ins_st v ins = RG_Invalid \<Longrightarrow>
    \<forall>m. in_dir v m (addrRangeID ins) \<longrightarrow>
      rg_at v m (addrRangeID ins) \<notin> {TransientModified, UnusedModified, UsingModified} \<Longrightarrow>
    dir_upd v v' (set_key (demoted (rg_at v) (addrRangeID ins) {UsedModified} UsedShared) ins TransientShared) \<Longrightarrow>
    queue_of v' = (transientInstructions v @ [ins], transientTicks v @ [t]) \<Longrightarrow> permit_outcome t v ins False v'"
| po_wait_modified: "accessType ins = WRITE \<Longrightarrow> ins_st v ins \<in> {RG_Invalid, UsedShared} \<Longrightarrow>
    \<forall>m. in_dir v m (addrRangeID ins) \<longrightarrow>
      rg_at v m (addrRangeID ins) \<in> {RG_Invalid, UsedShared, UsedModified} \<Longrightarrow>
    dir_upd v v' (set_key (demoted (rg_at v) (addrRangeID ins) {UsedModified, UsedShared} RG_Invalid) ins TransientModified) \<Longrightarrow>
    queue_of v' = (transientInstructions v @ [ins], transientTicks v @ [t]) \<Longrightarrow> permit_outcome t v ins False v'"

lemma dir_upd_cong:
  assumes "dir_upd v v' f" "\<And>m r. in_dir v m r \<Longrightarrow> f m r = g m r"
  shows "dir_upd v v' g"
  using assms unfolding dir_upd_def by simp

lemma rg_set_outcome:
  assumes "dir_shape v" "ins_in_dir v ins"
  obtains v' where "rg_set v (maa_id ins) (addrRangeID ins) st = Inr v'"
    "dir_upd v v' (set_key (rg_at v) ins st)" "queue_of v' = queue_of v"
proof (rule rg_set_at[of v "maa_id ins" "addrRangeID ins" st])
  show "dir_shape v" "in_dir v (maa_id ins) (addrRangeID ins)"
    using assms unfolding ins_in_dir_def by auto
  fix v'
  assume v': "rg_set v (maa_id ins) (addrRangeID ins) st = Inr v'"
    "dir_upd v v' (\<lambda>m' r'. if m' = maa_id ins \<and> r' = addrRangeID ins then st else rg_at v m' r')"
    and eq: "v' = v\<lparr> rg_status := rg_status v' \<rparr>"
  have "dir_upd v v' (set_key (rg_at v) ins st)"
    by (rule dir_upd_cong[OF v'(2)]) (simp add: set_key_def rg_key_def)
  moreover have "queue_of v' = queue_of v"
    by (subst eq) (simp add: queue_of_def)
  ultimately show thesis using that v' by blast
qed

lemma enter_transient_outcome:
  assumes sh: "dir_shape v" and d: "ins_in_dir v ins"
    and q: "\<not> list_ex (same_instruction ins) (transientInstructions v)"
  obtains v' where "enter_transient ce (rg_demote v (addrRangeID ins) S to_st) ins st = Inr (False, v')"
    "dir_upd v v' (set_key (demoted (rg_at v) (addrRangeID ins) S to_st) ins st)"
    "queue_of v' = (transientInstructions v @ [ins], transientTicks v @ [ce 100])"
proof -
  let ?d = "rg_demote v (addrRangeID ins) S to_st"
  have r: "0 \<le> addrRangeID ins" "addrRangeID ins < int (inv_num_tiles v)"
    using d unfolding ins_in_dir_def in_dir_def by auto
  note dem = rg_demote_at[OF sh r, of S to_st]
  have d': "ins_in_dir ?d ins" using d dir_updD(2)[OF dem(1)] unfolding ins_in_dir_def by simp
  obtain v1 where v1: "rg_set ?d (maa_id ins) (addrRangeID ins) st = Inr v1"
    "dir_upd ?d v1 (set_key (rg_at ?d) ins st)" "queue_of v1 = queue_of ?d"
    by (rule rg_set_outcome[OF dir_updD(1)[OF dem(1)] d'])
  have qd: "queue_of ?d = queue_of v" by (subst dem(2)) (simp add: queue_of_def)
  have qs: "transientInstructions v1 = transientInstructions v" "transientTicks v1 = transientTicks v"
    using v1(3) qd unfolding queue_of_def by auto
  define v' where "v' = v1\<lparr> transientInstructions := transientInstructions v1 @ [ins],
    transientTicks := transientTicks v1 @ [ce 100], transient_event := schedule_min (transient_event v1) (ce 100) \<rparr>"
  have "enter_transient ce ?d ins st = Inr (False, v')"
    unfolding enter_transient_def v1(1) v'_def using q qs by simp
  moreover have "dir_upd v v1 (set_key (demoted (rg_at v) (addrRangeID ins) S to_st) ins st)"
    using v1(2) dem(1) unfolding dir_upd_def in_dir_def
    by (simp add: set_key_def demoted_def)
  then have "dir_upd v v' (set_key (demoted (rg_at v) (addrRangeID ins) S to_st) ins st)"
    unfolding v'_def dir_upd_def dir_shape_def in_dir_def rg_at_def by simp
  moreover have "queue_of v' = (transientInstructions v @ [ins], transientTicks v @ [ce 100])"
    unfolding v'_def queue_of_def using qs by simp
  ultimately show thesis by (rule that)
qed

lemma permit_read_outcome:
  assumes sh: "dir_shape v" and d: "ins_in_dir v ins" and acc: "accessType ins = READ"
    and fresh: "ins_st v ins = RG_Invalid \<Longrightarrow> \<not> list_ex (same_instruction ins) (transientInstructions v)"
  shows "\<exists>g v'. getAddrRegionPermit ce v ins = Inr (g, v') \<and> permit_outcome (ce 100) v ins g v'"
proof -
  have get: "rg_get v (maa_id ins) (addrRangeID ins) = Inr (ins_st v ins)"
    using rg_get_at sh d unfolding ins_in_dir_def ins_st_def by blast
  have any: "rg_any v (addrRangeID ins) S \<longleftrightarrow> (\<exists>m. in_dir v m (addrRangeID ins) \<and> rg_at v m (addrRangeID ins) \<in> S)" for S
    using rg_any_at[OF sh] d unfolding ins_in_dir_def in_dir_def by blast
  note def = getAddrRegionPermit_def acc get AccessType.case Let_def rbind.simps
  have deny: ?thesis if "getAddrRegionPermit ce v ins = Inr (False, v)"
    by (rule exI[of _ False], rule exI[of _ v]) (simp add: that acc po_deny)
  show ?thesis
  proof (cases "ins_st v ins")
    case RG_Invalid
    show ?thesis
    proof (cases "rg_any v (addrRangeID ins) {TransientModified, UnusedModified, UsingModified}")
      case True
      then show ?thesis using RG_Invalid by (intro deny) (simp add: def)
    next
      case False
      obtain v' where v': "enter_transient ce (rg_demote v (addrRangeID ins) {UsedModified} UsedShared) ins TransientShared = Inr (False, v')"
        "dir_upd v v' (set_key (demoted (rg_at v) (addrRangeID ins) {UsedModified} UsedShared) ins TransientShared)"
        "queue_of v' = (transientInstructions v @ [ins], transientTicks v @ [ce 100])"
        by (rule enter_transient_outcome[OF sh d fresh[OF RG_Invalid]])
      have "permit_outcome (ce 100) v ins False v'"
        using False any by (intro po_wait_shared acc RG_Invalid v') blast
      moreover have "getAddrRegionPermit ce v ins = Inr (False, v')" using v'(1) False RG_Invalid by (simp add: def)
      ultimately show ?thesis by blast
    qed
  next
    case UnusedShared
    obtain v' where v': "rg_set v (maa_id ins) (addrRangeID ins) UsingShared = Inr v'"
      "dir_upd v v' (set_key (rg_at v) ins UsingShared)" "queue_of v' = queue_of v"
      by (rule rg_set_outcome[OF sh d])
    have "permit_outcome (ce 100) v ins True v'"
      using acc UnusedShared by (intro po_shared[OF _ _ v'(2,3)]) simp_all
    moreover have "getAddrRegionPermit ce v ins = Inr (True, v')" using v'(1) UnusedShared by (simp add: def)
    ultimately show ?thesis by blast
  next
    case UsedShared
    obtain v' where v': "rg_set v (maa_id ins) (addrRangeID ins) UsingShared = Inr v'"
      "dir_upd v v' (set_key (rg_at v) ins UsingShared)" "queue_of v' = queue_of v"
      by (rule rg_set_outcome[OF sh d])
    have "permit_outcome (ce 100) v ins True v'"
      using acc UsedShared by (intro po_shared[OF _ _ v'(2,3)]) simp_all
    moreover have "getAddrRegionPermit ce v ins = Inr (True, v')" using v'(1) UsedShared by (simp add: def)
    ultimately show ?thesis by blast
  next
    case UsedModified
    obtain v' where v': "rg_set v (maa_id ins) (addrRangeID ins) UsingModified = Inr v'"
      "dir_upd v v' (set_key (rg_at v) ins UsingModified)" "queue_of v' = queue_of v"
      by (rule rg_set_outcome[OF sh d])
    have "permit_outcome (ce 100) v ins True v'"
      using acc UsedModified by (intro po_modified[OF _ v'(2,3)]) simp_all
    moreover have "getAddrRegionPermit ce v ins = Inr (True, v')" using v'(1) UsedModified by (simp add: def)
    ultimately show ?thesis by blast
  qed (intro deny; simp add: def)+
qed

lemma permit_write_outcome:
  assumes sh: "dir_shape v" and d: "ins_in_dir v ins" and acc: "accessType ins = WRITE"
    and fresh: "ins_st v ins \<in> {RG_Invalid, UsedShared} \<Longrightarrow> \<not> list_ex (same_instruction ins) (transientInstructions v)"
  shows "\<exists>g v'. getAddrRegionPermit ce v ins = Inr (g, v') \<and> permit_outcome (ce 100) v ins g v'"
proof -
  let ?busy = "{TransientModified, UnusedModified, UsingModified, TransientShared, UnusedShared, UsingShared}"
  have get: "rg_get v (maa_id ins) (addrRangeID ins) = Inr (ins_st v ins)"
    using rg_get_at sh d unfolding ins_in_dir_def ins_st_def by blast
  have any: "rg_any v (addrRangeID ins) S \<longleftrightarrow> (\<exists>m. in_dir v m (addrRangeID ins) \<and> rg_at v m (addrRangeID ins) \<in> S)" for S
    using rg_any_at[OF sh] d unfolding ins_in_dir_def in_dir_def by blast
  have idle: "st \<in> {RG_Invalid, UsedShared, UsedModified}" if "st \<notin> ?busy" for st
    using that by (cases st) auto
  note def = getAddrRegionPermit_def acc get AccessType.case Let_def rbind.simps
  have deny: ?thesis if "getAddrRegionPermit ce v ins = Inr (False, v)"
    by (rule exI[of _ False], rule exI[of _ v]) (simp add: that acc po_deny)
  consider (start) "ins_st v ins \<in> {RG_Invalid, UsedShared}" "\<not> rg_any v (addrRangeID ins) ?busy"
    | (busy) "ins_st v ins \<in> {RG_Invalid, UsedShared}" "rg_any v (addrRangeID ins) ?busy"
    | (grant) "ins_st v ins \<in> {UnusedModified, UsedModified}"
    | (other) "ins_st v ins \<notin> {RG_Invalid, UsedShared, UnusedModified, UsedModified}"
    by blast
  then show ?thesis
  proof cases
    case start
    obtain v' where v': "enter_transient ce (rg_demote v (addrRangeID ins) {UsedModified, UsedShared} RG_Invalid) ins TransientModified = Inr (False, v')"
      "dir_upd v v' (set_key (demoted (rg_at v) (addrRangeID ins) {UsedModified, UsedShared} RG_Invalid) ins TransientModified)"
      "queue_of v' = (transientInstructions v @ [ins], transientTicks v @ [ce 100])"
      by (rule enter_transient_outcome[OF sh d fresh[OF start(1)]])
    have "permit_outcome (ce 100) v ins False v'"
      using start(2) any idle by (intro po_wait_modified acc start(1) v') blast
    moreover have "getAddrRegionPermit ce v ins = Inr (False, v')" using v'(1) start by (simp add: def)
    ultimately show ?thesis by blast
  next
    case busy
    then show ?thesis by (intro deny) (simp add: def)
  next
    case grant
    obtain v' where v': "rg_set v (maa_id ins) (addrRangeID ins) UsingModified = Inr v'"
      "dir_upd v v' (set_key (rg_at v) ins UsingModified)" "queue_of v' = queue_of v"
      by (rule rg_set_outcome[OF sh d])
    have "permit_outcome (ce 100) v ins True v'"
      using acc grant by (intro po_modified[OF _ v'(2,3)]) simp
    moreover have "getAddrRegionPermit ce v ins = Inr (True, v')" using v'(1) grant by (auto simp: def)
    ultimately show ?thesis by blast
  next
    case other
    then show ?thesis by (intro deny) (simp add: def)
  qed
qed

section \<open>The directory invariant\<close>

definition writer_states :: "RGStatus set" where
  "writer_states = {TransientModified, UnusedModified, UsingModified, UsedModified}"

definition transient_states :: "RGStatus set" where
  "transient_states = {TransientShared, TransientModified}"

text \<open>An accelerator that holds a region in a modified state is the only one that holds it at all.\<close>

definition single_writer :: "invalidator \<Rightarrow> bool" where
  "single_writer v \<longleftrightarrow> (\<forall>m m' r. in_dir v m r \<and> in_dir v m' r \<and> m \<noteq> m' \<and> rg_at v m r \<in> writer_states
     \<longrightarrow> rg_at v m' r = RG_Invalid)"

text \<open>
  The waiting queue and the transient states describe each other: every queued instruction waits in
  the transient state of its kind, and every transient state has one instruction in the queue.
\<close>

definition awaits :: "invalidator \<Rightarrow> Instruction \<Rightarrow> bool" where
  "awaits v q \<longleftrightarrow> ins_in_dir v q \<and>
     (accessType q = READ \<and> ins_st v q = TransientShared \<or> accessType q = WRITE \<and> ins_st v q = TransientModified)"

definition waiting_ok :: "invalidator \<Rightarrow> Instruction list \<Rightarrow> bool" where
  "waiting_ok v qs \<longleftrightarrow> (\<forall>q \<in> set qs. awaits v q) \<and> distinct (map rg_key qs) \<and>
     (\<forall>m r. in_dir v m r \<and> rg_at v m r \<in> transient_states \<longrightarrow> (m, r) \<in> rg_key ` set qs)"

definition dir_inv :: "invalidator \<Rightarrow> bool" where
  "dir_inv v \<longleftrightarrow> dir_shape v \<and> single_writer v \<and> waiting_ok v (transientInstructions v) \<and>
     length (transientTicks v) = length (transientInstructions v)"

lemma dir_inv_init: "dir_inv (Invalidator_allocate M T E b)"
  unfolding dir_inv_def dir_shape_def single_writer_def waiting_ok_def in_dir_def rg_at_def
  by (auto simp: Invalidator_allocate_def writer_states_def transient_states_def nat_less_iff)

lemma ins_st_key: "(m, r) = rg_key ins \<Longrightarrow> rg_at v m r = ins_st v ins"
  unfolding rg_key_def ins_st_def by simp

lemma set_key_simps:
  "set_key f ins st (maa_id ins) (addrRangeID ins) = st"
  "(m, r) \<noteq> rg_key ins \<Longrightarrow> set_key f ins st m r = f m r"
  unfolding set_key_def rg_key_def by auto

lemma single_writer_set:
  assumes sw: "single_writer v" and u: "dir_upd v v' (set_key (rg_at v) ins st)"
    and w: "st \<in> writer_states \<Longrightarrow> ins_st v ins \<in> writer_states"
    and ni: "ins_st v ins \<noteq> RG_Invalid" and d: "ins_in_dir v ins"
  shows "single_writer v'"
  unfolding single_writer_def
proof (intro allI impI)
  fix m m' r
  assume h: "in_dir v' m r \<and> in_dir v' m' r \<and> m \<noteq> m' \<and> rg_at v' m r \<in> writer_states"
  have d: "in_dir v m r" "in_dir v m' r" using h dir_updD(2)[OF u] by auto
  have wr: "rg_at v m r \<in> writer_states"
    using h w dir_updD(3)[OF u d(1)] ins_st_key[of m r ins v] unfolding set_key_def by (auto split: if_splits)
  then have "rg_at v m' r = RG_Invalid" using sw d h unfolding single_writer_def by blast
  moreover from this ni have "(m', r) \<noteq> rg_key ins" using ins_st_key[of m' r ins v] by auto
  ultimately show "rg_at v' m' r = RG_Invalid"
    using dir_updD(3)[OF u d(2)] by (simp add: set_key_simps)
qed

lemma waiting_ok_set:
  assumes q: "waiting_ok v qs" and u: "dir_upd v v' (set_key (rg_at v) ins st)"
    and old: "ins_st v ins \<notin> transient_states" and new: "st \<notin> transient_states"
  shows "waiting_ok v' qs"
proof -
  have other: "rg_key p \<noteq> rg_key ins" if "p \<in> set qs" for p
  proof
    assume "rg_key p = rg_key ins"
    then have "ins_st v p = ins_st v ins" unfolding rg_key_def ins_st_def by simp
    then show False using q that old unfolding waiting_ok_def awaits_def transient_states_def by auto
  qed
  have "awaits v' p" if "p \<in> set qs" for p
  proof -
    have a: "awaits v p" using q that unfolding waiting_ok_def by blast
    then have "in_dir v (maa_id p) (addrRangeID p)" unfolding awaits_def ins_in_dir_def by simp
    from dir_updD(2)[OF u] dir_updD(3)[OF u this] have "ins_st v' p = ins_st v p" "ins_in_dir v' p = ins_in_dir v p"
      using other[OF that] unfolding ins_st_def ins_in_dir_def rg_key_def set_key_def by auto
    then show ?thesis using a unfolding awaits_def by simp
  qed
  moreover have "(m, r) \<in> rg_key ` set qs" if h: "in_dir v' m r" "rg_at v' m r \<in> transient_states" for m r
  proof -
    have d: "in_dir v m r" using h(1) dir_updD(2)[OF u] by simp
    have "rg_at v m r \<in> transient_states"
      using h(2) dir_updD(3)[OF u d] new unfolding set_key_def by (auto split: if_splits)
    then show ?thesis using q d unfolding waiting_ok_def by blast
  qed
  ultimately show ?thesis using q unfolding waiting_ok_def by blast
qed

lemma waiting_ok_enter:
  assumes q: "waiting_ok v qs" and d: "ins_in_dir v ins"
    and u: "dir_upd v v' (set_key (demoted (rg_at v) (addrRangeID ins) S t) ins st)"
    and old: "ins_st v ins \<notin> transient_states" and S: "S \<inter> transient_states = {}" and t: "t \<notin> transient_states"
    and st: "accessType ins = READ \<and> st = TransientShared \<or> accessType ins = WRITE \<and> st = TransientModified"
  shows "waiting_ok v' (qs @ [ins])"
proof -
  have other: "rg_key p \<noteq> rg_key ins" if "p \<in> set qs" for p
  proof
    assume "rg_key p = rg_key ins"
    then have "ins_st v p = ins_st v ins" unfolding rg_key_def ins_st_def by simp
    then show False using q that old unfolding waiting_ok_def awaits_def transient_states_def by auto
  qed
  have "awaits v' p" if "p \<in> set qs" for p
  proof -
    have a: "awaits v p" using q that unfolding waiting_ok_def by blast
    then have tr: "ins_st v p \<in> transient_states" unfolding awaits_def transient_states_def by auto
    have "in_dir v (maa_id p) (addrRangeID p)" using a unfolding awaits_def ins_in_dir_def by simp
    from dir_updD(2)[OF u] dir_updD(3)[OF u this] have "ins_st v' p = ins_st v p" "ins_in_dir v' p = ins_in_dir v p"
      using other[OF that] tr S unfolding ins_st_def ins_in_dir_def rg_key_def set_key_def demoted_def by auto
    then show ?thesis using a unfolding awaits_def by simp
  qed
  moreover have "awaits v' ins"
    using d st dir_updD(2)[OF u] dir_updD(3)[OF u d[unfolded ins_in_dir_def]]
    unfolding awaits_def ins_in_dir_def ins_st_def by (auto simp: set_key_simps)
  moreover have "(m, r) \<in> rg_key ` set (qs @ [ins])" if h: "in_dir v' m r" "rg_at v' m r \<in> transient_states" for m r
  proof (cases "(m, r) = rg_key ins")
    case False
    have dd: "in_dir v m r" using h(1) dir_updD(2)[OF u] by simp
    have "rg_at v m r \<in> transient_states"
      using h(2) dir_updD(3)[OF u dd] t False unfolding set_key_def demoted_def by (auto split: if_splits)
    then show ?thesis using q dd unfolding waiting_ok_def by auto
  qed simp
  moreover have "rg_key ins \<notin> rg_key ` set qs" using other by (metis imageE)
  then have "distinct (map rg_key (qs @ [ins]))" using q unfolding waiting_ok_def by simp
  ultimately show ?thesis unfolding waiting_ok_def by auto
qed

lemma single_writer_columns:
  assumes sw: "single_writer v" and dim: "\<And>m r. in_dir v' m r = in_dir v m r"
    and same: "\<And>m r. in_dir v m r \<Longrightarrow> r \<noteq> r0 \<Longrightarrow> rg_at v' m r = rg_at v m r"
    and col: "\<And>m m'. in_dir v m r0 \<Longrightarrow> in_dir v m' r0 \<Longrightarrow> m \<noteq> m' \<Longrightarrow> rg_at v' m r0 \<in> writer_states \<Longrightarrow>
      rg_at v' m' r0 = RG_Invalid"
  shows "single_writer v'"
  unfolding single_writer_def
proof (intro allI impI)
  fix m m' r
  assume h: "in_dir v' m r \<and> in_dir v' m' r \<and> m \<noteq> m' \<and> rg_at v' m r \<in> writer_states"
  then have d: "in_dir v m r" "in_dir v m' r" using dim by auto
  show "rg_at v' m' r = RG_Invalid"
  proof (cases "r = r0")
    case True
    then show ?thesis using col d h by blast
  next
    case False
    then show ?thesis using sw same d h unfolding single_writer_def by metis
  qed
qed

lemma single_writer_enter_shared:
  assumes "single_writer v"
    and u: "dir_upd v v' (set_key (demoted (rg_at v) (addrRangeID ins) {UsedModified} UsedShared) ins TransientShared)"
    and c: "\<forall>m. in_dir v m (addrRangeID ins) \<longrightarrow>
      rg_at v m (addrRangeID ins) \<notin> {TransientModified, UnusedModified, UsingModified}"
  shows "single_writer v'"
proof (rule single_writer_columns[OF assms(1) dir_updD(2)[OF u]])
  show "rg_at v' m r = rg_at v m r" if "in_dir v m r" "r \<noteq> addrRangeID ins" for m r
    using dir_updD(3)[OF u that(1)] that(2) unfolding set_key_def demoted_def rg_key_def by simp
  fix m m'
  assume h: "in_dir v m (addrRangeID ins)" "rg_at v' m (addrRangeID ins) \<in> writer_states"
  have "rg_at v' m (addrRangeID ins) \<notin> writer_states"
    using dir_updD(3)[OF u h(1)] c[rule_format, OF h(1)]
    unfolding set_key_def demoted_def rg_key_def writer_states_def by (auto split: if_splits)
  then show "rg_at v' m' (addrRangeID ins) = RG_Invalid" using h(2) by blast
qed

lemma single_writer_enter_modified:
  assumes "single_writer v"
    and u: "dir_upd v v' (set_key (demoted (rg_at v) (addrRangeID ins) {UsedModified, UsedShared} RG_Invalid) ins TransientModified)"
    and c: "\<forall>m. in_dir v m (addrRangeID ins) \<longrightarrow> rg_at v m (addrRangeID ins) \<in> {RG_Invalid, UsedShared, UsedModified}"
  shows "single_writer v'"
proof (rule single_writer_columns[OF assms(1) dir_updD(2)[OF u]])
  show "rg_at v' m r = rg_at v m r" if "in_dir v m r" "r \<noteq> addrRangeID ins" for m r
    using dir_updD(3)[OF u that(1)] that(2) unfolding set_key_def demoted_def rg_key_def by simp
  have col: "rg_at v' m (addrRangeID ins) = (if m = maa_id ins then TransientModified else RG_Invalid)"
    if "in_dir v m (addrRangeID ins)" for m
    using dir_updD(3)[OF u that] c[rule_format, OF that] unfolding set_key_def demoted_def rg_key_def by auto
  fix m m'
  assume "in_dir v m (addrRangeID ins)" "in_dir v m' (addrRangeID ins)" "m \<noteq> m'"
    "rg_at v' m (addrRangeID ins) \<in> writer_states"
  then show "rg_at v' m' (addrRangeID ins) = RG_Invalid"
    using col unfolding writer_states_def by (auto split: if_splits)
qed

lemma permit_outcome_inv:
  assumes "permit_outcome t v ins g v'" "dir_inv v" "accessType ins \<noteq> COMPUTE \<Longrightarrow> ins_in_dir v ins"
  shows "dir_inv v'"
  using assms(1)
proof cases
  case po_shared
  have d: "ins_in_dir v ins" using assms(3) po_shared by simp
  have qq: "transientInstructions v' = transientInstructions v" "transientTicks v' = transientTicks v"
    using po_shared(5) unfolding queue_of_def by auto
  have "single_writer v'"
    by (rule single_writer_set[OF _ po_shared(4) _ _ d])
      (use assms(2) po_shared(3) in \<open>auto simp: dir_inv_def writer_states_def\<close>)
  moreover have "waiting_ok v' (transientInstructions v)"
    by (rule waiting_ok_set[OF _ po_shared(4)])
      (use assms(2) po_shared(3) in \<open>auto simp: dir_inv_def transient_states_def\<close>)
  ultimately show ?thesis using assms(2) dir_updD(1)[OF po_shared(4)] qq unfolding dir_inv_def by simp
next
  case po_modified
  have d: "ins_in_dir v ins" using assms(3) po_modified by auto
  have st: "ins_st v ins \<in> {UnusedModified, UsedModified}" using po_modified(2) by auto
  have qq: "transientInstructions v' = transientInstructions v" "transientTicks v' = transientTicks v"
    using po_modified(4) unfolding queue_of_def by auto
  have "single_writer v'"
    by (rule single_writer_set[OF _ po_modified(3) _ _ d])
      (use assms(2) st in \<open>auto simp: dir_inv_def writer_states_def\<close>)
  moreover have "waiting_ok v' (transientInstructions v)"
    by (rule waiting_ok_set[OF _ po_modified(3)])
      (use assms(2) st in \<open>auto simp: dir_inv_def transient_states_def\<close>)
  ultimately show ?thesis using assms(2) dir_updD(1)[OF po_modified(3)] qq unfolding dir_inv_def by simp
next
  case po_wait_shared
  have d: "ins_in_dir v ins" using assms(3) po_wait_shared by simp
  have qq: "transientInstructions v' = transientInstructions v @ [ins]" "transientTicks v' = transientTicks v @ [t]"
    using po_wait_shared(6) unfolding queue_of_def by auto
  have "single_writer v'"
    using single_writer_enter_shared[OF _ po_wait_shared(5,4)] assms(2) unfolding dir_inv_def by blast
  moreover have "waiting_ok v' (transientInstructions v @ [ins])"
    by (rule waiting_ok_enter[OF _ d po_wait_shared(5)])
      (use assms(2) po_wait_shared in \<open>auto simp: dir_inv_def transient_states_def\<close>)
  ultimately show ?thesis using assms(2) dir_updD(1)[OF po_wait_shared(5)] qq unfolding dir_inv_def by simp
next
  case po_wait_modified
  have d: "ins_in_dir v ins" using assms(3) po_wait_modified by simp
  have qq: "transientInstructions v' = transientInstructions v @ [ins]" "transientTicks v' = transientTicks v @ [t]"
    using po_wait_modified(6) unfolding queue_of_def by auto
  have "single_writer v'"
    using single_writer_enter_modified[OF _ po_wait_modified(5,4)] assms(2) unfolding dir_inv_def by blast
  moreover have "waiting_ok v' (transientInstructions v @ [ins])"
    by (rule waiting_ok_enter[OF _ d po_wait_modified(5)])
      (use assms(2) po_wait_modified in \<open>auto simp: dir_inv_def transient_states_def\<close>)
  ultimately show ?thesis using assms(2) dir_updD(1)[OF po_wait_modified(5)] qq unfolding dir_inv_def by simp
qed (use assms(2) in auto)

section \<open>Leaving the transient states, and finishing\<close>

lemma leave_transient_ok:
  assumes sh: "dir_shape v" and sw: "single_writer v" and w: "waiting_ok v (ins # qs)"
  obtains v' where "leave_transient v ins = Inr v'" "dir_shape v'" "single_writer v'" "waiting_ok v' qs"
    "dir_upd v v' (set_key (rg_at v) ins (if accessType ins = READ then UnusedShared else UnusedModified))"
proof -
  define st where "st = (if accessType ins = READ then UnusedShared else UnusedModified)"
  have a: "awaits v ins" using w unfolding waiting_ok_def by simp
  then have d: "ins_in_dir v ins" unfolding awaits_def by simp
  obtain v' where v': "rg_set v (maa_id ins) (addrRangeID ins) st = Inr v'"
    "dir_upd v v' (set_key (rg_at v) ins st)" "queue_of v' = queue_of v"
    by (rule rg_set_outcome[OF sh d])
  have get: "rg_get v (maa_id ins) (addrRangeID ins) = Inr (ins_st v ins)"
    using rg_get_at sh d unfolding ins_in_dir_def ins_st_def by blast
  have "leave_transient v ins = Inr v'"
    using a v'(1) unfolding leave_transient_def awaits_def get st_def by auto
  moreover have "single_writer v'"
    by (rule single_writer_set[OF sw v'(2) _ _ d]) (use a in \<open>auto simp: awaits_def st_def writer_states_def\<close>)
  moreover have "waiting_ok v' qs"
  proof -
    have ne: "rg_key p \<noteq> rg_key ins" if "p \<in> set qs" for p
      using w that unfolding waiting_ok_def by (metis distinct.simps(2) image_eqI list.simps(9) list.set_map)
    have "awaits v' p" if "p \<in> set qs" for p
    proof -
      have ap: "awaits v p" using w that unfolding waiting_ok_def by simp
      then have "in_dir v (maa_id p) (addrRangeID p)" unfolding awaits_def ins_in_dir_def by simp
      from dir_updD(2)[OF v'(2)] dir_updD(3)[OF v'(2) this]
      have "ins_st v' p = ins_st v p" "ins_in_dir v' p = ins_in_dir v p"
        using ne[OF that] unfolding ins_st_def ins_in_dir_def rg_key_def set_key_def by auto
      then show ?thesis using ap unfolding awaits_def by simp
    qed
    moreover have "(m, r) \<in> rg_key ` set qs" if h: "in_dir v' m r" "rg_at v' m r \<in> transient_states" for m r
    proof -
      have dd: "in_dir v m r" using h(1) dir_updD(2)[OF v'(2)] by simp
      have "(m, r) \<noteq> rg_key ins" "rg_at v m r \<in> transient_states"
        using h(2) dir_updD(3)[OF v'(2) dd] unfolding set_key_def st_def transient_states_def
        by (auto split: if_splits)
      then show ?thesis using w dd unfolding waiting_ok_def by auto
    qed
    ultimately show ?thesis using w unfolding waiting_ok_def by simp
  qed
  ultimately show thesis using that dir_updD(1)[OF v'(2)] v'(2) unfolding st_def by blast
qed

text \<open>
  The loop of \<open>transientInstruction\<close> takes the longest prefix of elapsed ticks off the queue, moves
  their regions to the unused states and touches nothing else.
\<close>

definition settled :: "Instruction \<Rightarrow> RGStatus" where
  "settled ins = (if accessType ins = READ then UnusedShared else UnusedModified)"

lemma transient_loop_ok:
  assumes "dir_shape v" "single_writer v" "waiting_ok v qs" "length ts = length qs"
  shows "\<exists>h rem v'. transient_loop now qs ts hap v = Inr (h, rem, v') \<and> dir_inv v' \<and>
    transientInstructions v' = drop (length (takeWhile (\<lambda>t. t \<le> now) ts)) qs \<and>
    (\<forall>q \<in> set (take (length (takeWhile (\<lambda>t. t \<le> now) ts)) qs). ins_st v' q = settled q) \<and>
    (\<forall>m r. in_dir v m r \<longrightarrow> in_dir v' m r \<and> ((m, r) \<notin> rg_key ` set qs \<longrightarrow> rg_at v' m r = rg_at v m r))"
  using assms
proof (induction qs arbitrary: ts hap v)
  case Nil
  then show ?case unfolding dir_inv_def dir_shape_def single_writer_def waiting_ok_def in_dir_def rg_at_def by simp
next
  case (Cons ins qs)
  obtain t ts' where ts: "ts = t # ts'" using Cons.prems(4) by (cases ts) auto
  show ?case
  proof (cases "t > now")
    case True
    have "dir_inv (v\<lparr> transientInstructions := ins # qs, transientTicks := ts \<rparr>)"
      using Cons.prems unfolding dir_inv_def dir_shape_def single_writer_def waiting_ok_def awaits_def
        ins_in_dir_def ins_st_def in_dir_def rg_at_def by simp
    then show ?thesis using True unfolding ts by (simp add: in_dir_def rg_at_def)
  next
    case False
    obtain v1 where v1: "leave_transient v ins = Inr v1" "dir_shape v1" "single_writer v1" "waiting_ok v1 qs"
      "dir_upd v v1 (set_key (rg_at v) ins (settled ins))"
      using leave_transient_ok[OF Cons.prems(1-3)] unfolding settled_def by metis
    let ?n = "length (takeWhile (\<lambda>t. t \<le> now) ts')"
    obtain h rem v' where IH: "transient_loop now qs ts' True v1 = Inr (h, rem, v')" "dir_inv v'"
      "transientInstructions v' = drop ?n qs" "\<forall>q \<in> set (take ?n qs). ins_st v' q = settled q"
      "\<forall>m r. in_dir v1 m r \<longrightarrow> in_dir v' m r \<and> ((m, r) \<notin> rg_key ` set qs \<longrightarrow> rg_at v' m r = rg_at v1 m r)"
      using Cons.IH[OF v1(2-4), of ts' True] Cons.prems(4) ts by auto
    have d: "in_dir v (maa_id ins) (addrRangeID ins)" and nk: "rg_key ins \<notin> rg_key ` set qs"
      using Cons.prems(3) unfolding waiting_ok_def awaits_def ins_in_dir_def by auto
    have "ins_st v' ins = settled ins"
      using IH(5) dir_updD(2,3)[OF v1(5)] d nk unfolding ins_st_def by (auto simp: set_key_simps rg_key_def)
    moreover have "in_dir v' m r \<and> ((m, r) \<notin> rg_key ` set (ins # qs) \<longrightarrow> rg_at v' m r = rg_at v m r)"
      if "in_dir v m r" for m r
      using IH(5) dir_updD(2,3)[OF v1(5)] that by (auto simp: set_key_simps)
    ultimately show ?thesis using IH False v1(1) unfolding ts by simp
  qed
qed

lemma dir_inv_event: "dir_inv (v\<lparr> transient_event := e \<rparr>) = dir_inv v"
  unfolding dir_inv_def dir_shape_def single_writer_def waiting_ok_def awaits_def
    ins_in_dir_def ins_st_def in_dir_def rg_at_def by simp

lemma transientInstruction_ok:
  assumes "dir_inv v"
  shows "\<exists>h v'. transientInstruction ce period now v = Inr (h, v') \<and> dir_inv v' \<and>
    transientInstructions v' = drop (length (takeWhile (\<lambda>t. t \<le> now) (transientTicks v))) (transientInstructions v) \<and>
    (\<forall>q \<in> set (take (length (takeWhile (\<lambda>t. t \<le> now) (transientTicks v))) (transientInstructions v)).
       ins_in_dir v' q \<and> ins_st v' q = settled q) \<and> (\<forall>m r. in_dir v m r \<longrightarrow> in_dir v' m r)"
proof -
  let ?v = "v\<lparr> transient_event := None \<rparr>"
  have "dir_inv ?v" using assms by (simp add: dir_inv_event)
  then obtain h rem v' where v': "transient_loop now (transientInstructions v) (transientTicks v) False ?v = Inr (h, rem, v')"
    "dir_inv v'" "transientInstructions v' = drop (length (takeWhile (\<lambda>t. t \<le> now) (transientTicks v))) (transientInstructions v)"
    "\<forall>q \<in> set (take (length (takeWhile (\<lambda>t. t \<le> now) (transientTicks v))) (transientInstructions v)). ins_st v' q = settled q"
    "\<forall>m r. in_dir ?v m r \<longrightarrow> in_dir v' m r"
    using transient_loop_ok[of ?v "transientInstructions v" "transientTicks v" now False] unfolding dir_inv_def by auto
  have ind: "ins_in_dir v' q" if "q \<in> set (transientInstructions v)" for q
    using that assms v'(5) unfolding dir_inv_def waiting_ok_def awaits_def ins_in_dir_def in_dir_def by auto
  define w where "w = (case rem of None \<Rightarrow> v' | Some t \<Rightarrow> v'\<lparr> transient_event :=
    schedule_min (transient_event v') (ce (ticksToCycles period t)) \<rparr>)"
  have w: "dir_inv w" "transientInstructions w = transientInstructions v'" "ins_st w = ins_st v'" "ins_in_dir w = ins_in_dir v'"
    "in_dir w = in_dir v'"
    using v'(2) unfolding w_def
    by (auto simp: dir_inv_event ins_st_def ins_in_dir_def rg_at_def in_dir_def fun_eq_iff split: option.split)
  have "transientInstruction ce period now v = Inr (h, w)"
    unfolding transientInstruction_def w_def v'(1) by simp
  moreover have "\<forall>m r. in_dir v m r \<longrightarrow> in_dir w m r" using v'(5) unfolding w(5) by (simp add: in_dir_def)
  ultimately show ?thesis using w v'(3,4) ind by (auto dest: in_set_takeD)
qed

lemma finish_ok:
  assumes "dir_inv v" "ins_in_dir v ins" "inv_finishInstruction v ins = Inr v'"
  shows "dir_inv v'"
proof -
  have sh: "dir_shape v" and sw: "single_writer v" and w: "waiting_ok v (transientInstructions v)"
    using assms(1) unfolding dir_inv_def by auto
  have get: "rg_get v (maa_id ins) (addrRangeID ins) = Inr (ins_st v ins)"
    using rg_get_at[OF sh] assms(2) unfolding ins_in_dir_def ins_st_def by blast
  consider (same) "v' = v"
    | (shared) "ins_st v ins = UsingShared" "rg_set v (maa_id ins) (addrRangeID ins) UsedShared = Inr v'"
    | (modified) "ins_st v ins = UsingModified" "rg_set v (maa_id ins) (addrRangeID ins) UsedModified = Inr v'"
    using assms(3) unfolding inv_finishInstruction_def Let_def get by (auto split: if_splits)
  then obtain st where "v' = v \<or> rg_set v (maa_id ins) (addrRangeID ins) st = Inr v' \<and>
      ins_st v ins \<in> {UsingShared, UsingModified} \<and> st \<in> {UsedShared, UsedModified} \<and>
      (st = UsedModified \<longrightarrow> ins_st v ins = UsingModified)"
    by cases auto
  then show ?thesis
  proof (elim disjE conjE)
    assume h: "rg_set v (maa_id ins) (addrRangeID ins) st = Inr v'" "ins_st v ins \<in> {UsingShared, UsingModified}"
      "st \<in> {UsedShared, UsedModified}" "st = UsedModified \<longrightarrow> ins_st v ins = UsingModified"
    obtain v1 where v1: "rg_set v (maa_id ins) (addrRangeID ins) st = Inr v1"
      "dir_upd v v1 (set_key (rg_at v) ins st)" "queue_of v1 = queue_of v"
      by (rule rg_set_outcome[OF sh assms(2)])
    have eq: "v1 = v'" using v1(1) h(1) by simp
    have "single_writer v'"
      by (rule single_writer_set[OF sw v1(2)[unfolded eq] _ _ assms(2)])
        (use h in \<open>auto simp: writer_states_def\<close>)
    moreover have "waiting_ok v' (transientInstructions v)"
      by (rule waiting_ok_set[OF w v1(2)[unfolded eq]]) (use h in \<open>auto simp: transient_states_def\<close>)
    ultimately show ?thesis
      using v1(3) dir_updD(1)[OF v1(2)] assms(1) unfolding eq dir_inv_def queue_of_def by simp
  qed (use assms(1) in simp)
qed

section \<open>Runs of the directory\<close>

text \<open>
  What the controller may ask of the directory: a permit or a completion for an instruction of an
  existing accelerator and region, and the transient event at any time.  Asking again for a queued
  instruction means asking for the same region, since the slot holds it until it is issued.
\<close>

definition askable :: "invalidator \<Rightarrow> Instruction \<Rightarrow> bool" where
  "askable v ins \<longleftrightarrow> ins_in_dir v ins \<and> accessType ins \<noteq> AccessType_MAX \<and>
     list_all (\<lambda>q. same_instruction ins q \<longrightarrow> addrRangeID q = addrRangeID ins) (transientInstructions v)"

inductive dir_step :: "invalidator \<Rightarrow> invalidator \<Rightarrow> bool" where
  ds_permit: "askable v ins \<Longrightarrow> getAddrRegionPermit ce v ins = Inr (g, v') \<Longrightarrow> dir_step v v'"
| ds_transient: "transientInstruction ce period now v = Inr (h, v') \<Longrightarrow> dir_step v v'"
| ds_finish: "ins_in_dir v ins \<Longrightarrow> inv_finishInstruction v ins = Inr v' \<Longrightarrow> dir_step v v'"

lemma permit_outcome_ok:
  assumes inv: "dir_inv v" and ask: "askable v ins"
  shows "\<exists>g v'. getAddrRegionPermit ce v ins = Inr (g, v') \<and> permit_outcome (ce 100) v ins g v'"
proof -
  have sh: "dir_shape v" and d: "ins_in_dir v ins" using inv ask unfolding dir_inv_def askable_def by auto
  have fresh: "\<not> list_ex (same_instruction ins) (transientInstructions v)" if "ins_st v ins \<notin> transient_states"
  proof
    assume "list_ex (same_instruction ins) (transientInstructions v)"
    then obtain q where q: "q \<in> set (transientInstructions v)" "same_instruction ins q"
      unfolding list_ex_iff by blast
    then have "rg_key q = rg_key ins"
      using ask unfolding askable_def list_all_iff same_instruction_def rg_key_def by auto
    then have "ins_st v q = ins_st v ins" unfolding ins_st_def rg_key_def by simp
    then show False
      using inv q(1) that unfolding dir_inv_def waiting_ok_def awaits_def transient_states_def by auto
  qed
  show ?thesis
  proof (cases "accessType ins")
    case COMPUTE
    then show ?thesis by (intro exI[of _ True] exI[of _ v]) (simp add: getAddrRegionPermit_def po_compute)
  next
    case READ
    then show ?thesis using fresh by (intro permit_read_outcome[OF sh d]) (auto simp: transient_states_def)
  next
    case WRITE
    then show ?thesis using fresh by (intro permit_write_outcome[OF sh d]) (auto simp: transient_states_def)
  qed (use ask in \<open>simp add: askable_def\<close>)
qed

lemma dir_step_inv:
  assumes "dir_step v v'" "dir_inv v"
  shows "dir_inv v'"
  using assms
proof (induction rule: dir_step.induct)
  case (ds_permit v ins ce g v')
  obtain g1 v1 where "getAddrRegionPermit ce v ins = Inr (g1, v1)" "permit_outcome (ce 100) v ins g1 v1"
    using permit_outcome_ok[OF ds_permit(3,1)] by blast
  then show ?case
    using permit_outcome_inv ds_permit unfolding askable_def by auto
next
  case (ds_transient ce period now v h v')
  then show ?case using transientInstruction_ok[OF ds_transient(2), of ce period now] by auto
next
  case (ds_finish v ins v')
  then show ?case using finish_ok by blast
qed

definition dir_reachable :: "invalidator \<Rightarrow> bool" where
  "dir_reachable v \<longleftrightarrow> (\<exists>M T E b. dir_step\<^sup>*\<^sup>* (Invalidator_allocate M T E b) v)"

lemma dir_reachable_inv: "dir_reachable v \<Longrightarrow> dir_inv v"
proof -
  assume "dir_reachable v"
  then obtain M T E b where "dir_step\<^sup>*\<^sup>* (Invalidator_allocate M T E b) v" unfolding dir_reachable_def by blast
  then show ?thesis by (induction rule: rtranclp_induct) (auto intro: dir_inv_init dir_step_inv)
qed

section \<open>Properties of the directory\<close>

definition rg_ins :: "int \<Rightarrow> AccessType \<Rightarrow> Instruction" where
  "rg_ins m acc = (ld_demo 1 acc)\<lparr> maa_id := m, if_id := 0, addrRangeID := 1 \<rparr>"

definition clk_demo :: "Cycles \<Rightarrow> Tick" where
  "clk_demo c = c"

text \<open>A directory in which accelerator 0 waits for region 1, reached by one request.\<close>

definition waits_demo :: "(bool \<times> invalidator) res \<Rightarrow> AccessType \<Rightarrow> bool" where
  "waits_demo res acc = (case res of Inl _ \<Rightarrow> False | Inr x \<Rightarrow>
     \<not> fst x \<and> transientInstructions (snd x) = [rg_ins 0 acc] \<and> transientTicks (snd x) = [100] \<and>
     inv_num_maas (snd x) = 2 \<and> inv_num_tiles (snd x) = 2)"

lemma dir_demo_eval:
  "waits_demo (getAddrRegionPermit clk_demo (Invalidator_allocate 2 2 32 64) (rg_ins 0 READ)) READ"
  "waits_demo (getAddrRegionPermit clk_demo (Invalidator_allocate 2 2 32 64) (rg_ins 0 WRITE)) WRITE"
  "askable (Invalidator_allocate 2 2 32 64) (rg_ins 0 READ)"
  "askable (Invalidator_allocate 2 2 32 64) (rg_ins 0 WRITE)"
  by code_simp+

lemma dir_demo_waits:
  assumes "acc = READ \<or> acc = WRITE"
  obtains v where "dir_reachable v" "transientInstructions v = [rg_ins 0 acc]" "transientTicks v = [100]"
    "inv_num_maas v = 2" "inv_num_tiles v = 2"
proof -
  let ?v0 = "Invalidator_allocate 2 2 32 64"
  have w: "waits_demo (getAddrRegionPermit clk_demo ?v0 (rg_ins 0 acc)) acc" and ask: "askable ?v0 (rg_ins 0 acc)"
    using assms dir_demo_eval by auto
  obtain x where x: "getAddrRegionPermit clk_demo ?v0 (rg_ins 0 acc) = Inr x"
    using w unfolding waits_demo_def by (auto split: sum.splits)
  have "dir_reachable (snd x)"
    unfolding dir_reachable_def using ds_permit[OF ask, of clk_demo "fst x" "snd x"] x by (metis prod.collapse r_into_rtranclp)
  then show thesis using that w unfolding waits_demo_def x by simp
qed



lemma single_writerD:
  assumes "single_writer v" "in_dir v m r" "in_dir v m' r" "m \<noteq> m'"
  shows "rg_at v m r \<in> writer_states \<Longrightarrow> rg_at v m' r = RG_Invalid"
    "rg_at v m' r \<noteq> RG_Invalid \<Longrightarrow> rg_at v m r \<notin> writer_states"
  using assms unfolding single_writer_def by blast+

lemma denied_write:
  assumes sh: "dir_shape v" and d: "in_dir v m (addrRangeID ins')" "ins_in_dir v ins'"
    and use: "rg_at v m (addrRangeID ins') \<in> {UsingShared, UsingModified}" and sw: "single_writer v"
    and acc: "accessType ins' = WRITE"
  shows "getAddrRegionPermit ce v ins' = Inr (False, v)"
proof -
  have get: "rg_get v (maa_id ins') (addrRangeID ins') = Inr (ins_st v ins')"
    using rg_get_at[OF sh] d(2) unfolding ins_in_dir_def ins_st_def by blast
  have busy: "rg_any v (addrRangeID ins') {TransientModified, UnusedModified, UsingModified, TransientShared, UnusedShared, UsingShared}"
    using rg_any_at[OF sh] d(1) use unfolding in_dir_def by blast
  have "ins_st v ins' \<notin> {UnusedModified, UsedModified}"
  proof (cases "m = maa_id ins'")
    case True
    then show ?thesis using use unfolding ins_st_def by auto
  next
    case False
    then show ?thesis
      using single_writerD(2)[OF sw d(2)[unfolded ins_in_dir_def] d(1)] use
      unfolding ins_st_def writer_states_def by fastforce
  qed
  then show ?thesis unfolding getAddrRegionPermit_def Let_def acc get using busy by simp
qed

lemma denied_read:
  assumes sh: "dir_shape v" and d: "in_dir v m (addrRangeID ins')" "ins_in_dir v ins'"
    and use: "rg_at v m (addrRangeID ins') = UsingModified" and sw: "single_writer v"
    and acc: "accessType ins' = READ"
  shows "getAddrRegionPermit ce v ins' = Inr (False, v)"
proof -
  have get: "rg_get v (maa_id ins') (addrRangeID ins') = Inr (ins_st v ins')"
    using rg_get_at[OF sh] d(2) unfolding ins_in_dir_def ins_st_def by blast
  have busy: "rg_any v (addrRangeID ins') {TransientModified, UnusedModified, UsingModified}"
    using rg_any_at[OF sh] d(1) use unfolding in_dir_def by blast
  have "ins_st v ins' \<in> {RG_Invalid, UsingModified}"
  proof (cases "m = maa_id ins'")
    case True
    then show ?thesis using use unfolding ins_st_def by auto
  next
    case False
    then show ?thesis
      using single_writerD(1)[OF sw d(1) d(2)[unfolded ins_in_dir_def] False] use
      unfolding ins_st_def writer_states_def by simp
  qed
  then show ?thesis unfolding getAddrRegionPermit_def Let_def acc get using busy by auto
qed

lemma granted_state:
  assumes "permit_outcome t v ins True v'" "accessType ins \<noteq> COMPUTE" "ins_in_dir v ins"
  shows "ins_in_dir v' ins" "ins_st v' ins = UsingModified \<or> accessType ins = READ \<and> ins_st v' ins = UsingShared"
proof -
  have "ins_in_dir v' ins \<and> (ins_st v' ins = UsingModified \<or> accessType ins = READ \<and> ins_st v' ins = UsingShared)"
    using assms(1)
  proof cases
    case po_shared
    then show ?thesis using dir_updD(2,3)[OF po_shared(3)] assms(3)
      unfolding ins_in_dir_def ins_st_def by (auto simp: set_key_simps)
  next
    case po_modified
    then show ?thesis using dir_updD(2,3)[OF po_modified(2)] assms(3)
      unfolding ins_in_dir_def ins_st_def by (auto simp: set_key_simps)
  qed (use assms(2) in auto)
  then show "ins_in_dir v' ins" "ins_st v' ins = UsingModified \<or> accessType ins = READ \<and> ins_st v' ins = UsingShared"
    by auto
qed

text \<open>
  C25.  A granted permit is exclusive: while a granted instruction runs, every conflicting request for
  the same region, from whichever accelerator, is refused and leaves the directory as it is, and
  the instruction can be finished.  Two requests conflict when one of them writes.
\<close>

theorem permit_excludes_conflicts:
  assumes "dir_reachable v" "askable v ins" "accessType ins \<noteq> COMPUTE"
    and "getAddrRegionPermit ce v ins = Inr (True, v')"
    and "ins_in_dir v other" "addrRangeID other = addrRangeID ins"
    and "accessType ins = WRITE \<and> accessType other = READ \<or> accessType other = WRITE"
  shows "getAddrRegionPermit ce' v' other = Inr (False, v') \<and> is_ok (inv_finishInstruction v' ins)"
proof -
  have inv: "dir_inv v" using dir_reachable_inv[OF assms(1)] .
  have po: "permit_outcome (ce 100) v ins True v'"
    using permit_outcome_ok[OF inv assms(2), of ce] assms(4) by auto
  have d: "ins_in_dir v ins" using assms(2) unfolding askable_def by simp
  have "dir_inv v'" using permit_outcome_inv[OF po inv] d by blast
  then have sh: "dir_shape v'" and sw: "single_writer v'" unfolding dir_inv_def by auto
  note g = granted_state[OF po assms(3) d]
  have dims: "in_dir v' = in_dir v" using po
    by cases (auto simp: fun_eq_iff dir_upd_def in_dir_def)
  have dm: "in_dir v' (maa_id ins) (addrRangeID other)" "ins_in_dir v' other"
    using g(1) assms(5,6) dims unfolding ins_in_dir_def by simp_all
  have st: "rg_at v' (maa_id ins) (addrRangeID other) = ins_st v' ins" using assms(6) unfolding ins_st_def by simp
  have "getAddrRegionPermit ce' v' other = Inr (False, v')"
  proof (cases "accessType other = WRITE")
    case True
    then show ?thesis using denied_write[OF sh dm _ sw] g(2) st by auto
  next
    case False
    then show ?thesis using denied_read[OF sh dm _ sw] g(2) st assms(7) by auto
  qed
  moreover have "is_ok (inv_finishInstruction v' ins)"
  proof -
    have get: "rg_get v' (maa_id ins) (addrRangeID ins) = Inr (ins_st v' ins)"
      using rg_get_at[OF sh] g(1) unfolding ins_in_dir_def ins_st_def by blast
    have "is_ok (rg_set v' (maa_id ins) (addrRangeID ins) s)" for s
      by (rule rg_set_outcome[OF sh g(1), of s]) simp
    then show ?thesis using g(2) unfolding inv_finishInstruction_def Let_def get by auto
  qed
  ultimately show ?thesis by blast
qed

lemma settled_granted:
  assumes sh: "dir_shape v" and d: "ins_in_dir v q" and st: "ins_st v q = settled q"
    and acc: "accessType q = READ \<or> accessType q = WRITE"
  obtains v' where "getAddrRegionPermit ce v q = Inr (True, v')"
proof -
  have get: "rg_get v (maa_id q) (addrRangeID q) = Inr (ins_st v q)"
    using rg_get_at[OF sh] d unfolding ins_in_dir_def ins_st_def by blast
  obtain a where a: "rg_set v (maa_id q) (addrRangeID q) UsingShared = Inr a" by (rule rg_set_outcome[OF sh d])
  obtain b where b: "rg_set v (maa_id q) (addrRangeID q) UsingModified = Inr b" by (rule rg_set_outcome[OF sh d])
  from acc show thesis
  proof
    assume "accessType q = READ"
    then have "getAddrRegionPermit ce v q = Inr (True, a)"
      using st a unfolding getAddrRegionPermit_def Let_def get settled_def by simp
    then show thesis by (rule that)
  next
    assume "accessType q = WRITE"
    then have "getAddrRegionPermit ce v q = Inr (True, b)"
      using st b unfolding getAddrRegionPermit_def Let_def get settled_def by simp
    then show thesis by (rule that)
  qed
qed

text \<open>
  C26.  Waiting ends: once the tick of a queued instruction and of those queued before it has passed,
  the transient event takes it off the queue and the next request for it is granted.
\<close>

theorem waiting_is_granted:
  assumes "dir_reachable v" "q \<in> set (take (length (takeWhile (\<lambda>t. t \<le> now) (transientTicks v))) (transientInstructions v))"
  shows "\<exists>h v1 v2. transientInstruction ce period now v = Inr (h, v1) \<and> q \<notin> set (transientInstructions v1) \<and>
    getAddrRegionPermit ce' v1 q = Inr (True, v2)"
proof -
  let ?n = "length (takeWhile (\<lambda>t. t \<le> now) (transientTicks v))"
  obtain h v1 where v1: "transientInstruction ce period now v = Inr (h, v1)" "dir_inv v1"
    "transientInstructions v1 = drop ?n (transientInstructions v)" "ins_in_dir v1 q" "ins_st v1 q = settled q"
    using transientInstruction_ok[OF dir_reachable_inv[OF assms(1)], of ce period now] assms(2) by blast
  have inv: "dir_inv v" using dir_reachable_inv[OF assms(1)] .
  have acc: "accessType q = READ \<or> accessType q = WRITE"
    using inv assms(2) unfolding dir_inv_def waiting_ok_def awaits_def by (meson in_set_takeD)
  have sh: "dir_shape v1" using v1(2) unfolding dir_inv_def by simp
  have "q \<notin> set (transientInstructions v1)"
    using v1(2,5) acc unfolding dir_inv_def waiting_ok_def awaits_def settled_def by auto
  moreover obtain v2 where "getAddrRegionPermit ce' v1 q = Inr (True, v2)"
    by (rule settled_granted[OF sh v1(4,5) acc])
  ultimately show ?thesis using v1(1) by blast
qed

theorem waiting_is_granted_witness:
  "\<exists>v h v1 v2. dir_reachable v \<and> transientInstructions v = [rg_ins 0 READ] \<and>
    transientInstruction clk_demo 1 100 v = Inr (h, v1) \<and> transientInstructions v1 = [] \<and>
    getAddrRegionPermit clk_demo v1 (rg_ins 0 READ) = Inr (True, v2)"
proof -
  obtain v where v: "dir_reachable v" "transientInstructions v = [rg_ins 0 READ]" "transientTicks v = [100]"
    by (rule dir_demo_waits[of READ]) auto
  then obtain h v1 v2 where r: "transientInstruction clk_demo 1 100 v = Inr (h, v1)"
    "getAddrRegionPermit clk_demo v1 (rg_ins 0 READ) = Inr (True, v2)"
    using waiting_is_granted[OF v(1), of "rg_ins 0 READ" 100 clk_demo 1 clk_demo] by auto
  moreover have "transientInstructions v1 = []"
    using transientInstruction_ok[OF dir_reachable_inv[OF v(1)], of clk_demo 1 100] r(1) v(2,3) by auto
  ultimately show ?thesis using v by blast
qed

theorem permit_excludes_conflicts_witness:
  "\<exists>v v'. dir_reachable v \<and> getAddrRegionPermit clk_demo v (rg_ins 0 WRITE) = Inr (True, v') \<and>
    getAddrRegionPermit clk_demo v' (rg_ins 1 READ) = Inr (False, v') \<and> is_ok (inv_finishInstruction v' (rg_ins 0 WRITE))"
proof -
  obtain v where v: "dir_reachable v" "transientInstructions v = [rg_ins 0 WRITE]" "transientTicks v = [100]"
    "inv_num_maas v = 2" "inv_num_tiles v = 2"
    by (rule dir_demo_waits[of WRITE]) auto
  obtain h v1 where v1: "transientInstruction clk_demo 1 100 v = Inr (h, v1)" "transientInstructions v1 = []"
    "ins_in_dir v1 (rg_ins 0 WRITE)" "ins_st v1 (rg_ins 0 WRITE) = settled (rg_ins 0 WRITE)"
    "\<forall>m r. in_dir v m r \<longrightarrow> in_dir v1 m r"
    using transientInstruction_ok[OF dir_reachable_inv[OF v(1)], of clk_demo 1 100] v(2,3) by auto
  have r: "dir_reachable v1" using v(1) ds_transient[OF v1(1)] unfolding dir_reachable_def
    by (meson rtranclp.rtrancl_into_rtrancl)
  have acc: "accessType (rg_ins 0 WRITE) = WRITE" "accessType (rg_ins 1 READ) = READ"
    "maa_id (rg_ins 1 READ) = 1" "maa_id (rg_ins 0 WRITE) = 0" "addrRangeID (rg_ins 1 READ) = addrRangeID (rg_ins 0 WRITE)"
    by code_simp+
  have ask: "askable v1 (rg_ins 0 WRITE)" using v1(2,3) acc unfolding askable_def by simp
  have sh: "dir_shape v1" using dir_reachable_inv[OF r] unfolding dir_inv_def by blast
  obtain v2 where v2: "getAddrRegionPermit clk_demo v1 (rg_ins 0 WRITE) = Inr (True, v2)"
    by (rule settled_granted[OF sh v1(3,4)]) (use acc in auto)
  have reg: "addrRangeID (rg_ins 0 WRITE) = 1" by code_simp
  have "in_dir v 1 1" using v(4,5) unfolding in_dir_def by simp
  then have "ins_in_dir v1 (rg_ins 1 READ)" using v1(5) acc reg unfolding ins_in_dir_def by simp
  from permit_excludes_conflicts[OF r ask _ v2 this, of clk_demo] acc
  have "getAddrRegionPermit clk_demo v2 (rg_ins 1 READ) = Inr (False, v2) \<and> is_ok (inv_finishInstruction v2 (rg_ins 0 WRITE))"
    by simp
  then show ?thesis using r v2 by blast
qed

end
