(* ===== verification/Invalidator_Tile.thy ===== *)
theory Invalidator_Tile
  imports Invalidator_Model
begin

text \<open>
  The correctness of the tile invalidator: whatever the cores reply and however often a snoop has to
  be sent again, an invalidation that reports completion has removed every line of its tile.
\<close>

section \<open>Invalidating a tile\<close>

text \<open>
  The lines of the tile under invalidation, by element; the addresses of lines; and an environment
  that remembers the addresses for which a core has promised its copy.
\<close>

definition el_line :: "invalidator \<Rightarrow> nat \<Rightarrow> int" where
  "el_line v i = get_cl_id v (my_invalidating_tile v) (int i) (my_word_size v)"

definition line_addr :: "invalidator \<Rightarrow> int \<Rightarrow> Addr" where
  "line_addr v l = my_base_addr v + word_of_int (l * 64)"

definition line_cached :: "invalidator \<Rightarrow> int \<Rightarrow> bool" where
  "line_cached v l \<longleftrightarrow> cl_status v ! nat l \<noteq> Uncached"

definition passed_cached :: "invalidator \<Rightarrow> nat \<Rightarrow> int set" where
  "passed_cached v i = {l \<in> el_line v ` {..<i}. line_cached v l}"

definition snoop_log :: "(Addr list \<Rightarrow> Addr \<Rightarrow> snoop_reply) \<Rightarrow> Addr list \<Rightarrow> Addr \<Rightarrow> snoop_reply \<times> Addr list" where
  "snoop_log reply e a = (reply e a, if reply e a = Cache_Responds then a # e else e)"

definition inv_geometry :: "invalidator \<Rightarrow> bool" where
  "inv_geometry v \<longleftrightarrow> my_base_addr v \<noteq> 0 \<and>
     unat (my_base_addr v) + length (cl_status v) * 64 \<le> 2 ^ 64 \<and>
     (\<forall>i < inv_num_tile_elements v. 0 \<le> el_line v i \<and> el_line v i < int (length (cl_status v)))"

text \<open>The fields an invalidation never changes once the tile is decoded.\<close>

definition inv_static :: "invalidator \<Rightarrow> nat \<times> nat \<times> Addr \<times> int \<times> nat \<times> Instruction option \<times> nat" where
  "inv_static v = (inv_num_tiles v, inv_num_tile_elements v, my_base_addr v, my_invalidating_tile v, my_word_size v,
     my_instruction v, length (cl_status v))"

lemma inv_staticD:
  assumes "inv_static v' = inv_static v"
  shows "el_line v' = el_line v" "line_addr v' = line_addr v" "inv_geometry v' = inv_geometry v"
    "inv_num_tile_elements v' = inv_num_tile_elements v" "length (cl_status v') = length (cl_status v)"
    "my_instruction v' = my_instruction v" "my_invalidating_tile v' = my_invalidating_tile v"
  using assms unfolding inv_static_def el_line_def[abs_def] line_addr_def[abs_def] inv_geometry_def get_cl_id_def by auto

lemma el_line_mono: "i \<le> j \<Longrightarrow> el_line v i \<le> el_line v j"
  unfolding el_line_def get_cl_id_def
  by (intro zdiv_mono1) (auto simp: mult_right_mono)

lemma el_line_again:
  assumes "el_line v i \<in> el_line v ` {..<i}"
  shows "0 < i \<and> el_line v i = el_line v (i - 1)"
proof -
  obtain j where j: "j < i" "el_line v i = el_line v j" using assms by auto
  moreover have "el_line v j \<le> el_line v (i - 1)" "el_line v (i - 1) \<le> el_line v i"
    using j(1) by (auto intro: el_line_mono)
  ultimately show ?thesis by auto
qed

lemma line_addr_unat:
  assumes "unat (my_base_addr v) + length (cl_status v) * 64 \<le> 2 ^ 64" "0 \<le> l" "l < int (length (cl_status v))"
  shows "unat (line_addr v l) = unat (my_base_addr v) + nat l * 64"
proof -
  have eq: "word_of_int (l * 64) = (of_nat (nat l * 64) :: Addr)" using assms(2) by (simp add: nat_mult_distrib)
  have b: "unat (my_base_addr v) + nat l * 64 < 2 ^ 64" using assms by linarith
  have small: "n < 2 ^ 64 \<Longrightarrow> unat (of_nat n :: Addr) = n" for n by (simp add: unat_of_nat)
  have "unat (of_nat (nat l * 64) :: Addr) = nat l * 64" using b by (intro small) linarith
  then show ?thesis using b unfolding line_addr_def eq
    by (subst unat_plus_if_size) (simp add: word_size del: of_nat_mult)
qed

lemma line_addr_inj:
  assumes "unat (my_base_addr v) + length (cl_status v) * 64 \<le> 2 ^ 64"
    "0 \<le> l" "l < int (length (cl_status v))" "0 \<le> l'" "l' < int (length (cl_status v))" "line_addr v l = line_addr v l'"
  shows "l = l'"
  using line_addr_unat[OF assms(1-3)] line_addr_unat[OF assms(1,4,5)] assms by simp

lemma line_addr_nonzero:
  assumes "unat (my_base_addr v) + length (cl_status v) * 64 \<le> 2 ^ 64" "my_base_addr v \<noteq> 0"
    "0 \<le> l" "l < int (length (cl_status v))"
  shows "line_addr v l \<noteq> 0"
proof
  assume "line_addr v l = 0"
  then have "unat (my_base_addr v) = 0" using line_addr_unat[OF assms(1,3,4)] by simp
  then show False using assms(2) by (simp add: unat_eq_zero)
qed

section \<open>The invariant of the walk\<close>

definition counts_ok :: "invalidator \<Rightarrow> nat \<Rightarrow> bool" where
  "counts_ok v i \<longleftrightarrow> my_received_responses v + card (passed_cached v i) = my_total_invalidations_sent v"

definition last_ok :: "invalidator \<Rightarrow> nat \<Rightarrow> bool" where
  "last_ok v i \<longleftrightarrow>
     (0 < i \<and> line_cached v (el_line v (i - 1)) \<longrightarrow> my_last_block_addr v = line_addr v (el_line v (i - 1))) \<and>
     (my_last_block_addr v = 0 \<or> my_last_block_addr v \<in> line_addr v ` el_line v ` {..<i})"

definition promised_ok :: "invalidator \<Rightarrow> Addr list \<Rightarrow> nat \<Rightarrow> bool" where
  "promised_ok v e i \<longleftrightarrow> distinct e \<and> set e \<subseteq> line_addr v ` passed_cached v i"

definition walk_ok :: "invalidator \<Rightarrow> Addr list \<Rightarrow> nat \<Rightarrow> bool" where
  "walk_ok v e i \<longleftrightarrow> i \<le> inv_num_tile_elements v \<and> counts_ok v i \<and> last_ok v i \<and> promised_ok v e i"

definition unsent :: "invalidator \<Rightarrow> Addr list \<Rightarrow> nat \<Rightarrow> bool" where
  "unsent v e i \<longleftrightarrow> 0 < i \<and> my_cl_id v = el_line v (i - 1) \<and> line_cached v (my_cl_id v) \<and>
     my_last_block_addr v = line_addr v (my_cl_id v) \<and> my_last_block_addr v \<notin> set e"

definition elsewhere_same :: "invalidator \<Rightarrow> invalidator \<Rightarrow> bool" where
  "elsewhere_same v v' \<longleftrightarrow>
     (\<forall>l. 0 \<le> l \<and> l \<notin> el_line v ` {..<inv_num_tile_elements v} \<longrightarrow> cl_status v' ! nat l = cl_status v ! nat l)"

lemma geometry_line:
  assumes "inv_geometry v" "l \<in> el_line v ` {..<i}" "i \<le> inv_num_tile_elements v"
  shows "0 \<le> l" "l < int (length (cl_status v))"
  using assms unfolding inv_geometry_def by auto

lemma geometry_inj:
  assumes "inv_geometry v" "l \<in> el_line v ` {..<i}" "l' \<in> el_line v ` {..<i}" "i \<le> inv_num_tile_elements v"
    "line_addr v l = line_addr v l'"
  shows "l = l'"
  using line_addr_inj[of v l l'] geometry_line[OF assms(1) _ assms(4)] assms unfolding inv_geometry_def by blast

lemma passed_line:
  assumes "inv_geometry v" "l \<in> passed_cached v i" "i \<le> inv_num_tile_elements v"
  shows "0 \<le> l" "nat l < length (cl_status v)"
proof -
  have "l \<in> el_line v ` {..<i}" using assms(2) unfolding passed_cached_def by simp
  from geometry_line[OF assms(1) this assms(3)] show "0 \<le> l" "nat l < length (cl_status v)" by auto
qed

lemma passed_cached_finite [simp]: "finite (passed_cached v i)"
  unfolding passed_cached_def by simp

text \<open>A line that answers, by snoop or by data, leaves the set of cached lines and is counted.\<close>

lemma passed_cached_uncache:
  assumes "inv_geometry v" "i \<le> inv_num_tile_elements v" "l \<in> passed_cached v i"
    and "v' = v\<lparr> cl_status := (cl_status v)[nat l := Uncached] \<rparr>"
  shows "passed_cached v' i = passed_cached v i - {l}"
proof -
  have l: "0 \<le> l" "nat l < length (cl_status v)"
    by (rule passed_line[OF assms(1,3,2)])+
  have el: "el_line v' = el_line v" unfolding assms(4) el_line_def[abs_def] get_cl_id_def by simp
  have c: "line_cached v' k \<longleftrightarrow> line_cached v k \<and> k \<noteq> l" if "0 \<le> k" for k
    using l that unfolding line_cached_def assms(4) by (auto simp: nth_list_update nat_eq_iff2)
  show ?thesis
    unfolding passed_cached_def el using c geometry_line(1)[OF assms(1) _ assms(2)] by blast
qed

lemma answer_walk:
  assumes g: "inv_geometry v" and w: "walk_ok v e i" and l: "l \<in> passed_cached v i" and e': "distinct e'"
    "set e' \<subseteq> set e" "line_addr v l \<notin> set e'"
    and v': "v' = v\<lparr> cl_status := (cl_status v)[nat l := Uncached], my_received_responses := Suc (my_received_responses v) \<rparr>"
  shows "walk_ok v' e' i" "inv_static v' = inv_static v" "elsewhere_same v v'"
proof -
  have i: "i \<le> inv_num_tile_elements v" using w unfolding walk_ok_def by simp
  define u where "u = v\<lparr> cl_status := (cl_status v)[nat l := Uncached] \<rparr>"
  have p: "passed_cached v' i = passed_cached v i - {l}"
    using passed_cached_uncache[OF g i l u_def] unfolding u_def v' passed_cached_def line_cached_def
      el_line_def[abs_def] get_cl_id_def by simp
  show st: "inv_static v' = inv_static v" unfolding inv_static_def v' by simp
  note s = inv_staticD[OF st]
  have lb: "0 \<le> l" "nat l < length (cl_status v)"
    by (rule passed_line[OF g l i])+
  have pos: "0 < card (passed_cached v i)" using l by (auto simp: card_gt_0_iff)
  have "counts_ok v' i"
    using w l pos unfolding counts_ok_def walk_ok_def p by (simp add: v' card_Diff_singleton)
  moreover have "last_ok v' i"
  proof -
    have "line_cached v k" if "line_cached v' k" "0 \<le> k" for k
      using that lb unfolding line_cached_def v' by (auto simp: nth_list_update split: if_splits)
    moreover have "0 < i \<Longrightarrow> 0 \<le> el_line v (i - 1)" using geometry_line(1)[OF g _ i, of "el_line v (i - 1)"] by simp
    ultimately show ?thesis using w unfolding walk_ok_def last_ok_def s by (simp add: v')
  qed
  moreover have "promised_ok v' e' i"
  proof -
    have "set e' \<subseteq> line_addr v ` (passed_cached v i - {l})"
      using e' w unfolding walk_ok_def promised_ok_def by blast
    then show ?thesis using e' unfolding promised_ok_def p s by blast
  qed
  ultimately show "walk_ok v' e' i" using i unfolding walk_ok_def s by simp
  show "elsewhere_same v v'"
    unfolding elsewhere_same_def
  proof (intro allI impI)
    fix k
    assume k: "0 \<le> k \<and> k \<notin> el_line v ` {..<inv_num_tile_elements v}"
    have "l \<in> el_line v ` {..<inv_num_tile_elements v}" using l i unfolding passed_cached_def by auto
    then have "k \<noteq> l" using k by blast
    then have "nat k \<noteq> nat l" using k lb(1) by (simp add: eq_nat_nat_iff)
    then show "cl_status v' ! nat k = cl_status v ! nat k" unfolding v' by simp
  qed
qed

lemma elsewhere_same_refl: "cl_status v' = cl_status v \<Longrightarrow> elsewhere_same v v'"
  unfolding elsewhere_same_def by simp

lemma elsewhere_same_trans:
  "elsewhere_same u v \<Longrightarrow> inv_static v = inv_static u \<Longrightarrow> elsewhere_same v w \<Longrightarrow> elsewhere_same u w"
  unfolding elsewhere_same_def using inv_staticD(1,4)[of v u] by metis

lemma send_walk:
  assumes g: "inv_geometry v" and w: "walk_ok v e i" and u: "unsent v e i"
  obtains (failed) "sendOutstandingPacket (snoop_log reply) e v = Inr (False, e, v)"
  | (sent) e' v' where "sendOutstandingPacket (snoop_log reply) e v = Inr (True, e', v')" "walk_ok v' e' i"
    "inv_static v' = inv_static v" "elsewhere_same v v'" "inv_state v' = inv_state v"
proof -
  let ?a = "my_last_block_addr v" and ?l = "my_cl_id v"
  have i: "i \<le> inv_num_tile_elements v" "0 < i" using w u unfolding walk_ok_def unsent_def by auto
  have l: "?l \<in> passed_cached v i" using u i(2) unfolding unsent_def passed_cached_def by auto
  have lb: "0 \<le> ?l" "nat ?l < length (cl_status v)" by (rule passed_line[OF g l i(1)])+
  have ae: "?a = line_addr v ?l" "?a \<notin> set e" using u unfolding unsent_def by auto
  show thesis
  proof (cases "reply e ?a")
    case Send_Failed
    then have "sendOutstandingPacket (snoop_log reply) e v = Inr (False, e, v)"
      unfolding sendOutstandingPacket_def snoop_log_def by simp
    then show thesis by (rule failed)
  next
    case Cache_Responds
    have "walk_ok v (?a # e) i"
      using w ae l unfolding walk_ok_def promised_ok_def by auto
    moreover have "sendOutstandingPacket (snoop_log reply) e v = Inr (True, ?a # e, v)"
      using Cache_Responds unfolding sendOutstandingPacket_def snoop_log_def by simp
    ultimately show thesis using sent elsewhere_same_refl by blast
  next
    case No_Cache_Responds
    define v' where "v' = v\<lparr> cl_status := (cl_status v)[nat ?l := Uncached], my_received_responses := Suc (my_received_responses v) \<rparr>"
    have "sendOutstandingPacket (snoop_log reply) e v = Inr (True, e, v')"
      using No_Cache_Responds lb unfolding sendOutstandingPacket_def snoop_log_def v'_def
      by (simp add: arr_set_def nat_less_iff)
    moreover have "distinct e" using w unfolding walk_ok_def promised_ok_def by simp
    note answer_walk[OF g w l this subset_refl _ v'_def]
    ultimately show thesis using sent ae unfolding v'_def by simp
  qed
qed

text \<open>Passing one more element: an uncached line, a line already snooped, or a line to snoop now.\<close>

lemma passed_cached_Suc:
  "passed_cached v (Suc i) = (if line_cached v (el_line v i) then insert (el_line v i) (passed_cached v i) else passed_cached v i)"
  unfolding passed_cached_def by (auto simp: lessThan_Suc)

lemma passed_cached_cong:
  assumes "el_line v' = el_line v" "cl_status v' = cl_status v"
  shows "passed_cached v' = passed_cached v"
  unfolding passed_cached_def[abs_def] line_cached_def assms ..

lemma pass_quietly:
  assumes g: "inv_geometry v" and w: "walk_ok v e i" and i: "i < inv_num_tile_elements v"
    and q: "line_cached v (el_line v i) \<longrightarrow> line_addr v (el_line v i) = my_last_block_addr v"
  shows "walk_ok v e (Suc i)"
proof -
  let ?l = "el_line v i"
  have "passed_cached v (Suc i) = passed_cached v i"
  proof (cases "line_cached v ?l")
    case True
    have b: "0 \<le> ?l" "?l < int (length (cl_status v))" using g i unfolding inv_geometry_def by auto
    then have "line_addr v ?l \<noteq> 0" using g line_addr_nonzero unfolding inv_geometry_def by blast
    then obtain k where k: "k \<in> el_line v ` {..<i}" "line_addr v ?l = line_addr v k"
      using True q w unfolding walk_ok_def last_ok_def by auto
    then have "?l = k" using geometry_inj[OF g, of ?l "Suc i" k] i by auto
    then show ?thesis using k True unfolding passed_cached_def by (auto simp: lessThan_Suc)
  qed (simp add: passed_cached_Suc)
  then show ?thesis using w i q unfolding walk_ok_def counts_ok_def promised_ok_def last_ok_def
    by (auto simp: lessThan_Suc)
qed

lemma pass_snooping:
  assumes g: "inv_geometry v" and w: "walk_ok v e i" and i: "i < inv_num_tile_elements v"
    and c: "line_cached v (el_line v i)" "line_addr v (el_line v i) \<noteq> my_last_block_addr v"
    and st: "inv_static v' = inv_static v" "cl_status v' = cl_status v" "my_cl_id v' = el_line v i"
      "my_last_block_addr v' = line_addr v (el_line v i)" "my_received_responses v' = my_received_responses v"
      "my_total_invalidations_sent v' = Suc (my_total_invalidations_sent v)"
  shows "walk_ok v' e (Suc i)" "unsent v' e (Suc i)"
proof -
  let ?l = "el_line v i"
  note s = inv_staticD[OF st(1)]
  have fresh: "?l \<notin> el_line v ` {..<i}"
    using el_line_again[of v i] w c unfolding walk_ok_def last_ok_def by auto
  have p: "passed_cached v' (Suc i) = insert ?l (passed_cached v i)" "?l \<notin> passed_cached v i"
    using c(1) fresh passed_cached_cong[OF s(1) st(2)] by (simp add: passed_cached_Suc, simp add: passed_cached_def)
  have "counts_ok v' (Suc i)"
    using w p st unfolding walk_ok_def counts_ok_def by simp
  moreover have "last_ok v' (Suc i)"
    unfolding last_ok_def s st by auto
  moreover have "promised_ok v' e (Suc i)"
    using w unfolding walk_ok_def promised_ok_def s p by auto
  ultimately show "walk_ok v' e (Suc i)" using i unfolding walk_ok_def s by simp
  have "line_addr v ?l \<notin> set e"
  proof
    assume "line_addr v ?l \<in> set e"
    then obtain k where k: "k \<in> passed_cached v i" "line_addr v ?l = line_addr v k"
      using w unfolding walk_ok_def promised_ok_def by auto
    then have "?l = k" using geometry_inj[OF g, of ?l "Suc i" k] i unfolding passed_cached_def by auto
    then show False using p(2) k(1) by simp
  qed
  then show "unsent v' e (Suc i)" using c st unfolding unsent_def s by (simp add: line_cached_def)
qed

lemma walk_ok_cong:
  assumes st: "inv_static v' = inv_static v" and "cl_status v' = cl_status v" "my_last_block_addr v' = my_last_block_addr v"
    "my_received_responses v' = my_received_responses v" "my_total_invalidations_sent v' = my_total_invalidations_sent v"
  shows "walk_ok v' e i = walk_ok v e i"
proof -
  note s = inv_staticD[OF st]
  have "passed_cached v' = passed_cached v" by (rule passed_cached_cong[OF s(1) assms(2)])
  moreover have "line_cached v' = line_cached v" unfolding line_cached_def[abs_def] assms(2) ..
  ultimately show ?thesis unfolding walk_ok_def counts_ok_def last_ok_def promised_ok_def s using assms by simp
qed

definition walk_result :: "invalidator \<Rightarrow> bool \<Rightarrow> Addr list \<Rightarrow> invalidator \<Rightarrow> bool" where
  "walk_result v ok e' v' \<longleftrightarrow> inv_static v' = inv_static v \<and> inv_state v' = inv_state v \<and> elsewhere_same v v' \<and>
     (if ok then walk_ok v' e' (inv_num_tile_elements v)
      else walk_ok v' e' (my_i v') \<and> unsent v' e' (my_i v') \<and> my_outstanding_pkt v')"

lemma walk_result_trans:
  assumes "inv_static v1 = inv_static v" "elsewhere_same v v1" "inv_state v1 = inv_state v" "walk_result v1 ok e' v'"
  shows "walk_result v ok e' v'"
  using assms elsewhere_same_trans[OF assms(2,1)] inv_staticD(4)[OF assms(1)] unfolding walk_result_def by auto

lemma request_loop_walk:
  assumes "inv_geometry v" "walk_ok v e i"
  shows "\<exists>ok e' v'. inv_request_loop (snoop_log reply) [i..<inv_num_tile_elements v] e v = Inr (ok, e', v') \<and>
    walk_result v ok e' v'"
  using assms
proof (induction "inv_num_tile_elements v - i" arbitrary: v e i)
  case 0
  then have i: "i = inv_num_tile_elements v" unfolding walk_ok_def by simp
  have "inv_static (v\<lparr> my_i := i \<rparr>) = inv_static v" unfolding inv_static_def by simp
  moreover from this have "walk_ok (v\<lparr> my_i := i \<rparr>) e i"
    using 0(3) by (subst walk_ok_cong[of _ v]) simp_all
  ultimately have "walk_result v True e (v\<lparr> my_i := i \<rparr>)" using i by (simp add: walk_result_def elsewhere_same_refl)
  then show ?case using i by auto
next
  case (Suc n)
  let ?N = "inv_num_tile_elements v" and ?l = "el_line v i"
  have i: "i < ?N" using Suc.hyps(2) by simp
  have n: "n = ?N - Suc i" using Suc.hyps(2) by simp
  have ups: "[i..<?N] = i # [Suc i..<?N]" using i by (rule upt_conv_Cons)
  define v1 where "v1 = v\<lparr> my_i := i, my_cl_id := ?l \<rparr>"
  have st1: "inv_static v1 = inv_static v" unfolding inv_static_def v1_def by simp
  note s1 = inv_staticD[OF st1]
  have same1: "cl_status v1 = cl_status v" "my_last_block_addr v1 = my_last_block_addr v"
    "my_received_responses v1 = my_received_responses v" "my_total_invalidations_sent v1 = my_total_invalidations_sent v"
    "my_base_addr v1 = my_base_addr v" "my_cl_id v1 = ?l" "inv_state v1 = inv_state v"
    unfolding v1_def by simp_all
  have g1: "inv_geometry v1" and w1: "walk_ok v1 e i"
    using Suc.prems s1(3) walk_ok_cong[OF st1 same1(1-4)] by auto
  have b: "0 \<le> ?l" "nat ?l < length (cl_status v1)"
    using Suc.prems(1) i same1(1) unfolding inv_geometry_def by auto
  have get: "arr_get (cl_status v1) ?l = Inr (cl_status v1 ! nat ?l)" using b by (simp add: arr_get_def nat_less_iff)
  have addr: "my_base_addr v1 + word_of_int (?l * 64) = line_addr v1 ?l" unfolding line_addr_def ..
  have loop: "inv_request_loop (snoop_log reply) (i # is) e v =
      (if line_cached v1 ?l \<and> line_addr v1 ?l \<noteq> my_last_block_addr v1 then
         rbind (sendOutstandingPacket (snoop_log reply) e
            (let v2 = createMyPacket (v1\<lparr> my_last_block_addr := line_addr v1 ?l \<rparr>) in
             v2\<lparr> my_total_invalidations_sent := Suc (my_total_invalidations_sent v2) \<rparr>))
           (\<lambda>(ok, e', v3). if ok then inv_request_loop (snoop_log reply) is e' v3
              else Inr (False, e', v3\<lparr> my_i := Suc i \<rparr>))
       else inv_request_loop (snoop_log reply) is e v1)" for "is"
    unfolding inv_request_loop.simps Let_def el_line_def[symmetric] v1_def[symmetric] get addr
    by (simp only: rbind.simps line_cached_def if_bool_eq_conj) simp
  show ?case
  proof (cases "line_cached v1 ?l \<and> line_addr v1 ?l \<noteq> my_last_block_addr v1")
    case False
    have "walk_ok v1 e (Suc i)"
      using pass_quietly[OF g1 w1, unfolded s1(1,4), OF i] False by auto
    then obtain ok e' v' where r: "inv_request_loop (snoop_log reply) [Suc i..<?N] e v1 = Inr (ok, e', v')" "walk_result v1 ok e' v'"
      using Suc.hyps(1)[of v1 "Suc i" e] n g1 unfolding s1(4) by auto
    then show ?thesis
      using walk_result_trans[OF st1 elsewhere_same_refl[OF same1(1)] same1(7) r(2)] False unfolding ups loop by auto
  next
    case True
    define v2 where "v2 = (let v2 = createMyPacket (v1\<lparr> my_last_block_addr := line_addr v1 ?l \<rparr>) in
             v2\<lparr> my_total_invalidations_sent := Suc (my_total_invalidations_sent v2) \<rparr>)"
    have st2: "inv_static v2 = inv_static v1" "cl_status v2 = cl_status v1" "my_cl_id v2 = el_line v1 i"
      "my_last_block_addr v2 = line_addr v1 (el_line v1 i)" "my_received_responses v2 = my_received_responses v1"
      "my_total_invalidations_sent v2 = Suc (my_total_invalidations_sent v1)" "my_outstanding_pkt v2"
      unfolding v2_def s1(1) Let_def createMyPacket_def inv_static_def by (simp_all add: same1)
    note p = pass_snooping[OF g1 w1 _ _ _ st2(1-6), unfolded s1(1,4), OF i]
    have g2: "inv_geometry v2" using g1 inv_staticD(3)[OF st2(1)] by simp
    have stv: "inv_static v2 = inv_static v" using st1 st2(1) by simp
    have ss: "inv_state v2 = inv_state v" unfolding v2_def Let_def createMyPacket_def by (simp add: same1)
    have el: "elsewhere_same v v2" using same1(1) st2(2) by (intro elsewhere_same_refl) simp
    show ?thesis
    proof (rule send_walk[OF g2 p(1) p(2), of reply])
      assume f: "sendOutstandingPacket (snoop_log reply) e v2 = Inr (False, e, v2)"
      let ?v' = "v2\<lparr> my_i := Suc i \<rparr>"
      have "inv_static ?v' = inv_static v2" unfolding inv_static_def by simp
      then have "walk_result v2 False e ?v'"
        using p True st2(7) walk_ok_cong[of ?v' v2] inv_staticD[of ?v' v2]
        by (auto simp: walk_result_def elsewhere_same_refl unsent_def line_cached_def)
      then show ?thesis
        using f True walk_result_trans[OF stv el ss] unfolding ups loop v2_def[symmetric] by auto
    next
      fix e' v3
      assume sent: "sendOutstandingPacket (snoop_log reply) e v2 = Inr (True, e', v3)" "walk_ok v3 e' (Suc i)"
        "inv_static v3 = inv_static v2" "elsewhere_same v2 v3" "inv_state v3 = inv_state v2"
      have N3: "inv_num_tile_elements v3 = ?N" and g3: "inv_geometry v3"
        using sent(3) g2 stv inv_staticD(3,4) by metis+
      then obtain ok e4 v4 where r: "inv_request_loop (snoop_log reply) [Suc i..<?N] e' v3 = Inr (ok, e4, v4)" "walk_result v3 ok e4 v4"
        using Suc.hyps(1)[of v3 "Suc i" e'] n sent(2) unfolding N3 by auto
      have "walk_result v ok e4 v4"
        using walk_result_trans[OF _ _ _ r(2)] sent(3,5) stv ss elsewhere_same_trans[OF el stv sent(4)] by simp
      then show ?thesis using sent(1) r(1) True unfolding ups loop v2_def[symmetric] by auto
    qed (use True s1 in auto)
  qed
qed

section \<open>Runs of an invalidation\<close>

text \<open>
  The controller calls \<open>executeInstruction\<close> whenever it likes; the data a core has promised arrives at
  any time, in any order.
\<close>

inductive tile_step :: "Addr list \<times> invalidator \<Rightarrow> Addr list \<times> invalidator \<Rightarrow> bool" where
  ts_execute: "inv_executeInstruction (snoop_log reply) e v = Inr (None, e', v') \<Longrightarrow> tile_step (e, v) (e', v')"
| ts_data: "a \<in> set e \<Longrightarrow> line_addr v (get_cl_id v tile element 4) = a \<Longrightarrow>
    inv_recvData v s tile element ws = Inr (again, v', s') \<Longrightarrow> tile_step (e, v) (remove1 a e, v')"

definition inv_decoded :: "invalidator \<Rightarrow> int \<Rightarrow> nat \<Rightarrow> invalidator" where
  "inv_decoded v t ws = v\<lparr> my_invalidating_tile := t, my_word_size := ws, my_i := 0, my_last_block_addr := 0,
     my_outstanding_pkt := False, my_received_responses := 0, my_total_invalidations_sent := 0, my_cl_id := - 1,
     inv_state := Inv_Request \<rparr>"

definition tile_start :: "invalidator \<Rightarrow> Instruction \<Rightarrow> nat \<Rightarrow> bool" where
  "tile_start v ins ws \<longleftrightarrow> inv_state v = Inv_Idle \<and> my_instruction v = Some ins \<and> decode_tile ins \<noteq> - 1 \<and>
     getWordSize ins (decode_tile ins) = Inr ws \<and> inv_geometry (inv_decoded v (decode_tile ins) ws)"

definition in_request :: "invalidator \<Rightarrow> Addr list \<Rightarrow> invalidator \<Rightarrow> bool" where
  "in_request d e v \<longleftrightarrow> inv_static v = inv_static d \<and> elsewhere_same d v \<and> inv_state v = Inv_Request \<and>
     walk_ok v e (my_i v) \<and> (my_outstanding_pkt v \<longrightarrow> unsent v e (my_i v))"

definition in_response :: "invalidator \<Rightarrow> Addr list \<Rightarrow> invalidator \<Rightarrow> bool" where
  "in_response d e v \<longleftrightarrow> inv_static v = inv_static d \<and> elsewhere_same d v \<and> inv_state v = Inv_Response \<and>
     walk_ok v e (inv_num_tile_elements d)"

definition tile_stage :: "invalidator \<Rightarrow> invalidator \<Rightarrow> Addr list \<Rightarrow> invalidator \<Rightarrow> bool" where
  "tile_stage v0 d e v \<longleftrightarrow> e = [] \<and> v = v0 \<or> in_request d e v \<and> my_outstanding_pkt v \<or> in_response d e v"

lemma decoded_in_request: "in_request (inv_decoded v t ws) [] (inv_decoded v t ws)"
  unfolding in_request_def walk_ok_def counts_ok_def last_ok_def promised_ok_def passed_cached_def
  by (simp add: inv_decoded_def elsewhere_same_refl)

lemma request_stage:
  assumes g: "inv_geometry d" and r: "in_request d e v"
  shows "\<exists>ok e' v'. inv_request (snoop_log reply) e v = Inr (ok, e', v') \<and>
    (if ok then in_response d e' v' else in_request d e' v' \<and> my_outstanding_pkt v')"
proof -
  have d: "inv_static v = inv_static d" "elsewhere_same d v" "inv_state v = Inv_Request" "walk_ok v e (my_i v)"
    using r unfolding in_request_def by auto
  have gv: "inv_geometry v" using g inv_staticD(3)[OF d(1)] by simp
  have cont: "\<exists>ok e' v'. rbind (inv_request_loop (snoop_log reply) [my_i v1..<inv_num_tile_elements v1] e1 v1) (\<lambda>(done1, e2, v2).
            if done1 then Inr (True, e2, v2\<lparr> inv_state := Inv_Response \<rparr>) else Inr (False, e2, v2)) = Inr (ok, e', v') \<and>
      (if ok then in_response d e' v' else in_request d e' v' \<and> my_outstanding_pkt v')"
    if v1: "inv_static v1 = inv_static v" "elsewhere_same v v1" "inv_state v1 = Inv_Request" "walk_ok v1 e1 (my_i v1)" for v1 e1
  proof -
    have "inv_geometry v1" using gv inv_staticD(3)[OF v1(1)] by simp
    from request_loop_walk[OF this v1(4), of reply] obtain ok e' v'
      where l: "inv_request_loop (snoop_log reply) [my_i v1..<inv_num_tile_elements v1] e1 v1 = Inr (ok, e', v')" "walk_result v1 ok e' v'"
      by blast
    have wr: "walk_result v ok e' v'" using walk_result_trans[OF v1(1,2) _ l(2)] v1(3) d(3) by simp
    have st: "inv_static v' = inv_static d" and el: "elsewhere_same d v'"
      using wr d elsewhere_same_trans[OF d(2,1)] unfolding walk_result_def by auto
    show ?thesis
    proof (cases ok)
      case True
      let ?w = "v'\<lparr> inv_state := Inv_Response \<rparr>"
      have sw: "inv_static ?w = inv_static v'" unfolding inv_static_def by simp
      have "walk_ok ?w e' (inv_num_tile_elements d)"
        using wr True walk_ok_cong[OF sw] inv_staticD(4)[OF d(1)] unfolding walk_result_def by simp
      then have "in_response d e' ?w"
        using st el sw unfolding in_response_def elsewhere_same_def by simp
      then show ?thesis using l(1) True by auto
    next
      case False
      then have "in_request d e' v' \<and> my_outstanding_pkt v'"
        using wr st el d(3) unfolding in_request_def walk_result_def by simp
      then show ?thesis using l(1) False by auto
    qed
  qed
  show ?thesis
  proof (cases "my_outstanding_pkt v")
    case False
    then show ?thesis using cont[of v e] d unfolding inv_request_def by (simp add: elsewhere_same_refl)
  next
    case True
    then have u: "unsent v e (my_i v)" using r unfolding in_request_def by simp
    show ?thesis
    proof (rule send_walk[OF gv d(4) u, of reply])
      assume "sendOutstandingPacket (snoop_log reply) e v = Inr (False, e, v)"
      then show ?thesis using True r unfolding inv_request_def by auto
    next
      fix e1 v1
      assume s: "sendOutstandingPacket (snoop_log reply) e v = Inr (True, e1, v1)" "walk_ok v1 e1 (my_i v)"
        "inv_static v1 = inv_static v" "elsewhere_same v v1" "inv_state v1 = inv_state v"
      have "my_i v1 = my_i v" using s(1) unfolding sendOutstandingPacket_def snoop_log_def
        by (auto split: snoop_reply.splits if_splits simp: rbind_eq_Inr)
      then show ?thesis using cont[of v1 e1] s d True unfolding inv_request_def by simp
    qed
  qed
qed

text \<open>One call of \<open>executeInstruction\<close>: it returns, and a report of completion means a clean tile.\<close>

definition tile_clean :: "invalidator \<Rightarrow> Addr list \<Rightarrow> invalidator \<Rightarrow> bool" where
  "tile_clean d e v \<longleftrightarrow> e = [] \<and> (\<forall>i < inv_num_tile_elements d. cl_status v ! nat (el_line d i) = Uncached) \<and>
     elsewhere_same d v \<and> inv_state v = Inv_Idle \<and> my_instruction v = None"

lemma response_stage:
  assumes g: "inv_geometry d" and r: "in_response d e v" and ins: "my_instruction d = Some ins"
  obtains "inv_response v = Inr (None, v)"
  | v' where "inv_response v = Inr (Some (ins, my_invalidating_tile d), v')" "tile_clean d e v'"
proof -
  have d: "inv_static v = inv_static d" "elsewhere_same d v" "inv_state v = Inv_Response" "walk_ok v e (inv_num_tile_elements d)"
    using r unfolding in_response_def by auto
  note s = inv_staticD[OF d(1)]
  show thesis
  proof (cases "my_received_responses v = my_total_invalidations_sent v")
    case False
    then show thesis using that(1) ins s(6) unfolding inv_response_def by simp
  next
    case True
    let ?v' = "v\<lparr> inv_state := Inv_Idle, my_instruction := None \<rparr>"
    have none: "passed_cached v (inv_num_tile_elements d) = {}"
      using d(4) True unfolding walk_ok_def counts_ok_def by simp
    then have "e = []" using d(4) unfolding walk_ok_def promised_ok_def by simp
    moreover have "cl_status v ! nat (el_line d i) = Uncached" if "i < inv_num_tile_elements d" for i
      using none that unfolding passed_cached_def line_cached_def s(1) by auto
    ultimately have "tile_clean d e ?v'"
      using d(2) unfolding tile_clean_def elsewhere_same_def by simp
    moreover have "inv_response v = Inr (Some (ins, my_invalidating_tile d), ?v')"
      using True ins s(6,7) unfolding inv_response_def by simp
    ultimately show thesis using that(2) by blast
  qed
qed

definition stage_result :: "invalidator \<Rightarrow> invalidator \<Rightarrow> Instruction \<Rightarrow>
    ((Instruction \<times> int) option \<times> Addr list \<times> invalidator) res \<Rightarrow> bool" where
  "stage_result v0 d ins res \<longleftrightarrow> (case res of Inl _ \<Rightarrow> False | Inr x \<Rightarrow>
     (case fst x of None \<Rightarrow> tile_stage v0 d (fst (snd x)) (snd (snd x))
      | Some y \<Rightarrow> y = (ins, decode_tile ins) \<and> tile_clean d (fst (snd x)) (snd (snd x))))"

lemma stage_response:
  assumes "inv_geometry d" "in_response d e v" "my_instruction d = Some ins" "my_invalidating_tile d = decode_tile ins"
  shows "stage_result v0 d ins (rbind (inv_response v) (\<lambda>(x, v'). Inr (x, e, v')))"
proof (rule response_stage[OF assms(1-3)])
  assume "inv_response v = Inr (None, v)"
  moreover have "tile_stage v0 d e v" using assms(2) unfolding tile_stage_def by blast
  ultimately show ?thesis unfolding stage_result_def by simp
next
  fix v'
  assume "inv_response v = Inr (Some (ins, my_invalidating_tile d), v')" "tile_clean d e v'"
  then show ?thesis using assms(4) unfolding stage_result_def by simp
qed

lemma stage_request:
  assumes g: "inv_geometry d" "in_request d e v" "my_instruction d = Some ins" "my_invalidating_tile d = decode_tile ins"
  shows "stage_result v0 d ins (rbind (inv_request (snoop_log reply) e v) (\<lambda>(ok, e2, v2).
      if ok then rbind (inv_response v2) (\<lambda>(x, v3). Inr (x, e2, v3)) else Inr (None, e2, v2)))"
proof -
  obtain ok e2 v2 where q: "inv_request (snoop_log reply) e v = Inr (ok, e2, v2)"
    "if ok then in_response d e2 v2 else in_request d e2 v2 \<and> my_outstanding_pkt v2"
    using request_stage[OF g(1,2)] by blast
  show ?thesis
  proof (cases ok)
    case True
    then show ?thesis using stage_response[OF g(1) _ g(3,4)] q by simp
  next
    case False
    then have "tile_stage v0 d e2 v2" using q(2) unfolding tile_stage_def by simp
    then show ?thesis using q(1) False unfolding stage_result_def by simp
  qed
qed

lemma execute_stage:
  assumes s0: "tile_start v0 ins ws" and d: "d = inv_decoded v0 (decode_tile ins) ws" and st: "tile_stage v0 d e v"
  shows "stage_result v0 d ins (inv_executeInstruction (snoop_log reply) e v)"
proof -
  have g: "inv_geometry d" and dins: "my_instruction d = Some ins" and dt: "my_invalidating_tile d = decode_tile ins"
    using s0 unfolding tile_start_def d by (auto simp: inv_decoded_def)
  from st[unfolded tile_stage_def] show ?thesis
  proof (elim disjE conjE)
    assume e: "e = []" "v = v0"
    have dec: "inv_decode v0 ins = Inr d"
      using s0 unfolding tile_start_def inv_decode_def d inv_decoded_def by (simp add: Let_def)
    have v0: "my_instruction v0 = Some ins" "inv_state v0 = Inv_Idle" using s0 unfolding tile_start_def by auto
    have ds: "inv_state d = Inv_Request" unfolding d inv_decoded_def by simp
    have "in_request d [] d" using decoded_in_request unfolding d .
    from stage_request[OF g this dins dt, of v0 reply] show ?thesis
      unfolding inv_executeInstruction_def e v0 option.case dec using ds by simp
  next
    assume r: "in_request d e v"
    then have v: "my_instruction v = Some ins" "inv_state v = Inv_Request"
      using inv_staticD(6)[of v d] dins unfolding in_request_def by auto
    from stage_request[OF g r dins dt, of v0 reply] show ?thesis
      unfolding inv_executeInstruction_def v(1) option.case by (simp add: v(2))
  next
    assume r: "in_response d e v"
    then have v: "my_instruction v = Some ins" "inv_state v = Inv_Response"
      using inv_staticD(6)[of v d] dins unfolding in_response_def by auto
    from stage_response[OF g r dins dt, of v0] show ?thesis
      unfolding inv_executeInstruction_def v(1) option.case by (simp add: v(2))
  qed
qed

text \<open>The arrival of promised data.\<close>

lemma recvData_effect:
  assumes "inv_recvData v s tile element ws = Inr (again, v', s')" "l = get_cl_id v tile element 4"
  shows "0 \<le> l" "l < int (length (cl_status v))"
    "v' = v\<lparr> cl_status := (cl_status v)[nat l := Uncached], my_received_responses := Suc (my_received_responses v) \<rparr>"
  using assms unfolding inv_recvData_def
  by (auto simp: Let_def rbind_eq_Inr arr_get_def split: if_splits)

lemma data_walk:
  assumes g: "inv_geometry v" and w: "walk_ok v e i" and a: "a \<in> set e"
    and l: "0 \<le> l" "l < int (length (cl_status v))" "line_addr v l = a"
    and v': "v' = v\<lparr> cl_status := (cl_status v)[nat l := Uncached], my_received_responses := Suc (my_received_responses v) \<rparr>"
  shows "walk_ok v' (remove1 a e) i" "inv_static v' = inv_static v" "elsewhere_same v v'"
    "unsent v e i \<Longrightarrow> unsent v' (remove1 a e) i"
proof -
  have i: "i \<le> inv_num_tile_elements v" and de: "distinct e" using w unfolding walk_ok_def promised_ok_def by auto
  obtain k where k: "k \<in> passed_cached v i" "line_addr v k = a"
    using w a unfolding walk_ok_def promised_ok_def by auto
  have kb: "0 \<le> k" "k < int (length (cl_status v))" using passed_line[OF g k(1) i] by auto
  have "k = l" using line_addr_inj[OF _ kb l(1,2)] k(2) l(3) g unfolding inv_geometry_def by simp
  then have lp: "l \<in> passed_cached v i" using k by simp
  have sub: "set (remove1 a e) \<subseteq> set e" "a \<notin> set (remove1 a e)" "distinct (remove1 a e)" using de by auto
  have nl: "line_addr v l \<notin> set (remove1 a e)" using sub(2) l(3) by simp
  note r = answer_walk[OF g w lp sub(3,1) nl v']
  show "walk_ok v' (remove1 a e) i" "inv_static v' = inv_static v" "elsewhere_same v v'" by (rule r)+
  assume u: "unsent v e i"
  then have ne: "my_cl_id v \<noteq> l" using a l(3) unfolding unsent_def by auto
  have pos: "0 \<le> my_cl_id v"
    using u i g unfolding unsent_def inv_geometry_def by auto
  have cv: "line_cached v (my_cl_id v)" using u unfolding unsent_def by blast
  have "nat (my_cl_id v) \<noteq> nat l" using ne pos l(1) by (simp add: eq_nat_nat_iff)
  then have c: "line_cached v' (my_cl_id v)"
    using cv unfolding line_cached_def v' by simp
  have id: "my_cl_id v' = my_cl_id v" "my_last_block_addr v' = my_last_block_addr v" unfolding v' by simp_all
  have "my_last_block_addr v \<notin> set (remove1 a e)" using u sub(1) unfolding unsent_def by blast
  then show "unsent v' (remove1 a e) i"
    using u c unfolding unsent_def id inv_staticD(1,2)[OF r(2)] by blast
qed

lemma tile_step_stage:
  assumes s0: "tile_start v0 ins ws" and d: "d = inv_decoded v0 (decode_tile ins) ws"
    and step: "tile_step x y" and st: "tile_stage v0 d (fst x) (snd x)"
  shows "tile_stage v0 d (fst y) (snd y)"
  using step
proof cases
  case (ts_execute reply e v e' v')
  have "tile_stage v0 d e v" using st ts_execute(1) by simp
  from execute_stage[OF s0 d this, of reply] ts_execute(3) have "tile_stage v0 d e' v'"
    unfolding stage_result_def by simp
  then show ?thesis using ts_execute(2) by simp
next
  case (ts_data a e v tile element s ws' again v' s')
  let ?l = "get_cl_id v tile element 4"
  note r = recvData_effect[OF ts_data(5) refl]
  have g: "inv_geometry d" using s0 unfolding tile_start_def d by simp
  have ne: "e \<noteq> []" using ts_data(3) by auto
  have gv: "inv_geometry v" if "inv_static v = inv_static d" using g inv_staticD(3)[OF that] by simp
  have st': "in_request d e v \<and> my_outstanding_pkt v \<or> in_response d e v"
    using st ne ts_data(1) unfolding tile_stage_def by auto
  have kept: "inv_state v' = inv_state v" "my_i v' = my_i v" "my_outstanding_pkt v' = my_outstanding_pkt v"
    unfolding r(3) by simp_all
  from st' show ?thesis
  proof (elim disjE conjE)
    assume q: "in_request d e v" and o: "my_outstanding_pkt v"
    then have v: "inv_static v = inv_static d" "elsewhere_same d v" "walk_ok v e (my_i v)" "unsent v e (my_i v)"
      "inv_state v = Inv_Request" unfolding in_request_def by auto
    note dw = data_walk[OF gv[OF v(1)] v(3) ts_data(3) r(1,2) ts_data(4) r(3)]
    have "in_request d (remove1 a e) v'"
      using dw v kept elsewhere_same_trans[OF v(2,1)] unfolding in_request_def by simp
    then show ?thesis using o kept ts_data(2) unfolding tile_stage_def by simp
  next
    assume q: "in_response d e v"
    then have v: "inv_static v = inv_static d" "elsewhere_same d v" "walk_ok v e (inv_num_tile_elements d)"
      "inv_state v = Inv_Response" unfolding in_response_def by auto
    note dw = data_walk[OF gv[OF v(1)] v(3) ts_data(3) r(1,2) ts_data(4) r(3)]
    have "in_response d (remove1 a e) v'"
      using dw v kept elsewhere_same_trans[OF v(2,1)] unfolding in_response_def by simp
    then show ?thesis using ts_data(2) unfolding tile_stage_def by simp
  qed
qed

lemma tile_run_stage:
  assumes s0: "tile_start v0 ins ws" and "tile_step\<^sup>*\<^sup>* ([], v0) x"
  shows "tile_stage v0 (inv_decoded v0 (decode_tile ins) ws) (fst x) (snd x)"
  using assms(2)
proof (induction rule: rtranclp_induct)
  case base
  then show ?case unfolding tile_stage_def by simp
next
  case (step y z)
  then show ?case using tile_step_stage[OF s0 refl] by blast
qed

text \<open>
  C23.  Invalidation is complete.  Take any interleaving of calls to the invalidator with the arrival
  of data that cores have promised, under any replies to the snoops and any number of failed sends.
  The next call returns, and if it reports completion, then every line of the tile is uncached, no
  core still owes data, every line outside the tile is as it was, and the unit is idle again.
\<close>

theorem invalidation_complete:
  assumes "tile_start v0 ins ws" "tile_step\<^sup>*\<^sup>* ([], v0) (e, v)"
  shows "\<exists>x e' v'. inv_executeInstruction (snoop_log reply) e v = Inr (x, e', v') \<and>
    (x \<noteq> None \<longrightarrow> x = Some (ins, decode_tile ins) \<and> e' = [] \<and>
       inv_state v' = Inv_Idle \<and> my_instruction v' = None \<and>
       (\<forall>i < inv_num_tile_elements v0. cl_status v' ! nat (get_cl_id v0 (decode_tile ins) (int i) ws) = Uncached) \<and>
       (\<forall>l \<ge> 0. (\<forall>i < inv_num_tile_elements v0. l \<noteq> get_cl_id v0 (decode_tile ins) (int i) ws) \<longrightarrow>
          cl_status v' ! nat l = cl_status v0 ! nat l))"
proof -
  let ?d = "inv_decoded v0 (decode_tile ins) ws"
  have N: "inv_num_tile_elements ?d = inv_num_tile_elements v0" "cl_status ?d = cl_status v0"
    "el_line ?d i = get_cl_id v0 (decode_tile ins) (int i) ws" for i
    unfolding inv_decoded_def el_line_def get_cl_id_def by simp_all
  have "tile_stage v0 ?d e v" using tile_run_stage[OF assms] by simp
  from execute_stage[OF assms(1) refl this, of reply] obtain x e' v'
    where r: "inv_executeInstruction (snoop_log reply) e v = Inr (x, e', v')"
      "case x of None \<Rightarrow> tile_stage v0 ?d e' v' | Some y \<Rightarrow> y = (ins, decode_tile ins) \<and> tile_clean ?d e' v'"
    unfolding stage_result_def by (cases "inv_executeInstruction (snoop_log reply) e v") (auto split: option.splits)
  have "x = Some (ins, decode_tile ins) \<and> tile_clean ?d e' v'" if "x \<noteq> None" using r(2) that by (auto split: option.splits)
  then show ?thesis using r(1) unfolding tile_clean_def elsewhere_same_def N by fastforce
qed

definition inv_ins_demo :: Instruction where
  "inv_ins_demo = (ld_demo 1 READ)\<lparr> dst1Status := Invalidating \<rparr>"

definition inv_demo :: invalidator where
  "inv_demo = (Invalidator_allocate 2 2 32 64)
     \<lparr> cl_status := [ReadCached, Uncached, ReadCached, WriteCached], my_instruction := Some inv_ins_demo \<rparr>"

theorem invalidation_complete_witness:
  "\<exists>e v. inv_executeInstruction (snoop_log (\<lambda>_ _. No_Cache_Responds)) [] inv_demo = Inr (Some (inv_ins_demo, 1), e, v) \<and>
    cl_status v = [ReadCached, Uncached, Uncached, Uncached] \<and> e = [] \<and> inv_state v = Inv_Idle"
proof -
  let ?x = "inv_executeInstruction (snoop_log (\<lambda>_ _. No_Cache_Responds)) [] inv_demo"
  have dec: "decode_tile inv_ins_demo = 1" "getWordSize inv_ins_demo 1 = Inr 4" "inv_state inv_demo = Inv_Idle"
    "my_instruction inv_demo = Some inv_ins_demo"
    by code_simp+
  have "inv_geometry (inv_decoded inv_demo 1 4)"
    unfolding inv_geometry_def el_line_def get_cl_id_def
    by (auto simp: inv_decoded_def inv_demo_def Invalidator_allocate_def)
  then have "tile_start inv_demo inv_ins_demo 4" unfolding tile_start_def using dec by simp
  from invalidation_complete[OF this rtranclp.rtrancl_refl, of "\<lambda>_ _. No_Cache_Responds"]
  obtain x e v where r: "?x = Inr (x, e, v)" "x \<noteq> None \<longrightarrow> x = Some (inv_ins_demo, 1) \<and> e = [] \<and> inv_state v = Inv_Idle"
    using dec by auto
  have "(case ?x of Inl _ \<Rightarrow> False | Inr y \<Rightarrow> fst y \<noteq> None \<and> cl_status (snd (snd y)) = [ReadCached, Uncached, Uncached, Uncached])"
    by code_simp
  then show ?thesis using r by auto
qed

end
