(* ===== verification/Unit_Common.thy ===== *)
theory Unit_Common
  imports IF_Model "HOL-Library.Signed_Division"
begin

text \<open>
  What the functional units share: the environment a call runs in, the effects a call has outside
  the unit, and the arithmetic of the element types.  The environment gives the current tick, the
  tick of the clock edge a number of cycles ahead, the clock period, and the unit states that a
  wake-up asserts.  The effects are the latency at which the unit schedules itself, the units it
  wakes, and the instruction it reports as finished.

  Integer arithmetic follows the C++ rules at the width of the type: unsigned operations wrap,
  a signed result that does not fit, a division by zero and a shift by the width or more are the
  error \<open>Undefined_Arith\<close>, signed division truncates.  Floating-point arithmetic is a parameter, a
  record of operations on the bit patterns of the type.
\<close>

record fu_env =
  e_now :: Tick
  e_clockEdge :: "Cycles \<Rightarrow> Tick"
  e_period :: nat
  e_unit_ok :: "FuncUnitType \<Rightarrow> int \<Rightarrow> bool"

record fu_out =
  out_sched :: "Cycles option"
  out_waked :: waked
  out_finished :: "Instruction option"

definition no_out :: fu_out where
  "no_out = \<lparr> out_sched = None, out_waked = [], out_finished = None \<rparr>"

section \<open>Scheduling\<close>

text \<open>
  \<open>scheduleNextExecution\<close> of a unit whose last finish tick is given: the latency at which the unit
  schedules itself, if it does.
\<close>

definition next_execution :: "fu_env \<Rightarrow> Tick \<Rightarrow> bool \<Rightarrow> Cycles option" where
  "next_execution env finish_tick force =
     (if e_now env < finish_tick then Some (ticksToCycles (e_period env) (finish_tick - e_now env))
      else if force then Some 0 else None)"

text \<open>
  The three parts of \<open>updateLatency\<close> the units share.  Each takes the finish tick it may replace:
  the scratchpad reads, the scratchpad writes to a tile, and the pipeline of the unit itself, which
  starts now when it is idle and queues up otherwise.
\<close>

definition charge_read :: "fu_env \<Rightarrow> spd \<Rightarrow> bool \<Rightarrow> nat \<Rightarrow> Tick \<Rightarrow> (Tick \<times> spd) res" where
  "charge_read env s used accesses tick =
     (if used then rbind (getDataLatency (e_now env) (e_period env) s (int accesses)) (\<lambda>(lat, s').
        Inr (e_clockEdge env lat, s'))
      else Inr (tick, s))"

definition charge_write :: "fu_env \<Rightarrow> spd \<Rightarrow> bool \<Rightarrow> int \<Rightarrow> nat \<Rightarrow> Tick \<Rightarrow> (Tick \<times> waked \<times> spd) res" where
  "charge_write env s used tile accesses tick =
     (if used then rbind (setDataLatency (e_unit_ok env) (e_now env) (e_period env) s tile (int accesses))
        (\<lambda>(lat, us, s'). Inr (e_clockEdge env lat, us, s'))
      else Inr (tick, [], s))"

definition charge_unit :: "fu_env \<Rightarrow> bool \<Rightarrow> Cycles \<Rightarrow> Tick \<Rightarrow> Tick" where
  "charge_unit env used lat tick =
     (if used then if tick < e_now env then e_clockEdge env lat else tick + cyclesToTicks (e_period env) lat
      else tick)"

section \<open>Element arithmetic\<close>

definition ret_signed :: "int \<Rightarrow> 'a::len word res" where
  "ret_signed r =
     (if - (2 ^ (LENGTH('a) - 1)) \<le> r \<and> r < 2 ^ (LENGTH('a) - 1) then Inr (word_of_int r) else Inl Undefined_Arith)"

fun op_unsigned :: "OPType \<Rightarrow> 'a::len word \<Rightarrow> 'a word \<Rightarrow> 'a word res" where
  "op_unsigned ADD_OP a b = Inr (a + b)"
| "op_unsigned SUB_OP a b = Inr (a - b)"
| "op_unsigned MUL_OP a b = Inr (a * b)"
| "op_unsigned DIV_OP a b = (if b = 0 then Inl Undefined_Arith else Inr (a div b))"
| "op_unsigned MIN_OP a b = Inr (if b < a then b else a)"
| "op_unsigned MAX_OP a b = Inr (if a < b then b else a)"
| "op_unsigned AND_OP a b = Inr (a AND b)"
| "op_unsigned OR_OP a b = Inr (a OR b)"
| "op_unsigned XOR_OP a b = Inr (a XOR b)"
| "op_unsigned SHL_OP a b =
     (if unat b \<ge> LENGTH('a) then Inl Undefined_Arith else Inr (push_bit (unat b) a))"
| "op_unsigned SHR_OP a b =
     (if unat b \<ge> LENGTH('a) then Inl Undefined_Arith else Inr (drop_bit (unat b) a))"
| "op_unsigned _ a b = Inl Assert_Fail"

fun op_signed :: "OPType \<Rightarrow> 'a::len word \<Rightarrow> 'a word \<Rightarrow> 'a word res" where
  "op_signed ADD_OP a b = ret_signed (sint a + sint b)"
| "op_signed SUB_OP a b = ret_signed (sint a - sint b)"
| "op_signed MUL_OP a b = ret_signed (sint a * sint b)"
| "op_signed DIV_OP a b = (if b = 0 then Inl Undefined_Arith else ret_signed (sint a sdiv sint b))"
| "op_signed MIN_OP a b = Inr (if sint b < sint a then b else a)"
| "op_signed MAX_OP a b = Inr (if sint a < sint b then b else a)"
| "op_signed AND_OP a b = Inr (a AND b)"
| "op_signed OR_OP a b = Inr (a OR b)"
| "op_signed XOR_OP a b = Inr (a XOR b)"
| "op_signed SHL_OP a b =
     (if sint b < 0 \<or> sint b \<ge> int LENGTH('a) \<or> sint a < 0 \<or> sint a * 2 ^ nat (sint b) \<ge> 2 ^ LENGTH('a)
      then Inl Undefined_Arith else Inr (push_bit (nat (sint b)) a))"
| "op_signed SHR_OP a b =
     (if sint b < 0 \<or> sint b \<ge> int LENGTH('a) then Inl Undefined_Arith
      else Inr (word_of_int (sint a div 2 ^ nat (sint b))))"
| "op_signed _ a b = Inl Assert_Fail"

fun cmp_unsigned :: "OPType \<Rightarrow> 'a::len word \<Rightarrow> 'a word \<Rightarrow> bool res" where
  "cmp_unsigned GT_OP a b = Inr (b < a)"
| "cmp_unsigned GTE_OP a b = Inr (b \<le> a)"
| "cmp_unsigned LT_OP a b = Inr (a < b)"
| "cmp_unsigned LTE_OP a b = Inr (a \<le> b)"
| "cmp_unsigned EQ_OP a b = Inr (a = b)"
| "cmp_unsigned _ a b = Inl Assert_Fail"

fun cmp_signed :: "OPType \<Rightarrow> 'a::len word \<Rightarrow> 'a word \<Rightarrow> bool res" where
  "cmp_signed GT_OP a b = Inr (sint b < sint a)"
| "cmp_signed GTE_OP a b = Inr (sint b \<le> sint a)"
| "cmp_signed LT_OP a b = Inr (sint a < sint b)"
| "cmp_signed LTE_OP a b = Inr (sint a \<le> sint b)"
| "cmp_signed EQ_OP a b = Inr (a = b)"
| "cmp_signed _ a b = Inl Assert_Fail"

text \<open>Floating point: the operations the code uses, on bit patterns.\<close>

record 'w fp_ops =
  f_add :: "'w \<Rightarrow> 'w \<Rightarrow> 'w"
  f_sub :: "'w \<Rightarrow> 'w \<Rightarrow> 'w"
  f_mul :: "'w \<Rightarrow> 'w \<Rightarrow> 'w"
  f_div :: "'w \<Rightarrow> 'w \<Rightarrow> 'w"
  f_lt :: "'w \<Rightarrow> 'w \<Rightarrow> bool"
  f_le :: "'w \<Rightarrow> 'w \<Rightarrow> bool"
  f_eq :: "'w \<Rightarrow> 'w \<Rightarrow> bool"

fun op_float :: "'w fp_ops \<Rightarrow> OPType \<Rightarrow> 'w \<Rightarrow> 'w \<Rightarrow> 'w res" where
  "op_float f ADD_OP a b = Inr (f_add f a b)"
| "op_float f SUB_OP a b = Inr (f_sub f a b)"
| "op_float f MUL_OP a b = Inr (f_mul f a b)"
| "op_float f DIV_OP a b = Inr (f_div f a b)"
| "op_float f MIN_OP a b = Inr (if f_lt f b a then b else a)"
| "op_float f MAX_OP a b = Inr (if f_lt f a b then b else a)"
| "op_float f _ a b = Inl Assert_Fail"

fun cmp_float :: "'w fp_ops \<Rightarrow> OPType \<Rightarrow> 'w \<Rightarrow> 'w \<Rightarrow> bool res" where
  "cmp_float f GT_OP a b = Inr (f_lt f b a)"
| "cmp_float f GTE_OP a b = Inr (f_le f b a)"
| "cmp_float f LT_OP a b = Inr (f_lt f a b)"
| "cmp_float f LTE_OP a b = Inr (f_le f a b)"
| "cmp_float f EQ_OP a b = Inr (f_eq f a b)"
| "cmp_float f _ a b = Inl Assert_Fail"

section \<open>The arithmetic is exact where it is defined\<close>

text \<open>The mathematical meaning of the arithmetic operators, on integers.\<close>

fun math_op :: "OPType \<Rightarrow> int \<Rightarrow> int \<Rightarrow> int" where
  "math_op ADD_OP x y = x + y"
| "math_op SUB_OP x y = x - y"
| "math_op MUL_OP x y = x * y"
| "math_op DIV_OP x y = x sdiv y"
| "math_op MIN_OP x y = min x y"
| "math_op MAX_OP x y = max x y"
| "math_op _ x y = 0"

definition is_arith :: "OPType \<Rightarrow> bool" where
  "is_arith op \<longleftrightarrow> op \<in> {ADD_OP, SUB_OP, MUL_OP, DIV_OP, MIN_OP, MAX_OP}"

lemma ret_signed_Inr:
  assumes "ret_signed r = Inr (w :: 'a::len word)"
  shows "sint w = r"
proof -
  have b: "- (2 ^ (LENGTH('a) - 1)) \<le> r" "r < 2 ^ (LENGTH('a) - 1)" "w = word_of_int r"
    using assms unfolding ret_signed_def by (auto split: if_splits)
  have "sint w = signed_take_bit (LENGTH('a) - 1) r" unfolding b(3) by transfer simp
  also have "\<dots> = r" using b by (intro signed_take_bit_int_eq_self) auto
  finally show ?thesis .
qed

lemma ret_signed_sint:
  "(\<exists>w :: 'a::len word. ret_signed r = Inr w) \<longleftrightarrow> - (2 ^ (LENGTH('a) - 1)) \<le> r \<and> r < 2 ^ (LENGTH('a) - 1)"
  unfolding ret_signed_def by auto

lemma op_signed_exact:
  fixes a b w :: "'a::len word"
  assumes "is_arith op" "op_signed op a b = Inr w"
  shows "sint w = math_op op (sint a) (sint b)"
proof -
  have "op = ADD_OP \<or> op = SUB_OP \<or> op = MUL_OP \<or> op = DIV_OP \<or> op = MIN_OP \<or> op = MAX_OP"
    using assms(1) unfolding is_arith_def by auto
  then show ?thesis using assms(2)
    by (elim disjE) (auto dest: ret_signed_Inr split: if_splits)
qed

lemma op_unsigned_modular:
  fixes a b w :: "'a::len word"
  assumes "is_arith op" "op_unsigned op a b = Inr w"
  shows "uint w = math_op op (uint a) (uint b) mod 2 ^ LENGTH('a)"
proof -
  have [simp]: "uint x mod 2 ^ LENGTH('a) = uint x" for x :: "'a word" by simp
  have "op = ADD_OP \<or> op = SUB_OP \<or> op = MUL_OP \<or> op = DIV_OP \<or> op = MIN_OP \<or> op = MAX_OP"
    using assms(1) unfolding is_arith_def by auto
  then show ?thesis
  proof (elim disjE)
    assume o: "op = DIV_OP"
    then have w: "w = a div b" "b \<noteq> 0" using assms(2) by (auto split: if_splits)
    have "0 \<le> x \<Longrightarrow> 0 \<le> y \<Longrightarrow> x sdiv y = x div y" for x y :: int
      unfolding signed_divide_int_def by (cases "y = 0") (auto simp: sgn_if)
    then have "uint a sdiv uint b = uint a div uint b" by simp
    moreover have "uint a div uint b = uint w" using w(1) by (simp add: uint_div)
    ultimately show ?thesis using o by simp
  qed (use assms(2) in \<open>auto simp: uint_word_ariths word_less_def min_def max_def split: if_splits\<close>)
qed

section \<open>What the units do not disturb\<close>

text \<open>
  The part of the scratchpad a unit observes: data, finished flags, status and size of the tiles.
  Polling and the port bookkeeping leave it alone.
\<close>

definition spd_view :: "spd \<Rightarrow> u8 list \<times> bool list \<times> SPD_TileStatus list \<times> u32 list \<times> nat \<times> nat" where
  "spd_view s = (tiles_data s, element_finished s, tiles_status s, tiles_size s, num_tiles s, num_tile_elements s)"

lemma spd_viewD:
  assumes "spd_view s' = spd_view s"
  shows "getData_bytes s' t e sz = getData_bytes s t e sz" "getData_u32 s' t e = getData_u32 s t e"
    "getData_u64 s' t e = getData_u64 s t e" "getTileStatus s' t = getTileStatus s t" "getSize s' t = getSize s t"
    "num_tile_elements s' = num_tile_elements s" "num_tiles s' = num_tiles s"
    "element_finished s' = element_finished s" "tiles_data s' = tiles_data s"
    "tiles_status s' = tiles_status s" "tiles_size s' = tiles_size s"
proof -
  have f: "tiles_data s' = tiles_data s" "element_finished s' = element_finished s" "tiles_status s' = tiles_status s"
    "tiles_size s' = tiles_size s" "num_tiles s' = num_tiles s" "num_tile_elements s' = num_tile_elements s"
    using assms unfolding spd_view_def by auto
  show b: "getData_bytes s' t e sz = getData_bytes s t e sz" for sz
    unfolding getData_bytes_def check_tile_element_id_def check_tile_id_def data_offset_def f ..
  show "getData_u32 s' t e = getData_u32 s t e" "getData_u64 s' t e = getData_u64 s t e"
    unfolding getData_u32_def getData_u64_def b by simp_all
  show st: "getTileStatus s' t = getTileStatus s t" unfolding getTileStatus_def check_tile_id_def f ..
  show "getSize s' t = getSize s t" unfolding getSize_def st f ..
qed (use assms in \<open>auto simp: spd_view_def\<close>)

lemma wakeup_view:
  assumes "wakeup_waiting_units ok s t = Inr (us, s')"
  shows "spd_view s' = spd_view s"
proof -
  obtain fs ids where "(let us = filter (\<lambda>(f, _). f \<noteq> INVALIDATOR \<and> f \<noteq> FuncUnit_MAX) (zip fs ids) in
       if list_all (\<lambda>(f, i). ok f i) us
       then Inr (us, s\<lparr> waiting_units_funcs := (waiting_units_funcs s)[nat t := []],
                        waiting_units_ids := (waiting_units_ids s)[nat t := []] \<rparr>)
       else Inl Assert_Fail) = Inr (us, s')"
    using assms unfolding wakeup_waiting_units_def rbind_eq_Inr by blast
  then have "s' = s\<lparr> waiting_units_funcs := (waiting_units_funcs s)[nat t := []],
                    waiting_units_ids := (waiting_units_ids s)[nat t := []] \<rparr>"
    unfolding Let_def by (simp split: if_splits)
  then show ?thesis by (simp add: spd_view_def)
qed

lemma poll_cases:
  assumes "getElementFinished s t e ws f i = Inr (b, s')"
  shows "s' = s \<or> \<not> b \<and> s' = add_waiter s (nat t) f i" "b \<Longrightarrow> 0 \<le> e \<and> e < int (num_tile_elements s)"
proof -
  obtain fin fs ids where fin: "(if e < 0 \<or> e \<ge> int (num_tile_elements s) then Inr False
            else arr_get (element_finished s) (int (finished_slot s t e ws))) = Inr fin"
    and r: "(if \<not> fin \<and> (i \<notin> set ids \<or> f \<notin> set fs) then Inr (fin, add_waiter s (nat t) f i) else Inr (fin, s)) = (Inr (b, s') :: (bool \<times> spd) res)"
    using assms unfolding getElementFinished_def rbind_eq_Inr by blast
  show "s' = s \<or> \<not> b \<and> s' = add_waiter s (nat t) f i" using r by (simp split: if_splits)
  have "fin = b" using r by (simp split: if_splits)
  then show "b \<Longrightarrow> 0 \<le> e \<and> e < int (num_tile_elements s)" using fin by (simp split: if_splits)
qed

lemma poll_view: "getElementFinished s t e ws f i = Inr (b, s') \<Longrightarrow> spd_view s' = spd_view s"
  using poll_cases(1)[of s t e ws f i b s'] by (auto simp: add_waiter_def spd_view_def)

lemma poll_true: "getElementFinished s t e ws f i = Inr (True, s') \<Longrightarrow> s' = s \<and> 0 \<le> e \<and> e < int (num_tile_elements s)"
  using poll_cases[of s t e ws f i True s'] by simp

lemma poll_wf: "getElementFinished s t e ws f i = Inr (b, s') \<Longrightarrow> spd_wf s \<Longrightarrow> spd_wf s'"
  using spd_step_wf step_poll by blast

lemma getDataLatency_view: "getDataLatency now p s n = Inr (c, s') \<Longrightarrow> spd_view s' = spd_view s"
  by (auto simp: getDataLatency_def res_simps spd_view_def split: if_splits)

lemma setDataLatency_view:
  assumes "setDataLatency ok now p s t n = Inr (c, us, s')"
  shows "spd_view s' = spd_view s"
proof (cases "n = 0")
  case True
  then show ?thesis using assms by (simp add: setDataLatency_def res_simps)
next
  case False
  then obtain ps where "wakeup_waiting_units ok (s\<lparr> write_port_busy_until := ps \<rparr>) t = Inr (us, s')"
    using assms by (auto simp: setDataLatency_def res_simps split: if_splits)
  then show ?thesis using wakeup_view by (fastforce simp: spd_view_def)
qed

lemma latency_wf:
  "getDataLatency now p s n = Inr (c, s') \<Longrightarrow> spd_wf s \<Longrightarrow> spd_wf s'"
  "setDataLatency ok now p s t n = Inr (c, us, s') \<Longrightarrow> spd_wf s \<Longrightarrow> spd_wf s'"
  using spd_step_wf step_getLat step_setLat by blast+

definition quiet :: "spd \<Rightarrow> spd \<Rightarrow> bool" where
  "quiet s s' \<longleftrightarrow> spd_view s' = spd_view s \<and> (spd_wf s \<longrightarrow> spd_wf s')"

lemma quiet_refl [simp]: "quiet s s"
  unfolding quiet_def by simp

lemma quiet_trans: "quiet s s1 \<Longrightarrow> quiet s1 s2 \<Longrightarrow> quiet s s2"
  unfolding quiet_def by simp

lemma poll_quiet: "getElementFinished s t e ws f i = Inr (b, s') \<Longrightarrow> quiet s s'"
  unfolding quiet_def using poll_view poll_wf by blast

lemma charge_read_quiet:
  assumes "charge_read env s used n t = Inr (t', s')"
  shows "quiet s s'"
proof (cases used)
  case True
  then obtain l where "getDataLatency (e_now env) (e_period env) s (int n) = Inr (l, s')"
    using assms unfolding charge_read_def by (auto simp: rbind_eq_Inr)
  then show ?thesis using getDataLatency_view latency_wf(1) unfolding quiet_def by blast
qed (use assms in \<open>simp add: charge_read_def\<close>)

lemma charge_write_quiet:
  assumes "charge_write env s used tile n t = Inr (t', us, s')"
  shows "quiet s s'"
proof (cases used)
  case True
  then obtain l where "setDataLatency (e_unit_ok env) (e_now env) (e_period env) s tile (int n) = Inr (l, us, s')"
    using assms unfolding charge_write_def by (auto simp: rbind_eq_Inr)
  then show ?thesis using setDataLatency_view latency_wf(2) unfolding quiet_def by blast
qed (use assms in \<open>simp add: charge_write_def\<close>)

text \<open>On a well-formed scratchpad the bookkeeping never fails when the waiting units may be woken.\<close>

lemma port_advance_ok: "ps \<noteq> [] \<Longrightarrow> \<exists>c ps'. port_advance now p l n ps = Inr (c, ps')"
  unfolding port_advance_def Let_def by auto

lemma charge_read_ok:
  assumes "spd_wf s"
  shows "\<exists>t' s'. charge_read env s used n t = Inr (t', s')"
proof -
  have "read_port_busy_until s \<noteq> []" using assms unfolding spd_wf_def by blast
  then obtain c ps where "port_advance (e_now env) (e_period env) (read_latency s) n (read_port_busy_until s) = Inr (c, ps)"
    using port_advance_ok by blast
  then show ?thesis unfolding charge_read_def getDataLatency_def by auto
qed

lemma wakeup_ok:
  assumes "spd_wf s" "0 \<le> t" "t < int (num_tiles s)" "\<And>f i. ok f i"
  shows "\<exists>us s'. wakeup_waiting_units ok s t = Inr (us, s')"
proof -
  have l: "length (waiting_units_funcs s) = num_tiles s" "length (waiting_units_ids s) = num_tiles s"
    using assms(1) waiting_lengths unfolding spd_wf_def by (auto dest: map_eq_imp_length_eq)
  have "arr_get (waiting_units_funcs s) t = Inr (waiting_units_funcs s ! nat t)"
    "arr_get (waiting_units_ids s) t = Inr (waiting_units_ids s ! nat t)"
    using l assms(2,3) unfolding arr_get_def by auto
  moreover have "list_all (\<lambda>(f, i). ok f i) xs" for xs using assms(4) by (simp add: list_all_iff)
  ultimately show ?thesis unfolding wakeup_waiting_units_def Let_def by simp
qed

lemma charge_write_ok:
  assumes wf: "spd_wf s" and t: "0 \<le> tile" "tile < int (num_tiles s)" and ok: "\<And>f i. e_unit_ok env f i"
  shows "\<exists>t' us s'. charge_write env s used tile n t0 = Inr (t', us, s')"
proof -
  have "write_port_busy_until s \<noteq> []" using wf unfolding spd_wf_def by blast
  then obtain c ps where p: "port_advance (e_now env) (e_period env) (write_latency s) n (write_port_busy_until s) = Inr (c, ps)"
    using port_advance_ok by blast
  have "spd_wf (s\<lparr> write_port_busy_until := ps \<rparr>)" using write_ports_wf[OF wf] port_advance_nonempty[OF p] by blast
  from wakeup_ok[OF this, of tile "e_unit_ok env"] obtain us s'
    where w: "wakeup_waiting_units (e_unit_ok env) (s\<lparr> write_port_busy_until := ps \<rparr>) tile = Inr (us, s')"
    using t ok by auto
  have "check_tile_id s tile 4 = Inr ()" using t by (simp add: check_tile_id_4)
  then show ?thesis using p w unfolding charge_write_def setDataLatency_def by auto
qed

section \<open>Integer elements agree with the integers\<close>

lemma sint_bounds:
  fixes a :: "'a::len word"
  shows "- (2 ^ (LENGTH('a) - 1)) \<le> sint a" "sint a < 2 ^ (LENGTH('a) - 1)"
  using sint_ge[of a] sint_lt[of a] by simp_all

lemma op_signed_defined:
  fixes a b :: "'a::len word"
  assumes "is_arith op"
  shows "op_signed op a b = Inl Undefined_Arith \<longleftrightarrow>
    op = DIV_OP \<and> b = 0 \<or> math_op op (sint a) (sint b) < - (2 ^ (LENGTH('a) - 1)) \<or> 2 ^ (LENGTH('a) - 1) \<le> math_op op (sint a) (sint b)"
proof -
  have r: "(ret_signed r :: 'a word res) = Inl Undefined_Arith \<longleftrightarrow> r < - (2 ^ (LENGTH('a) - 1)) \<or> 2 ^ (LENGTH('a) - 1) \<le> r" for r
    unfolding ret_signed_def by auto
  have mm: "\<not> (m < - (2 ^ (LENGTH('a) - 1)) \<or> 2 ^ (LENGTH('a) - 1) \<le> m)" if "m = sint a \<or> m = sint b" for m
    using that sint_bounds[of a] sint_bounds[of b] by auto
  have "op = ADD_OP \<or> op = SUB_OP \<or> op = MUL_OP \<or> op = DIV_OP \<or> op = MIN_OP \<or> op = MAX_OP"
    using assms unfolding is_arith_def by auto
  then show ?thesis
  proof (elim disjE)
    assume "op = MIN_OP"
    then show ?thesis using mm[of "min (sint a) (sint b)"] by (auto simp: min_def)
  next
    assume "op = MAX_OP"
    then show ?thesis using mm[of "max (sint a) (sint b)"] by (auto simp: max_def)
  qed (auto simp: r)
qed



end
