(* ===== verification/ALU_Model.thy ===== *)
theory ALU_Model
  imports Unit_Common
begin

text \<open>
  The arithmetic unit (\<open>ALU.hh\<close>, \<open>ALU.cc\<close>): a state machine that decodes an instruction, works
  through the elements of its source tiles as they become available, and finishes.  A call of
  \<open>executeInstruction\<close> is \<open>alu_executeInstruction\<close>; the loop over elements has fuel, one unit per
  element, and a lemma shows that the fuel the code's own bounds give is enough.
\<close>

section \<open>State\<close>

datatype ALU_Status = ALU_Idle | ALU_Decode | ALU_Work | ALU_Finish

record alu =
  a_state :: ALU_Status
  a_instruction :: "Instruction option"
  my_alu_id :: int
  a_dst_tile :: int
  a_dst_reg :: int
  a_cond_tile :: int
  a_src1_tile :: int
  a_src2_tile :: int
  a_cond_tile_ready :: bool
  a_src1_tile_ready :: bool
  a_src2_tile_ready :: bool
  a_i :: int
  a_max :: int
  a_input_word_size :: nat
  a_input_words_per_cl :: nat
  a_output_word_size :: nat
  a_output_words_per_cl :: nat
  ALU_lane_latency :: Cycles
  num_ALU_lanes :: nat
  a_SPD_read_finish_tick :: Tick
  a_SPD_write_finish_tick :: Tick
  a_ALU_finish_tick :: Tick
  a_decode_start_tick :: Tick
  a_red_i32 :: u32
  a_red_u32 :: u32
  a_red_i64 :: u64
  a_red_u64 :: u64
  a_red_f32 :: u32
  a_red_f64 :: u64

definition alu_allocate :: "int \<Rightarrow> Cycles \<Rightarrow> nat \<Rightarrow> alu \<Rightarrow> alu" where
  "alu_allocate my_id lane_latency lanes a =
     a\<lparr> a_state := ALU_Idle, my_alu_id := my_id, ALU_lane_latency := lane_latency, num_ALU_lanes := lanes,
        a_instruction := None \<rparr>"

definition alu_setInstruction :: "alu \<Rightarrow> Instruction \<Rightarrow> alu res" where
  "alu_setInstruction a ins =
     (if a_instruction a \<noteq> None then Inl Assert_Fail else Inr (a\<lparr> a_instruction := Some ins \<rparr>))"

section \<open>Latency\<close>

text \<open>The access counts a call of the work state gathers.\<close>

record alu_counts =
  spd_read_data :: nat
  spd_read_cond :: nat
  spd_write :: nat
  alu_accesses :: nat

definition no_counts :: alu_counts where
  "no_counts = \<lparr> spd_read_data = 0, spd_read_cond = 0, spd_write = 0, alu_accesses = 0 \<rparr>"

definition alu_updateLatency :: "fu_env \<Rightarrow> alu \<Rightarrow> spd \<Rightarrow> alu_counts \<Rightarrow> (waked \<times> alu \<times> spd) res" where
  "alu_updateLatency env a s c =
     rbind (charge_read env s (spd_read_data c \<noteq> 0 \<or> spd_read_cond c \<noteq> 0)
              (getCeiling (spd_read_data c) (a_input_words_per_cl a) + getCeiling (spd_read_cond c) 16)
              (a_SPD_read_finish_tick a)) (\<lambda>(t1, s1).
     rbind (charge_write env s1 (spd_write c \<noteq> 0) (a_dst_tile a)
              (getCeiling (spd_write c) (a_output_words_per_cl a)) (a_SPD_write_finish_tick a)) (\<lambda>(t2, us, s2).
     let t3 = charge_unit env (alu_accesses c \<noteq> 0)
                (getCeiling (alu_accesses c) (num_ALU_lanes a) * ALU_lane_latency a) (a_ALU_finish_tick a) in
     Inr (us, a\<lparr> a_SPD_read_finish_tick := t1, a_SPD_write_finish_tick := t2, a_ALU_finish_tick := t3 \<rparr>, s2)))"

definition alu_scheduleNextExecution :: "fu_env \<Rightarrow> alu \<Rightarrow> bool \<Rightarrow> Cycles option" where
  "alu_scheduleNextExecution env a force =
     next_execution env (max (max (a_SPD_read_finish_tick a) (a_SPD_write_finish_tick a)) (a_ALU_finish_tick a)) force"

section \<open>Decode\<close>

text \<open>The neutral elements a reduction starts from; the float bit patterns are 0, 1, and the limits.\<close>

definition alu_init_reduce :: "OPType \<Rightarrow> alu \<Rightarrow> alu res" where
  "alu_init_reduce op a =
     (if op \<in> {OR_OP, ADD_OP, SUB_OP} then
        Inr (a\<lparr> a_red_i32 := 0, a_red_u32 := 0, a_red_i64 := 0, a_red_u64 := 0, a_red_f32 := 0, a_red_f64 := 0 \<rparr>)
      else if op \<in> {MUL_OP, DIV_OP} then
        Inr (a\<lparr> a_red_i32 := 1, a_red_u32 := 1, a_red_i64 := 1, a_red_u64 := 1,
                a_red_f32 := 0x3F800000, a_red_f64 := 0x3FF0000000000000 \<rparr>)
      else if op = MIN_OP then
        Inr (a\<lparr> a_red_i32 := 0x7FFFFFFF, a_red_u32 := 0xFFFFFFFF, a_red_i64 := 0x7FFFFFFFFFFFFFFF,
                a_red_u64 := 0xFFFFFFFFFFFFFFFF, a_red_f32 := 0x7F7FFFFF, a_red_f64 := 0x7FEFFFFFFFFFFFFF \<rparr>)
      else if op = MAX_OP then
        Inr (a\<lparr> a_red_i32 := 0x80000000, a_red_u32 := 0, a_red_i64 := 0x8000000000000000,
                a_red_u64 := 0, a_red_f32 := 0x00800000, a_red_f64 := 0x0010000000000000 \<rparr>)
      else if op = AND_OP then
        Inr (a\<lparr> a_red_i32 := 0xFFFFFFFF, a_red_u32 := 0xFFFFFFFF, a_red_i64 := 0xFFFFFFFFFFFFFFFF,
                a_red_u64 := 0xFFFFFFFFFFFFFFFF \<rparr>)
      else Inl Assert_Fail)"

definition alu_decode :: "fu_env \<Rightarrow> alu \<Rightarrow> Instruction \<Rightarrow> alu res" where
  "alu_decode env a ins =
     rbind (getWordSize ins (src1SpdID ins)) (\<lambda>iws.
     rbind (if dst1SpdID ins \<noteq> - 1 then getWordSize ins (dst1SpdID ins) else Inr 1) (\<lambda>ows.
     let a1 = a\<lparr> a_dst_tile := dst1SpdID ins, a_dst_reg := dst1RegID ins, a_cond_tile := condSpdID ins,
                 a_src1_tile := src1SpdID ins, a_src2_tile := src2SpdID ins, a_max := - 1, a_i := 0,
                 a_input_word_size := iws, a_output_word_size := ows, a_input_words_per_cl := 64 div iws \<rparr> in
     rbind (if opcode ins = ALU_SCALAR \<or> opcode ins = ALU_VECTOR then Inr a1
            else if opcode ins = ALU_REDUCE then
              (if dst1RegID ins = - 1 then Inl Panic else alu_init_reduce (optype ins) a1)
            else Inl Assert_Fail) (\<lambda>a2.
       Inr (a2\<lparr> a_output_words_per_cl := 64 div ows,
                a_SPD_read_finish_tick := e_now env, a_SPD_write_finish_tick := e_now env,
                a_ALU_finish_tick := e_now env, a_decode_start_tick := e_now env,
                a_cond_tile_ready := (condSpdID ins = - 1), a_src1_tile_ready := False,
                a_src2_tile_ready := (opcode ins = ALU_SCALAR),
                a_instruction := Some (ins\<lparr> istate := Instr_Service \<rparr>), a_state := ALU_Work \<rparr>))))"

section \<open>Work\<close>

text \<open>A finished source tile fixes the number of elements, and all finished tiles must agree.\<close>

definition tile_max :: "spd \<Rightarrow> int \<Rightarrow> int \<Rightarrow> (bool \<times> int) res" where
  "tile_max s tile mx =
     rbind (getTileStatus s tile) (\<lambda>st.
       if st = Tile_Finished then
         rbind (getSize s tile) (\<lambda>n.
           let m = (if mx = - 1 then n else mx) in if n \<noteq> m then Inl Panic else Inr (True, m))
       else Inr (False, mx))"

definition alu_ready :: "alu \<Rightarrow> spd \<Rightarrow> Instruction \<Rightarrow> alu res" where
  "alu_ready a s ins =
     rbind (if a_cond_tile a \<noteq> - 1 then
              rbind (tile_max s (a_cond_tile a) (a_max a)) (\<lambda>(f, m).
                Inr (a\<lparr> a_cond_tile_ready := (f \<or> a_cond_tile_ready a), a_max := m \<rparr>))
            else Inr a) (\<lambda>a1.
     rbind (tile_max s (a_src1_tile a1) (a_max a1)) (\<lambda>(f1, m1).
     let a2 = a1\<lparr> a_src1_tile_ready := (f1 \<or> a_src1_tile_ready a1), a_max := m1 \<rparr> in
     if opcode ins = ALU_VECTOR then
       rbind (tile_max s (a_src2_tile a2) (a_max a2)) (\<lambda>(f2, m2).
         Inr (a2\<lparr> a_src2_tile_ready := (f2 \<or> a_src2_tile_ready a2), a_max := m2 \<rparr>))
     else Inr a2))"

text \<open>Where a result goes: the reduction register or the destination tile.\<close>

definition put_compare :: "alu \<Rightarrow> spd \<Rightarrow> Instruction \<Rightarrow> alu_counts \<Rightarrow> bool \<Rightarrow> (alu \<times> spd \<times> alu_counts) res" where
  "put_compare a s ins c b =
     (let v = (if b then 1 else 0) in
      if opcode ins = ALU_REDUCE then Inr (a\<lparr> a_red_u32 := v \<rparr>, s, c)
      else rbind (setData_u32 s (a_dst_tile a) (a_i a) v) (\<lambda>s'. Inr (a, s', c\<lparr> spd_write := spd_write c + 1 \<rparr>)))"

definition put_u32 :: "(u32 \<Rightarrow> alu \<Rightarrow> alu) \<Rightarrow> alu \<Rightarrow> spd \<Rightarrow> Instruction \<Rightarrow> alu_counts \<Rightarrow> u32 \<Rightarrow> (alu \<times> spd \<times> alu_counts) res" where
  "put_u32 red a s ins c v =
     (if opcode ins = ALU_REDUCE then Inr (red v a, s, c)
      else rbind (setData_u32 s (a_dst_tile a) (a_i a) v) (\<lambda>s'. Inr (a, s', c\<lparr> spd_write := spd_write c + 1 \<rparr>)))"

definition put_u64 :: "(u64 \<Rightarrow> alu \<Rightarrow> alu) \<Rightarrow> alu \<Rightarrow> spd \<Rightarrow> Instruction \<Rightarrow> alu_counts \<Rightarrow> u64 \<Rightarrow> (alu \<times> spd \<times> alu_counts) res" where
  "put_u64 red a s ins c v =
     (if opcode ins = ALU_REDUCE then Inr (red v a, s, c)
      else rbind (setData_u64 s (a_dst_tile a) (a_i a) v) (\<lambda>s'. Inr (a, s', c\<lparr> spd_write := spd_write c + 1 \<rparr>)))"

text \<open>The operands: the element of the first tile, and the register, second tile or accumulator.\<close>

definition operands_u32 :: "u32 \<Rightarrow> alu \<Rightarrow> spd \<Rightarrow> rf \<Rightarrow> Instruction \<Rightarrow> alu_counts \<Rightarrow> (u32 \<times> u32 \<times> alu_counts) res" where
  "operands_u32 red a s r ins c =
     rbind (getData_u32 s (a_src1_tile a) (a_i a)) (\<lambda>src1.
     let c1 = c\<lparr> spd_read_data := spd_read_data c + 1 \<rparr> in
     if opcode ins = ALU_SCALAR then rbind (rf_getData_u32 r (src1RegID ins)) (\<lambda>src2. Inr (src1, src2, c1))
     else if opcode ins = ALU_VECTOR then
       rbind (getData_u32 s (a_src2_tile a) (a_i a)) (\<lambda>src2.
         Inr (src1, src2, c1\<lparr> spd_read_data := spd_read_data c1 + 1 \<rparr>))
     else Inr (src1, red, c1))"

definition operands_u64 :: "u64 \<Rightarrow> alu \<Rightarrow> spd \<Rightarrow> rf \<Rightarrow> Instruction \<Rightarrow> alu_counts \<Rightarrow> (u64 \<times> u64 \<times> alu_counts) res" where
  "operands_u64 red a s r ins c =
     rbind (getData_u64 s (a_src1_tile a) (a_i a)) (\<lambda>src1.
     let c1 = c\<lparr> spd_read_data := spd_read_data c + 1 \<rparr> in
     if opcode ins = ALU_SCALAR then rbind (rf_getData_u64 r (src1RegID ins)) (\<lambda>src2. Inr (src1, src2, c1))
     else if opcode ins = ALU_VECTOR then
       rbind (getData_u64 s (a_src2_tile a) (a_i a)) (\<lambda>src2.
         Inr (src1, src2, c1\<lparr> spd_read_data := spd_read_data c1 + 1 \<rparr>))
     else Inr (src1, red, c1))"

text \<open>One element, per data type.\<close>

definition elem_u32 :: "alu \<Rightarrow> spd \<Rightarrow> rf \<Rightarrow> Instruction \<Rightarrow> alu_counts \<Rightarrow> (alu \<times> spd \<times> alu_counts) res" where
  "elem_u32 a s r ins c =
     rbind (operands_u32 (a_red_u32 a) a s r ins c) (\<lambda>(src1, src2, c1).
       if is_compare (optype ins) then rbind (cmp_unsigned (optype ins) src1 src2) (put_compare a s ins c1)
       else rbind (op_unsigned (optype ins) src1 src2) (put_u32 (\<lambda>v a. a\<lparr> a_red_u32 := v \<rparr>) a s ins c1))"

definition elem_i32 :: "alu \<Rightarrow> spd \<Rightarrow> rf \<Rightarrow> Instruction \<Rightarrow> alu_counts \<Rightarrow> (alu \<times> spd \<times> alu_counts) res" where
  "elem_i32 a s r ins c =
     rbind (operands_u32 (a_red_i32 a) a s r ins c) (\<lambda>(src1, src2, c1).
       if is_compare (optype ins) then rbind (cmp_signed (optype ins) src1 src2) (put_compare a s ins c1)
       else rbind (op_signed (optype ins) src1 src2) (put_u32 (\<lambda>v a. a\<lparr> a_red_i32 := v \<rparr>) a s ins c1))"

definition elem_f32 :: "u32 fp_ops \<Rightarrow> alu \<Rightarrow> spd \<Rightarrow> rf \<Rightarrow> Instruction \<Rightarrow> alu_counts \<Rightarrow> (alu \<times> spd \<times> alu_counts) res" where
  "elem_f32 f a s r ins c =
     rbind (operands_u32 (a_red_f32 a) a s r ins c) (\<lambda>(src1, src2, c1).
       if is_compare (optype ins) then rbind (cmp_float f (optype ins) src1 src2) (put_compare a s ins c1)
       else rbind (op_float f (optype ins) src1 src2) (put_u32 (\<lambda>v a. a\<lparr> a_red_f32 := v \<rparr>) a s ins c1))"

definition elem_u64 :: "alu \<Rightarrow> spd \<Rightarrow> rf \<Rightarrow> Instruction \<Rightarrow> alu_counts \<Rightarrow> (alu \<times> spd \<times> alu_counts) res" where
  "elem_u64 a s r ins c =
     rbind (operands_u64 (a_red_u64 a) a s r ins c) (\<lambda>(src1, src2, c1).
       if is_compare (optype ins) then rbind (cmp_unsigned (optype ins) src1 src2) (put_compare a s ins c1)
       else rbind (op_unsigned (optype ins) src1 src2) (put_u64 (\<lambda>v a. a\<lparr> a_red_u64 := v \<rparr>) a s ins c1))"

definition elem_i64 :: "alu \<Rightarrow> spd \<Rightarrow> rf \<Rightarrow> Instruction \<Rightarrow> alu_counts \<Rightarrow> (alu \<times> spd \<times> alu_counts) res" where
  "elem_i64 a s r ins c =
     rbind (operands_u64 (a_red_i64 a) a s r ins c) (\<lambda>(src1, src2, c1).
       if is_compare (optype ins) then rbind (cmp_signed (optype ins) src1 src2) (put_compare a s ins c1)
       else rbind (op_signed (optype ins) src1 src2) (put_u64 (\<lambda>v a. a\<lparr> a_red_i64 := v \<rparr>) a s ins c1))"

definition elem_f64 :: "u64 fp_ops \<Rightarrow> alu \<Rightarrow> spd \<Rightarrow> rf \<Rightarrow> Instruction \<Rightarrow> alu_counts \<Rightarrow> (alu \<times> spd \<times> alu_counts) res" where
  "elem_f64 f a s r ins c =
     rbind (operands_u64 (a_red_f64 a) a s r ins c) (\<lambda>(src1, src2, c1).
       if is_compare (optype ins) then rbind (cmp_float f (optype ins) src1 src2) (put_compare a s ins c1)
       else rbind (op_float f (optype ins) src1 src2) (put_u64 (\<lambda>v a. a\<lparr> a_red_f64 := v \<rparr>) a s ins c1))"

definition alu_elem :: "u32 fp_ops \<Rightarrow> u64 fp_ops \<Rightarrow> alu \<Rightarrow> spd \<Rightarrow> rf \<Rightarrow> Instruction \<Rightarrow> alu_counts \<Rightarrow>
    (alu \<times> spd \<times> alu_counts) res" where
  "alu_elem f32 f64 a s r ins c =
     (case datatyp ins of
        UINT32_TYPE \<Rightarrow> elem_u32 a s r ins c
      | INT32_TYPE \<Rightarrow> elem_i32 a s r ins c
      | FLOAT32_TYPE \<Rightarrow> elem_f32 f32 a s r ins c
      | UINT64_TYPE \<Rightarrow> elem_u64 a s r ins c
      | INT64_TYPE \<Rightarrow> elem_i64 a s r ins c
      | FLOAT64_TYPE \<Rightarrow> elem_f64 f64 a s r ins c
      | DataType_MAX \<Rightarrow> Inl Assert_Fail)"

text \<open>An element whose condition is false is zero in the destination.\<close>

definition alu_not_taken :: "alu \<Rightarrow> spd \<Rightarrow> Instruction \<Rightarrow> spd res" where
  "alu_not_taken a s ins =
     (if a_dst_tile a = - 1 then Inr s
      else if is_compare (optype ins) then setData_u32 s (a_dst_tile a) (a_i a) 0
      else case datatyp ins of
        UINT32_TYPE \<Rightarrow> setData_u32 s (a_dst_tile a) (a_i a) 0
      | INT32_TYPE \<Rightarrow> setData_u32 s (a_dst_tile a) (a_i a) 0
      | FLOAT32_TYPE \<Rightarrow> setData_u32 s (a_dst_tile a) (a_i a) 0
      | UINT64_TYPE \<Rightarrow> setData_u64 s (a_dst_tile a) (a_i a) 0
      | INT64_TYPE \<Rightarrow> setData_u64 s (a_dst_tile a) (a_i a) 0
      | FLOAT64_TYPE \<Rightarrow> setData_u64 s (a_dst_tile a) (a_i a) 0
      | DataType_MAX \<Rightarrow> Inl Assert_Fail)"

text \<open>
  One turn of the work loop.  \<open>It_wait\<close>: return because a source tile is unfinished although all its
  elements are consumed.  \<open>It_stall\<close>: return, after charging the latency, because an element is not
  there yet.  \<open>It_break\<close>: all elements are done.
\<close>

datatype iter_out = It_next | It_wait | It_stall | It_break

definition alu_poll :: "alu \<Rightarrow> spd \<Rightarrow> int \<Rightarrow> nat \<Rightarrow> (bool \<times> spd) res" where
  "alu_poll a s tile ws = getElementFinished s tile (a_i a) ws ALU (my_alu_id a)"

definition alu_polls :: "alu \<Rightarrow> spd \<Rightarrow> Instruction \<Rightarrow> (bool \<times> spd) res" where
  "alu_polls a s ins =
     rbind (if a_cond_tile a = - 1 then Inr (True, s) else alu_poll a s (a_cond_tile a) 4) (\<lambda>(cr, s1).
     rbind (if cr then alu_poll a s1 (a_src1_tile a) (a_input_word_size a) else Inr (False, s1)) (\<lambda>(r1, s2).
       if \<not> r1 then Inr (False, s2)
       else if opcode ins \<noteq> ALU_VECTOR then Inr (True, s2)
       else alu_poll a s2 (a_src2_tile a) (a_input_word_size a)))"

definition alu_taken :: "alu \<Rightarrow> spd \<Rightarrow> bool res" where
  "alu_taken a s =
     (if a_cond_tile a = - 1 then Inr True
      else rbind (getData_u32 s (a_cond_tile a) (a_i a)) (\<lambda>v. Inr (v \<noteq> 0)))"

definition alu_one :: "u32 fp_ops \<Rightarrow> u64 fp_ops \<Rightarrow> rf \<Rightarrow> Instruction \<Rightarrow> alu \<Rightarrow> spd \<Rightarrow> alu_counts \<Rightarrow>
    (alu \<times> spd \<times> alu_counts) res" where
  "alu_one f32 f64 r ins a s c =
     rbind (alu_taken a s) (\<lambda>taken.
       if taken then alu_elem f32 f64 a s r ins (c\<lparr> alu_accesses := alu_accesses c + 1 \<rparr>)
       else rbind (alu_not_taken a s ins) (\<lambda>s'. Inr (a, s', c)))"

definition alu_iter :: "u32 fp_ops \<Rightarrow> u64 fp_ops \<Rightarrow> rf \<Rightarrow> Instruction \<Rightarrow> alu \<Rightarrow> spd \<Rightarrow> alu_counts \<Rightarrow>
    (iter_out \<times> alu \<times> spd \<times> alu_counts) res" where
  "alu_iter f32 f64 r ins a s c =
     (if a_max a \<noteq> - 1 \<and> a_i a \<ge> a_max a then
        if \<not> a_cond_tile_ready a then rbind (alu_poll a s (a_cond_tile a) 4) (\<lambda>(_, s'). Inr (It_wait, a, s', c))
        else if \<not> a_src1_tile_ready a then
          rbind (alu_poll a s (a_src1_tile a) (a_input_word_size a)) (\<lambda>(_, s'). Inr (It_wait, a, s', c))
        else if \<not> a_src2_tile_ready a then
          rbind (alu_poll a s (a_src2_tile a) (a_input_word_size a)) (\<lambda>(_, s'). Inr (It_wait, a, s', c))
        else Inr (It_break, a, s, c)
      else
        rbind (alu_polls a s ins) (\<lambda>(ready, s1).
          if \<not> ready then Inr (It_stall, a, s1, c)
          else rbind (alu_one f32 f64 r ins a s1 c) (\<lambda>(a', s', c').
                 Inr (It_next, a'\<lparr> a_i := a_i a' + 1 \<rparr>, s', c'))))"

primrec alu_loop :: "u32 fp_ops \<Rightarrow> u64 fp_ops \<Rightarrow> rf \<Rightarrow> Instruction \<Rightarrow> nat \<Rightarrow> alu \<Rightarrow> spd \<Rightarrow> alu_counts \<Rightarrow>
    (iter_out \<times> alu \<times> spd \<times> alu_counts) res" where
  "alu_loop f32 f64 r ins 0 a s c = Inr (It_next, a, s, c)"
| "alu_loop f32 f64 r ins (Suc n) a s c =
     rbind (alu_iter f32 f64 r ins a s c) (\<lambda>(k, a', s', c').
       if k = It_next then alu_loop f32 f64 r ins n a' s' c' else Inr (k, a', s', c'))"

definition alu_fuel :: "spd \<Rightarrow> nat" where
  "alu_fuel s = num_tile_elements s + 1"

definition alu_work :: "fu_env \<Rightarrow> u32 fp_ops \<Rightarrow> u64 fp_ops \<Rightarrow> rf \<Rightarrow> Instruction \<Rightarrow> alu \<Rightarrow> spd \<Rightarrow> (fu_out \<times> alu \<times> spd) res" where
  "alu_work env f32 f64 r ins a s =
     rbind (alu_ready a s ins) (\<lambda>a1.
     rbind (alu_loop f32 f64 r ins (alu_fuel s) a1 s no_counts) (\<lambda>(k, a2, s2, c).
       case k of
         It_wait \<Rightarrow> Inr (no_out, a2, s2)
       | It_stall \<Rightarrow> rbind (alu_updateLatency env a2 s2 c) (\<lambda>(us, a3, s3). Inr (no_out\<lparr> out_waked := us \<rparr>, a3, s3))
       | It_break \<Rightarrow>
           rbind (alu_updateLatency env a2 s2 c) (\<lambda>(us, a3, s3).
             Inr (no_out\<lparr> out_waked := us, out_sched := alu_scheduleNextExecution env a3 True \<rparr>,
                  a3\<lparr> a_state := ALU_Finish \<rparr>, s3))
       | It_next \<Rightarrow> Inl Assert_Fail))"

section \<open>Finish\<close>

definition alu_write_reduce :: "alu \<Rightarrow> rf \<Rightarrow> Instruction \<Rightarrow> rf res" where
  "alu_write_reduce a r ins =
     (if opcode ins \<noteq> ALU_REDUCE then Inl Panic
      else if is_compare (optype ins) then rf_setData_u32 r (dst1RegID ins) (a_red_u32 a)
      else case datatyp ins of
        UINT32_TYPE \<Rightarrow> rf_setData_u32 r (dst1RegID ins) (a_red_u32 a)
      | INT32_TYPE \<Rightarrow> rf_setData_u32 r (dst1RegID ins) (a_red_i32 a)
      | FLOAT32_TYPE \<Rightarrow> rf_setData_u32 r (dst1RegID ins) (a_red_f32 a)
      | UINT64_TYPE \<Rightarrow> rf_setData_u64 r (dst1RegID ins) (a_red_u64 a)
      | INT64_TYPE \<Rightarrow> rf_setData_u64 r (dst1RegID ins) (a_red_i64 a)
      | FLOAT64_TYPE \<Rightarrow> rf_setData_u64 r (dst1RegID ins) (a_red_f64 a)
      | DataType_MAX \<Rightarrow> Inl Assert_Fail)"

definition alu_finish :: "alu \<Rightarrow> spd \<Rightarrow> rf \<Rightarrow> Instruction \<Rightarrow> (fu_out \<times> alu \<times> spd \<times> rf) res" where
  "alu_finish a s r ins =
     (if a_max a \<noteq> - 1 \<and> a_i a \<noteq> a_max a then Inl Panic
      else if \<not> a_cond_tile_ready a \<or> \<not> a_src1_tile_ready a \<or> \<not> a_src2_tile_ready a then Inl Panic
      else rbind (if a_dst_tile a \<noteq> - 1 then rbind (setSize s (a_dst_tile a) (a_i a)) (\<lambda>s'. Inr (s', r))
                  else rbind (alu_write_reduce a r ins) (\<lambda>r'. Inr (s, r'))) (\<lambda>(s', r').
        if opcode ins \<in> {ALU_SCALAR, ALU_VECTOR, ALU_REDUCE} then
          Inr (no_out\<lparr> out_finished := Some (ins\<lparr> istate := Instr_Finish \<rparr>) \<rparr>,
               a\<lparr> a_state := ALU_Idle, a_instruction := None \<rparr>, s', r')
        else Inl Assert_Fail))"

definition alu_executeInstruction :: "fu_env \<Rightarrow> u32 fp_ops \<Rightarrow> u64 fp_ops \<Rightarrow> alu \<Rightarrow> spd \<Rightarrow> rf \<Rightarrow>
    (fu_out \<times> alu \<times> spd \<times> rf) res" where
  "alu_executeInstruction env f32 f64 a s r =
     (case a_instruction a of
        None \<Rightarrow> Inl Assert_Fail
      | Some ins \<Rightarrow>
          if a_state a = ALU_Finish then alu_finish a s r ins
          else rbind (if a_state a = ALU_Work then Inr a else alu_decode env a ins) (\<lambda>a1.
               rbind (alu_work env f32 f64 r ins a1 s) (\<lambda>(x, a2, s2). Inr (x, a2, s2, r))))"

section \<open>The loop ends\<close>

text \<open>
  A turn that goes on has found its first operand in the tile, so the element number is below the tile
  size: the fuel, one more than the number of elements, never runs out.
\<close>

lemma put_dims:
  "put_compare a s ins c b = Inr (a', s', c') \<Longrightarrow> num_tile_elements s' = num_tile_elements s \<and> a_i a' = a_i a"
  "put_u32 red a s ins c v = Inr (a', s', c') \<Longrightarrow> (\<And>v a. a_i (red v a) = a_i a) \<Longrightarrow>
     num_tile_elements s' = num_tile_elements s \<and> a_i a' = a_i a"
  "put_u64 red' a s ins c w = Inr (a', s', c') \<Longrightarrow> (\<And>v a. a_i (red' v a) = a_i a) \<Longrightarrow>
     num_tile_elements s' = num_tile_elements s \<and> a_i a' = a_i a"
  unfolding put_compare_def put_u32_def put_u64_def setData_u32_def setData_u64_def Let_def
  by (auto simp: rbind_eq_Inr split: if_splits dest: spd_step_dims[OF step_setData])

lemma elem_dims:
  assumes "alu_elem f32 f64 a s r ins c = Inr (a', s', c')"
  shows "num_tile_elements s' = num_tile_elements s" "a_i a' = a_i a"
proof -
  have "num_tile_elements s' = num_tile_elements s \<and> a_i a' = a_i a"
  proof (cases "datatyp ins")
    case UINT32_TYPE
    then show ?thesis using assms unfolding alu_elem_def elem_u32_def
      by (auto simp: rbind_eq_Inr split: if_splits dest!: put_dims)
  next
    case INT32_TYPE
    then show ?thesis using assms unfolding alu_elem_def elem_i32_def
      by (auto simp: rbind_eq_Inr split: if_splits dest!: put_dims)
  next
    case FLOAT32_TYPE
    then show ?thesis using assms unfolding alu_elem_def elem_f32_def
      by (auto simp: rbind_eq_Inr split: if_splits dest!: put_dims)
  next
    case UINT64_TYPE
    then show ?thesis using assms unfolding alu_elem_def elem_u64_def
      by (auto simp: rbind_eq_Inr split: if_splits dest!: put_dims)
  next
    case INT64_TYPE
    then show ?thesis using assms unfolding alu_elem_def elem_i64_def
      by (auto simp: rbind_eq_Inr split: if_splits dest!: put_dims)
  next
    case FLOAT64_TYPE
    then show ?thesis using assms unfolding alu_elem_def elem_f64_def
      by (auto simp: rbind_eq_Inr split: if_splits dest!: put_dims)
  qed (use assms in \<open>simp add: alu_elem_def\<close>)
  then show "num_tile_elements s' = num_tile_elements s" "a_i a' = a_i a" by auto
qed

lemma alu_not_taken_dims: "alu_not_taken a s ins = Inr s' \<Longrightarrow> num_tile_elements s' = num_tile_elements s"
  unfolding alu_not_taken_def setData_u32_def setData_u64_def
  by (cases "datatyp ins") (auto split: if_splits dest: spd_step_dims[OF step_setData])

lemma alu_one_dims:
  assumes "alu_one f32 f64 r ins a s c = Inr (a', s', c')"
  shows "num_tile_elements s' = num_tile_elements s" "a_i a' = a_i a"
proof -
  obtain t where "(if t then alu_elem f32 f64 a s r ins (c\<lparr> alu_accesses := alu_accesses c + 1 \<rparr>)
       else rbind (alu_not_taken a s ins) (\<lambda>s'. Inr (a, s', c))) = Inr (a', s', c')"
    using assms unfolding alu_one_def rbind_eq_Inr by blast
  then show "num_tile_elements s' = num_tile_elements s" "a_i a' = a_i a"
    by (auto simp: rbind_eq_Inr split: if_splits dest: elem_dims alu_not_taken_dims)
qed

lemma alu_polls_true:
  assumes "alu_polls a s ins = Inr (True, s')"
  shows "s' = s" "0 \<le> a_i a" "a_i a < int (num_tile_elements s)"
proof -
  obtain cr s1 where p1: "(if a_cond_tile a = - 1 then Inr (True, s) else alu_poll a s (a_cond_tile a) 4) = Inr (cr, s1)"
    and p2: "rbind (if cr then alu_poll a s1 (a_src1_tile a) (a_input_word_size a) else Inr (False, s1)) (\<lambda>(r1, s2).
       if \<not> r1 then Inr (False, s2)
       else if opcode ins \<noteq> ALU_VECTOR then Inr (True, s2)
       else alu_poll a s2 (a_src2_tile a) (a_input_word_size a)) = Inr (True, s')"
    using assms unfolding alu_polls_def by (auto simp: rbind_eq_Inr)
  have cr: "cr" using p2 by (cases cr) auto
  then have s1: "s1 = s" using p1 unfolding alu_poll_def by (auto split: if_splits dest: poll_true)
  obtain r1 s2 where p3: "alu_poll a s (a_src1_tile a) (a_input_word_size a) = Inr (r1, s2)"
    and p4: "(if \<not> r1 then Inr (False, s2) else if opcode ins \<noteq> ALU_VECTOR then Inr (True, s2)
       else alu_poll a s2 (a_src2_tile a) (a_input_word_size a)) = Inr (True, s')"
    using p2 cr s1 by (auto simp: rbind_eq_Inr)
  have r1: "r1" using p4 by (cases r1) auto
  then have "alu_poll a s (a_src1_tile a) (a_input_word_size a) = Inr (True, s2)" using p3 by simp
  then have "s2 = s \<and> 0 \<le> a_i a \<and> a_i a < int (num_tile_elements s)" unfolding alu_poll_def by (rule poll_true)
  moreover from this have "s' = s" using p4 r1 unfolding alu_poll_def by (auto split: if_splits dest: poll_true)
  ultimately show "s' = s" "0 \<le> a_i a" "a_i a < int (num_tile_elements s)" by auto
qed

text \<open>What a turn that goes on has done.\<close>

lemma alu_iter_next:
  assumes "alu_iter f32 f64 r ins a s c = Inr (It_next, a', s', c')"
  obtains a1 where "0 \<le> a_i a" "a_i a < int (num_tile_elements s)"
    "alu_one f32 f64 r ins a s c = Inr (a1, s', c')" "a' = a1\<lparr> a_i := a_i a + 1 \<rparr>"
proof -
  have nb: "\<not> (a_max a \<noteq> - 1 \<and> a_max a \<le> a_i a)"
    using assms unfolding alu_iter_def by (auto simp: rbind_eq_Inr split: if_splits)
  obtain ready s1 where p: "alu_polls a s ins = Inr (ready, s1)"
    and q: "(if \<not> ready then Inr (It_stall, a, s1, c)
          else rbind (alu_one f32 f64 r ins a s1 c) (\<lambda>(a', s', c').
                 Inr (It_next, a'\<lparr> a_i := a_i a' + 1 \<rparr>, s', c'))) = Inr (It_next, a', s', c')"
    using assms nb unfolding alu_iter_def by (auto simp: rbind_eq_Inr)
  have "ready" using q by (cases ready) auto
  then have pt: "alu_polls a s ins = Inr (True, s1)" using p by simp
  obtain a1 where o: "alu_one f32 f64 r ins a s c = Inr (a1, s', c')" "a' = a1\<lparr> a_i := a_i a1 + 1 \<rparr>"
    using q \<open>ready\<close> alu_polls_true(1)[OF pt] by (auto simp: rbind_eq_Inr)
  show thesis
    by (rule that[OF alu_polls_true(2,3)[OF pt] o(1)]) (simp add: o(2) alu_one_dims(2)[OF o(1)])
qed

lemma alu_loop_fuel:
  assumes "alu_loop f32 f64 r ins n a s c = Inr (k, a', s', c')" "a_i a \<le> int (num_tile_elements s)"
    "int (num_tile_elements s) < a_i a + int n"
  shows "k \<noteq> It_next"
  using assms
proof (induction n arbitrary: a s c)
  case (Suc n)
  obtain k1 a1 s1 c1 where i: "alu_iter f32 f64 r ins a s c = Inr (k1, a1, s1, c1)"
    and l: "(if k1 = It_next then alu_loop f32 f64 r ins n a1 s1 c1 else Inr (k1, a1, s1, c1)) = Inr (k, a', s', c')"
    using Suc.prems(1) by (auto simp: rbind_eq_Inr)
  show ?case
  proof (cases "k1 = It_next")
    case True
    obtain a2 where n: "a_i a < int (num_tile_elements s)" "alu_one f32 f64 r ins a s c = Inr (a2, s1, c1)"
      "a1 = a2\<lparr> a_i := a_i a + 1 \<rparr>"
      using alu_iter_next i True by metis
    have "num_tile_elements s1 = num_tile_elements s" using alu_one_dims(1)[OF n(2)] .
    then show ?thesis using Suc.IH[of a1 s1 c1] l True n Suc.prems(3) by simp
  next
    case False
    then show ?thesis using l by simp
  qed
qed simp

section \<open>What an element operation computes\<close>

text \<open>The 4-byte types: the value of one destination element as a function of the sources.\<close>

definition bit32 :: "bool \<Rightarrow> u32" where
  "bit32 b = (if b then 1 else 0)"

definition lane32 :: "u32 fp_ops \<Rightarrow> Instruction \<Rightarrow> u32 \<Rightarrow> u32 \<Rightarrow> u32 res" where
  "lane32 f32 ins x y =
     (case datatyp ins of
        UINT32_TYPE \<Rightarrow> if is_compare (optype ins) then rbind (cmp_unsigned (optype ins) x y) (\<lambda>b. Inr (bit32 b))
                       else op_unsigned (optype ins) x y
      | INT32_TYPE \<Rightarrow> if is_compare (optype ins) then rbind (cmp_signed (optype ins) x y) (\<lambda>b. Inr (bit32 b))
                      else op_signed (optype ins) x y
      | FLOAT32_TYPE \<Rightarrow> if is_compare (optype ins) then rbind (cmp_float f32 (optype ins) x y) (\<lambda>b. Inr (bit32 b))
                        else op_float f32 (optype ins) x y
      | _ \<Rightarrow> Inl Assert_Fail)"

definition alu_value32 :: "u32 fp_ops \<Rightarrow> rf \<Rightarrow> Instruction \<Rightarrow> spd \<Rightarrow> int \<Rightarrow> u32 res" where
  "alu_value32 f32 r ins s i =
     rbind (if condSpdID ins = - 1 then Inr True
            else rbind (getData_u32 s (condSpdID ins) i) (\<lambda>v. Inr (v \<noteq> 0))) (\<lambda>taken.
       if \<not> taken then Inr 0
       else rbind (getData_u32 s (src1SpdID ins) i) (\<lambda>x.
            rbind (if opcode ins = ALU_SCALAR then rf_getData_u32 r (src1RegID ins)
                   else getData_u32 s (src2SpdID ins) i) (\<lambda>y. lane32 f32 ins x y)))"

text \<open>A unit that has decoded an instruction over 4-byte words with a tile as its destination.\<close>

definition alu_runs :: "alu \<Rightarrow> Instruction \<Rightarrow> bool" where
  "alu_runs a ins \<longleftrightarrow> a_dst_tile a = dst1SpdID ins \<and> a_cond_tile a = condSpdID ins \<and> a_src1_tile a = src1SpdID ins \<and>
     a_src2_tile a = src2SpdID ins \<and> opcode ins \<in> {ALU_SCALAR, ALU_VECTOR} \<and>
     datatyp ins \<in> {UINT32_TYPE, INT32_TYPE, FLOAT32_TYPE} \<and>
     dst1SpdID ins \<notin> {src1SpdID ins, src2SpdID ins, condSpdID ins, - 1}"

lemma operands_u32_vec:
  assumes "opcode ins \<in> {ALU_SCALAR, ALU_VECTOR}" "operands_u32 red a s r ins c = Inr (x, y, c')"
  shows "getData_u32 s (a_src1_tile a) (a_i a) = Inr x"
    "(if opcode ins = ALU_SCALAR then rf_getData_u32 r (src1RegID ins) else getData_u32 s (a_src2_tile a) (a_i a)) = Inr y"
  using assms unfolding operands_u32_def Let_def by (auto simp: rbind_eq_Inr split: if_splits)

lemma put_vec:
  assumes "opcode ins \<in> {ALU_SCALAR, ALU_VECTOR}"
  shows "put_compare a s ins c b = Inr (a', s', c') \<Longrightarrow> a' = a \<and> setData_u32 s (a_dst_tile a) (a_i a) (bit32 b) = Inr s'"
    "put_u32 red a s ins c v = Inr (a', s', c') \<Longrightarrow> a' = a \<and> setData_u32 s (a_dst_tile a) (a_i a) v = Inr s'"
  using assms unfolding put_compare_def put_u32_def bit32_def Let_def by (auto simp: rbind_eq_Inr split: if_splits)

lemma elem_vec:
  assumes o: "opcode ins \<in> {ALU_SCALAR, ALU_VECTOR}" and d: "datatyp ins \<in> {UINT32_TYPE, INT32_TYPE, FLOAT32_TYPE}"
    and e: "alu_elem f32 f64 a s r ins c = Inr (a', s', c')"
  shows "\<exists>x y v. getData_u32 s (a_src1_tile a) (a_i a) = Inr x \<and>
    (if opcode ins = ALU_SCALAR then rf_getData_u32 r (src1RegID ins) else getData_u32 s (a_src2_tile a) (a_i a)) = Inr y \<and>
    lane32 f32 ins x y = Inr v \<and> a' = a \<and> setData_u32 s (a_dst_tile a) (a_i a) v = Inr s'"
proof -
  have gen: "\<exists>x y v. getData_u32 s (a_src1_tile a) (a_i a) = Inr x \<and>
      (if opcode ins = ALU_SCALAR then rf_getData_u32 r (src1RegID ins) else getData_u32 s (a_src2_tile a) (a_i a)) = Inr y \<and>
      (if is_compare (optype ins) then rbind (cmp x y) (\<lambda>b. Inr (bit32 b)) else op x y) = Inr v \<and>
      a' = a \<and> setData_u32 s (a_dst_tile a) (a_i a) v = Inr s'"
    if g: "rbind (operands_u32 red0 a s r ins c) (\<lambda>(src1, src2, c1).
       if is_compare (optype ins) then rbind (cmp src1 src2) (put_compare a s ins c1)
       else rbind (op src1 src2) (put_u32 red a s ins c1)) = Inr (a', s', c')" for red0 red cmp op
  proof -
    obtain x y c1 where p: "operands_u32 red0 a s r ins c = Inr (x, y, c1)"
      and q: "(if is_compare (optype ins) then rbind (cmp x y) (put_compare a s ins c1)
         else rbind (op x y) (put_u32 red a s ins c1)) = Inr (a', s', c')"
      using g by (auto simp: rbind_eq_Inr)
    note ops = operands_u32_vec[OF o p]
    show ?thesis
    proof (cases "is_compare (optype ins)")
      case True
      then obtain b where "cmp x y = Inr b" "put_compare a s ins c1 b = Inr (a', s', c')"
        using q by (auto simp: rbind_eq_Inr)
      then show ?thesis using ops True put_vec(1)[OF o] by fastforce
    next
      case False
      then obtain v where "op x y = Inr v" "put_u32 red a s ins c1 v = Inr (a', s', c')"
        using q by (auto simp: rbind_eq_Inr)
      then show ?thesis using ops False put_vec(2)[OF o] by fastforce
    qed
  qed
  from d consider "datatyp ins = UINT32_TYPE" | "datatyp ins = INT32_TYPE" | "datatyp ins = FLOAT32_TYPE" by auto
  then show ?thesis
  proof cases
    case 1
    show ?thesis using gen[OF e[unfolded alu_elem_def 1 DataType.case elem_u32_def]] unfolding lane32_def 1 by simp
  next
    case 2
    show ?thesis using gen[OF e[unfolded alu_elem_def 2 DataType.case elem_i32_def]] unfolding lane32_def 2 by simp
  next
    case 3
    show ?thesis using gen[OF e[unfolded alu_elem_def 3 DataType.case elem_f32_def]] unfolding lane32_def 3 by simp
  qed
qed

lemma alu_one_value:
  assumes run: "alu_runs a ins" and o: "alu_one f32 f64 r ins a s c = Inr (a', s', c')"
  obtains v where "alu_value32 f32 r ins s (a_i a) = Inr v" "a' = a" "setData_u32 s (dst1SpdID ins) (a_i a) v = Inr s'"
proof -
  note run' = run[unfolded alu_runs_def]
  obtain taken where t: "alu_taken a s = Inr taken"
    and q: "(if taken then alu_elem f32 f64 a s r ins (c\<lparr> alu_accesses := alu_accesses c + 1 \<rparr>)
       else rbind (alu_not_taken a s ins) (\<lambda>s'. Inr (a, s', c))) = Inr (a', s', c')"
    using o unfolding alu_one_def rbind_eq_Inr by blast
  have t': "(if condSpdID ins = - 1 then Inr True
      else rbind (getData_u32 s (condSpdID ins) (a_i a)) (\<lambda>v. Inr (v \<noteq> 0))) = Inr taken"
    using t run' unfolding alu_taken_def by auto
  show thesis
  proof (cases taken)
    case True
    then have "alu_elem f32 f64 a s r ins (c\<lparr> alu_accesses := alu_accesses c + 1 \<rparr>) = Inr (a', s', c')" using q by simp
    from elem_vec[OF _ _ this] run' obtain x y v where
      "getData_u32 s (src1SpdID ins) (a_i a) = Inr x"
      "(if opcode ins = ALU_SCALAR then rf_getData_u32 r (src1RegID ins) else getData_u32 s (src2SpdID ins) (a_i a)) = Inr y"
      "lane32 f32 ins x y = Inr v" "a' = a" "setData_u32 s (dst1SpdID ins) (a_i a) v = Inr s'"
      by auto
    then show thesis using that[of v] t' True unfolding alu_value32_def by simp
  next
    case False
    then have "alu_not_taken a s ins = Inr s'" "a' = a" using q by (auto simp: rbind_eq_Inr)
    then have "setData_u32 s (dst1SpdID ins) (a_i a) 0 = Inr s'"
      using run' unfolding alu_not_taken_def by (auto split: if_splits)
    then show thesis using that[of 0] \<open>a' = a\<close> t' False unfolding alu_value32_def by simp
  qed
qed

section \<open>The correct prefix\<close>

text \<open>
  Between two scratchpad states the elements from \<open>lo\<close> up to \<open>hi\<close> of the destination have received
  their values, computed from the sources, and nothing else has changed.
\<close>

definition filled :: "u32 fp_ops \<Rightarrow> rf \<Rightarrow> Instruction \<Rightarrow> spd \<Rightarrow> int \<Rightarrow> int \<Rightarrow> spd \<Rightarrow> bool" where
  "filled f32 r ins s lo hi s' \<longleftrightarrow> spd_wf s' \<and> num_tiles s' = num_tiles s \<and> num_tile_elements s' = num_tile_elements s \<and>
     lo \<le> hi \<and> (\<forall>t e. getData_u32 s' t e =
        (if t = dst1SpdID ins \<and> lo \<le> e \<and> e < hi then alu_value32 f32 r ins s e else getData_u32 s t e)) \<and>
     (\<forall>e. lo \<le> e \<and> e < hi \<longrightarrow> is_ok (alu_value32 f32 r ins s e))"

lemma alu_value32_cong:
  assumes "\<And>t. t \<noteq> dst1SpdID ins \<Longrightarrow> getData_u32 s' t i = getData_u32 s t i"
    "dst1SpdID ins \<notin> {src1SpdID ins, src2SpdID ins, condSpdID ins}"
  shows "alu_value32 f32 r ins s' i = alu_value32 f32 r ins s i"
proof -
  have "getData_u32 s' t i = getData_u32 s t i" if "t \<in> {src1SpdID ins, src2SpdID ins, condSpdID ins}" for t
    using assms that by metis
  then have "getData_u32 s' (src1SpdID ins) i = getData_u32 s (src1SpdID ins) i"
    "getData_u32 s' (src2SpdID ins) i = getData_u32 s (src2SpdID ins) i"
    "getData_u32 s' (condSpdID ins) i = getData_u32 s (condSpdID ins) i" by simp_all
  then show ?thesis unfolding alu_value32_def by (simp only:)
qed

lemma filled_refl: "spd_wf s \<Longrightarrow> filled f32 r ins s i i s"
  unfolding filled_def by auto

lemma filled_view:
  assumes "filled f32 r ins s lo hi s'" "spd_view s'' = spd_view s'" "spd_wf s''"
  shows "filled f32 r ins s lo hi s''"
  using assms(1,3) unfolding filled_def spd_viewD[OF assms(2)] by simp

lemma filled_step:
  assumes run: "alu_runs a ins" and wf: "spd_wf s" and o: "alu_one f32 f64 r ins a s c = Inr (a', s', c')"
  shows "filled f32 r ins s (a_i a) (a_i a + 1) s'"
proof -
  obtain v where v: "alu_value32 f32 r ins s (a_i a) = Inr v" "setData_u32 s (dst1SpdID ins) (a_i a) v = Inr s'"
    by (rule alu_one_value[OF run o])
  have "spd_step s s'" using v(2) step_setData unfolding setData_u32_def by blast
  then have "spd_wf s'" "num_tiles s' = num_tiles s" "num_tile_elements s' = num_tile_elements s"
    using spd_step_wf spd_step_dims wf by blast+
  moreover have "e = a_i a" if "a_i a \<le> e" "e < a_i a + 1" for e using that by simp
  ultimately show ?thesis using v(1) rd_wr_u32[OF wf v(2)] unfolding filled_def by auto
qed

lemma filled_trans:
  assumes "filled f32 r ins s lo mid s1" "filled f32 r ins s1 mid hi s2"
    and d: "dst1SpdID ins \<notin> {src1SpdID ins, src2SpdID ins, condSpdID ins}"
  shows "filled f32 r ins s lo hi s2"
proof -
  have val: "alu_value32 f32 r ins s1 e = alu_value32 f32 r ins s e" for e
    using assms(1) unfolding filled_def by (intro alu_value32_cong[OF _ d]) simp
  show ?thesis
    using assms(1,2) unfolding filled_def val by (smt (verit, best))
qed

lemma alu_poll_quiet: "alu_poll a s t ws = Inr (b, s') \<Longrightarrow> quiet s s'"
  unfolding alu_poll_def by (rule poll_quiet)

lemma alu_polls_quiet:
  assumes "alu_polls a s ins = Inr (b, s')"
  shows "quiet s s'"
proof -
  obtain cr s1 where p1: "(if a_cond_tile a = - 1 then Inr (True, s) else alu_poll a s (a_cond_tile a) 4) = Inr (cr, s1)"
    and p2: "rbind (if cr then alu_poll a s1 (a_src1_tile a) (a_input_word_size a) else Inr (False, s1)) (\<lambda>(r1, s2).
       if \<not> r1 then Inr (False, s2)
       else if opcode ins \<noteq> ALU_VECTOR then Inr (True, s2)
       else alu_poll a s2 (a_src2_tile a) (a_input_word_size a)) = Inr (b, s')"
    using assms unfolding alu_polls_def by (auto simp: rbind_eq_Inr)
  obtain r1 s2 where p3: "(if cr then alu_poll a s1 (a_src1_tile a) (a_input_word_size a) else Inr (False, s1)) = Inr (r1, s2)"
    and p4: "(if \<not> r1 then Inr (False, s2) else if opcode ins \<noteq> ALU_VECTOR then Inr (True, s2)
       else alu_poll a s2 (a_src2_tile a) (a_input_word_size a)) = Inr (b, s')"
    using p2 by (auto simp: rbind_eq_Inr)
  have "quiet s s1" using p1 alu_poll_quiet by (auto split: if_splits)
  moreover have "quiet s1 s2" using p3 alu_poll_quiet by (auto split: if_splits)
  moreover have "quiet s2 s'" using p4 alu_poll_quiet by (auto split: if_splits)
  ultimately show ?thesis using quiet_trans by blast
qed

lemma alu_iter_quiet:
  assumes "alu_iter f32 f64 r ins a s c = Inr (k, a', s', c')" "k \<noteq> It_next"
  shows "a' = a \<and> quiet s s'"
proof (cases "a_max a \<noteq> - 1 \<and> a_i a \<ge> a_max a")
  case True
  then show ?thesis using assms unfolding alu_iter_def
    by (auto simp: rbind_eq_Inr split: if_splits dest: alu_poll_quiet)
next
  case False
  then obtain b s1 where p: "alu_polls a s ins = Inr (b, s1)"
    and q: "(if \<not> b then Inr (It_stall, a, s1, c)
          else rbind (alu_one f32 f64 r ins a s1 c) (\<lambda>(a', s', c').
                 Inr (It_next, a'\<lparr> a_i := a_i a' + 1 \<rparr>, s', c'))) = Inr (k, a', s', c')"
    using assms unfolding alu_iter_def by (auto simp: rbind_eq_Inr)
  have "\<not> b" using q assms(2) by (auto simp: rbind_eq_Inr split: if_splits)
  then show ?thesis using p q alu_polls_quiet by auto
qed

lemma alu_loop_filled:
  assumes "alu_loop f32 f64 r ins n a s c = Inr (k, a', s', c')" "alu_runs a ins" "spd_wf s"
  shows "filled f32 r ins s (a_i a) (a_i a') s' \<and> a' = a\<lparr> a_i := a_i a' \<rparr>"
  using assms
proof (induction n arbitrary: a s c)
  case 0
  then show ?case by (simp add: filled_refl)
next
  case (Suc n)
  have dd: "dst1SpdID ins \<notin> {src1SpdID ins, src2SpdID ins, condSpdID ins}"
    using Suc.prems(2) unfolding alu_runs_def by simp
  obtain k1 a1 s1 c1 where i: "alu_iter f32 f64 r ins a s c = Inr (k1, a1, s1, c1)"
    and l: "(if k1 = It_next then alu_loop f32 f64 r ins n a1 s1 c1 else Inr (k1, a1, s1, c1)) = Inr (k, a', s', c')"
    using Suc.prems(1) by (auto simp: rbind_eq_Inr)
  show ?case
  proof (cases "k1 = It_next")
    case False
    then have "a1 = a \<and> quiet s s1" using alu_iter_quiet[OF i] by blast
    then show ?thesis
      using False l Suc.prems(3) filled_view[OF filled_refl[OF Suc.prems(3)], of s1]
      unfolding quiet_def by simp
  next
    case True
    obtain a2 where one: "alu_one f32 f64 r ins a s c = Inr (a2, s1, c1)" and a1: "a1 = a2\<lparr> a_i := a_i a + 1 \<rparr>"
      using alu_iter_next i True by metis
    have "a2 = a" by (rule alu_one_value[OF Suc.prems(2) one])
    then have a1': "a1 = a\<lparr> a_i := a_i a + 1 \<rparr>" using a1 by simp
    have f1: "filled f32 r ins s (a_i a) (a_i a + 1) s1" by (rule filled_step[OF Suc.prems(2,3) one])
    have run1: "alu_runs a1 ins" using Suc.prems(2) unfolding alu_runs_def a1' by simp
    have wf1: "spd_wf s1" using f1 unfolding filled_def by simp
    have IH: "filled f32 r ins s1 (a_i a + 1) (a_i a') s'" "a' = a1\<lparr> a_i := a_i a' \<rparr>"
      using Suc.IH[OF _ run1 wf1, of c1] l True a1' by simp_all
    have "a' = a\<lparr> a_i := a_i a' \<rparr>" using IH(2) unfolding a1' by simp
    then show ?thesis using filled_trans[OF f1 IH(1) dd] by blast
  qed
qed

section \<open>A call of the work state\<close>

lemma alu_ready_keeps:
  assumes "alu_ready a s ins = Inr a'"
  shows "\<exists>cr r1 r2 m. a' = a\<lparr> a_cond_tile_ready := cr, a_src1_tile_ready := r1, a_src2_tile_ready := r2, a_max := m \<rparr>"
proof -
  obtain a1 where p: "(if a_cond_tile a \<noteq> - 1 then
              rbind (tile_max s (a_cond_tile a) (a_max a)) (\<lambda>(f, m).
                Inr (a\<lparr> a_cond_tile_ready := (f \<or> a_cond_tile_ready a), a_max := m \<rparr>))
            else Inr a) = Inr a1"
    and q: "rbind (tile_max s (a_src1_tile a1) (a_max a1)) (\<lambda>(f1, m1).
     let a2 = a1\<lparr> a_src1_tile_ready := (f1 \<or> a_src1_tile_ready a1), a_max := m1 \<rparr> in
     if opcode ins = ALU_VECTOR then
       rbind (tile_max s (a_src2_tile a2) (a_max a2)) (\<lambda>(f2, m2).
         Inr (a2\<lparr> a_src2_tile_ready := (f2 \<or> a_src2_tile_ready a2), a_max := m2 \<rparr>))
     else Inr a2) = Inr a'"
    using assms unfolding alu_ready_def rbind_eq_Inr by blast
  have "\<exists>cr m. a1 = a\<lparr> a_cond_tile_ready := cr, a_max := m \<rparr>"
  proof (cases "a_cond_tile a = - 1")
    case True
    then have "a1 = a\<lparr> a_cond_tile_ready := a_cond_tile_ready a, a_max := a_max a \<rparr>" using p by simp
    then show ?thesis by blast
  next
    case False
    then show ?thesis using p by (auto simp: rbind_eq_Inr)
  qed
  then obtain cr m where a1: "a1 = a\<lparr> a_cond_tile_ready := cr, a_max := m \<rparr>" by blast
  have "\<exists>r1 r2 m. a' = a1\<lparr> a_src1_tile_ready := r1, a_src2_tile_ready := r2, a_max := m \<rparr>"
  proof (cases "opcode ins = ALU_VECTOR")
    case True
    then show ?thesis using q by (auto simp: rbind_eq_Inr Let_def)
  next
    case False
    then obtain f1 m1 where "a' = a1\<lparr> a_src1_tile_ready := (f1 \<or> a_src1_tile_ready a1), a_max := m1 \<rparr>"
      using q by (auto simp: rbind_eq_Inr Let_def)
    then have "a' = a1\<lparr> a_src1_tile_ready := (f1 \<or> a_src1_tile_ready a1), a_src2_tile_ready := a_src2_tile_ready a1, a_max := m1 \<rparr>"
      by simp
    then show ?thesis by blast
  qed
  then show ?thesis unfolding a1 by auto
qed

lemma alu_updateLatency_quiet:
  assumes "alu_updateLatency env a s c = Inr (us, a', s')"
  shows "quiet s s' \<and> (\<exists>t1 t2 t3. a' = a\<lparr> a_SPD_read_finish_tick := t1, a_SPD_write_finish_tick := t2, a_ALU_finish_tick := t3 \<rparr>)"
proof -
  obtain u1 n1 t1 t1' s1 u2 n2 t2 t2' s2 t3 where p: "charge_read env s u1 n1 t1 = Inr (t1', s1)"
    "charge_write env s1 u2 (a_dst_tile a) n2 t2 = Inr (t2', us, s2)"
    and r: "s' = s2" "a' = a\<lparr> a_SPD_read_finish_tick := t1', a_SPD_write_finish_tick := t2', a_ALU_finish_tick := t3 \<rparr>"
    using assms unfolding alu_updateLatency_def Let_def by (auto simp: rbind_eq_Inr)
  show ?thesis using quiet_trans[OF charge_read_quiet[OF p(1)] charge_write_quiet[OF p(2)]] r by blast
qed

lemma alu_updateLatency_ok:
  assumes "spd_wf s" "0 \<le> a_dst_tile a" "a_dst_tile a < int (num_tiles s)" "\<And>f i. e_unit_ok env f i"
  shows "\<exists>us a' s'. alu_updateLatency env a s c = Inr (us, a', s')"
proof -
  let ?n = "getCeiling (spd_read_data c) (a_input_words_per_cl a) + getCeiling (spd_read_cond c) 16"
  obtain t1 s1 where r: "charge_read env s (spd_read_data c \<noteq> 0 \<or> spd_read_cond c \<noteq> 0) ?n (a_SPD_read_finish_tick a) = Inr (t1, s1)"
    using charge_read_ok[OF assms(1)] by blast
  have "spd_wf s1" "num_tiles s1 = num_tiles s"
    using charge_read_quiet[OF r] assms(1) spd_viewD(7)[of s1 s] unfolding quiet_def by blast+
  then have "spd_wf s1" "a_dst_tile a < int (num_tiles s1)" using assms(3) by auto
  then obtain t2 us s2 where "charge_write env s1 (spd_write c \<noteq> 0) (a_dst_tile a)
      (getCeiling (spd_write c) (a_output_words_per_cl a)) (a_SPD_write_finish_tick a) = Inr (t2, us, s2)"
    using charge_write_ok[OF _ _ _ assms(4), of s1 "a_dst_tile a"] assms(2) by blast
  then show ?thesis using r unfolding alu_updateLatency_def Let_def by simp
qed

lemma alu_work_filled:
  assumes w: "alu_work env f32 f64 r ins a s = Inr (x, a', s')" and run: "alu_runs a ins" and wf: "spd_wf s"
  shows "filled f32 r ins s (a_i a) (a_i a') s' \<and> alu_runs a' ins"
proof -
  obtain a1 k a2 s2 c where rd: "alu_ready a s ins = Inr a1"
    and l: "alu_loop f32 f64 r ins (alu_fuel s) a1 s no_counts = Inr (k, a2, s2, c)"
    and k: "(case k of It_wait \<Rightarrow> Inr (no_out, a2, s2)
       | It_stall \<Rightarrow> rbind (alu_updateLatency env a2 s2 c) (\<lambda>(us, a3, s3). Inr (no_out\<lparr> out_waked := us \<rparr>, a3, s3))
       | It_break \<Rightarrow>
           rbind (alu_updateLatency env a2 s2 c) (\<lambda>(us, a3, s3).
             Inr (no_out\<lparr> out_waked := us, out_sched := alu_scheduleNextExecution env a3 True \<rparr>,
                  a3\<lparr> a_state := ALU_Finish \<rparr>, s3))
       | It_next \<Rightarrow> Inl Assert_Fail) = Inr (x, a', s')"
    using w unfolding alu_work_def by (auto simp: rbind_eq_Inr)
  have a1: "a_i a1 = a_i a" "alu_runs a1 ins"
    using alu_ready_keeps[OF rd] run unfolding alu_runs_def by auto
  have f: "filled f32 r ins s (a_i a) (a_i a2) s2" "a2 = a1\<lparr> a_i := a_i a2 \<rparr>"
    using alu_loop_filled[OF l a1(2) wf] unfolding a1(1) by auto
  have run2: "alu_runs a2 ins" using a1(2) by (subst f(2)) (simp add: alu_runs_def)
  obtain us a3 s3 where e0: "a' = a3 \<or> a' = a3\<lparr> a_state := ALU_Finish \<rparr>" "s' = s3"
    "alu_updateLatency env a2 s2 c = Inr (us, a3, s3) \<or> a3 = a2 \<and> s3 = s2"
    using k by (cases k) (force simp: rbind_eq_Inr)+
  have e: "a_i a' = a_i a3 \<and> (alu_runs a3 ins \<longrightarrow> alu_runs a' ins)" "s' = s3"
    "alu_updateLatency env a2 s2 c = Inr (us, a3, s3) \<or> a3 = a2 \<and> s3 = s2"
    using e0 by (auto simp: alu_runs_def)
  have "quiet s2 s3" "a_i a3 = a_i a2" "alu_runs a3 ins"
    using e(3) run2 alu_updateLatency_quiet[of env a2 s2 c us a3 s3] unfolding alu_runs_def by auto
  then show ?thesis
    using filled_view[OF f(1), of s3] f(1) e unfolding quiet_def filled_def by auto
qed


section \<open>Complete instructions\<close>

text \<open>A source tile that is finished: its status, its size, and the flags of its elements.\<close>

definition tile_done :: "spd \<Rightarrow> int \<Rightarrow> nat \<Rightarrow> bool" where
  "tile_done s t n \<longleftrightarrow> 0 \<le> t \<and> t < int (num_tiles s) \<and> tiles_status s ! nat t = Tile_Finished \<and>
     sint (tiles_size s ! nat t) = int n \<and> (\<forall>e < n. element_finished s ! (finished_slot s t (int e) 4))"

definition sources_done :: "spd \<Rightarrow> Instruction \<Rightarrow> nat \<Rightarrow> bool" where
  "sources_done s ins n \<longleftrightarrow> n \<le> num_tile_elements s \<and> tile_done s (src1SpdID ins) n \<and>
     (opcode ins = ALU_VECTOR \<longrightarrow> tile_done s (src2SpdID ins) n) \<and>
     (condSpdID ins \<noteq> - 1 \<longrightarrow> tile_done s (condSpdID ins) n)"

lemma tile_done_status:
  assumes "spd_wf s" "tile_done s t n"
  shows "getTileStatus s t = Inr Tile_Finished" "getSize s t = Inr (int n)"
proof -
  have b: "nat t < length (tiles_status s)" "nat t < length (tiles_size s)" "0 \<le> t" "t < int (num_tiles s)"
    using assms unfolding spd_wf_def tile_done_def by auto
  show st: "getTileStatus s t = Inr Tile_Finished"
    using b assms(2) unfolding getTileStatus_def check_tile_id_4 tile_done_def by (simp add: arr_get_def)
  show "getSize s t = Inr (int n)"
    using b assms(2) unfolding getSize_def st tile_done_def by (simp add: arr_get_def)
qed

lemma tile_done_max:
  assumes "spd_wf s" "tile_done s t n" "m = - 1 \<or> m = int n"
  shows "tile_max s t m = Inr (True, int n)"
  unfolding tile_max_def tile_done_status[OF assms(1,2)] using assms(3) by auto

lemma tile_done_poll:
  assumes wf: "spd_wf s" and d: "tile_done s t n" and i: "0 \<le> i" "i < int n" "n \<le> num_tile_elements s"
  shows "getElementFinished s t i 4 f u = Inr (True, s)"
proof -
  have t: "0 \<le> t" "t < int (num_tiles s)" "nat t < num_tiles s" using d unfolding tile_done_def by auto
  have "finished_slot s t i 4 < length (element_finished s)"
  proof -
    have "nat t * num_tile_elements s + num_tile_elements s \<le> num_tiles s * num_tile_elements s"
      using tile_lt_row[OF t(3)] by simp
    then show ?thesis using wf i unfolding finished_slot_def spd_wf_def by simp
  qed
  moreover have "element_finished s ! (finished_slot s t i 4)"
    using d i unfolding tile_done_def by (metis nat_0_le nat_less_iff)
  ultimately have fin: "arr_get (element_finished s) (int (finished_slot s t i 4)) = Inr True"
    by (simp add: arr_get_def)
  note l = waiting_lengths(2,3)[OF wf t(3)]
  have "arr_get (waiting_units_funcs s) t = Inr (waiting_units_funcs s ! nat t)"
    "arr_get (waiting_units_ids s) t = Inr (waiting_units_ids s ! nat t)"
    using l t unfolding arr_get_def by auto
  then show ?thesis
    using fin t i unfolding getElementFinished_def check_tile_id_4 by simp
qed

lemma elem_vec_ok:
  assumes o: "opcode ins \<in> {ALU_SCALAR, ALU_VECTOR}" and d: "datatyp ins \<in> {UINT32_TYPE, INT32_TYPE, FLOAT32_TYPE}"
    and x: "getData_u32 s (a_src1_tile a) (a_i a) = Inr x"
    and y: "(if opcode ins = ALU_SCALAR then rf_getData_u32 r (src1RegID ins) else getData_u32 s (a_src2_tile a) (a_i a)) = Inr y"
    and v: "lane32 f32 ins x y = Inr v" and s': "setData_u32 s (a_dst_tile a) (a_i a) v = Inr s'"
  shows "\<exists>c'. alu_elem f32 f64 a s r ins c = Inr (a, s', c')"
proof -
  have red: "opcode ins \<noteq> ALU_REDUCE" using o by auto
  have ops: "\<exists>c1. operands_u32 red0 a s r ins c = Inr (x, y, c1)" for red0
    using o x y unfolding operands_u32_def Let_def by (auto split: if_splits)
  have gen: "\<exists>c'. rbind (operands_u32 red0 a s r ins c) (\<lambda>(src1, src2, c1).
       if is_compare (optype ins) then rbind (cmp src1 src2) (put_compare a s ins c1)
       else rbind (op src1 src2) (put_u32 red a s ins c1)) = Inr (a, s', c')"
    if l: "(if is_compare (optype ins) then rbind (cmp x y) (\<lambda>b. Inr (bit32 b)) else op x y) = Inr v" for red0 red cmp op
  proof -
    obtain c1 where c1: "operands_u32 red0 a s r ins c = Inr (x, y, c1)" using ops by blast
    show ?thesis
    proof (cases "is_compare (optype ins)")
      case True
      then obtain b where "cmp x y = Inr b" "v = bit32 b" using l by (auto simp: rbind_eq_Inr)
      then show ?thesis using c1 True s' red by (simp add: put_compare_def bit32_def)
    next
      case False
      then show ?thesis using c1 l s' red by (simp add: put_u32_def)
    qed
  qed
  from d consider "datatyp ins = UINT32_TYPE" | "datatyp ins = INT32_TYPE" | "datatyp ins = FLOAT32_TYPE" by auto
  then show ?thesis
  proof cases
    case 1
    show ?thesis using gen v unfolding alu_elem_def 1 DataType.case elem_u32_def lane32_def .
  next
    case 2
    show ?thesis using gen v unfolding alu_elem_def 2 DataType.case elem_i32_def lane32_def .
  next
    case 3
    show ?thesis using gen v unfolding alu_elem_def 3 DataType.case elem_f32_def lane32_def .
  qed
qed

lemma alu_one_ok:
  assumes run: "alu_runs a ins" and v: "alu_value32 f32 r ins s (a_i a) = Inr v"
    and s': "setData_u32 s (dst1SpdID ins) (a_i a) v = Inr s'"
  shows "\<exists>c'. alu_one f32 f64 r ins a s c = Inr (a, s', c')"
proof -
  have op: "opcode ins \<in> {ALU_SCALAR, ALU_VECTOR}" and dt: "datatyp ins \<in> {UINT32_TYPE, INT32_TYPE, FLOAT32_TYPE}"
    and tiles: "a_dst_tile a = dst1SpdID ins" "a_cond_tile a = condSpdID ins" "a_src1_tile a = src1SpdID ins"
      "a_src2_tile a = src2SpdID ins" and nd: "dst1SpdID ins \<noteq> - 1"
    using run unfolding alu_runs_def by auto
  obtain taken where t: "alu_taken a s = Inr taken"
    and q: "(if \<not> taken then Inr 0
       else rbind (getData_u32 s (src1SpdID ins) (a_i a)) (\<lambda>x.
            rbind (if opcode ins = ALU_SCALAR then rf_getData_u32 r (src1RegID ins)
                   else getData_u32 s (src2SpdID ins) (a_i a)) (\<lambda>y. lane32 f32 ins x y))) = Inr v"
    using v unfolding alu_value32_def alu_taken_def tiles rbind_eq_Inr by blast
  show ?thesis
  proof (cases taken)
    case True
    then obtain x y where "getData_u32 s (a_src1_tile a) (a_i a) = Inr x"
      "(if opcode ins = ALU_SCALAR then rf_getData_u32 r (src1RegID ins) else getData_u32 s (a_src2_tile a) (a_i a)) = Inr y"
      "lane32 f32 ins x y = Inr v"
      using q unfolding tiles by (auto simp: rbind_eq_Inr)
    from elem_vec_ok[OF op dt this] s' show ?thesis
      unfolding alu_one_def t tiles rbind.simps using True by simp
  next
    case False
    then have "v = 0" using q by simp
    then have "alu_not_taken a s ins = Inr s'"
      using s' dt nd unfolding alu_not_taken_def tiles by auto
    then show ?thesis unfolding alu_one_def t using False by simp
  qed
qed

text \<open>Writing the destination keeps the sources finished.\<close>

lemma tile_done_setData:
  assumes "setData_u32 s d e v = Inr s'" "tile_done s t n"
  shows "tile_done s' t n"
proof -
  obtain dd where s': "s' = s\<lparr> tiles_data := dd,
      element_finished := (element_finished s)[finished_slot s d e 4 := True] \<rparr>"
    using setData_bytes_Inr(2)[OF assms(1)[unfolded setData_u32_def]] by auto
  have "xs[k := True] ! m" if "xs ! m" for xs :: "bool list" and k m
    using that by (metis nth_list_update_eq nth_list_update_neq list_update_beyond not_le)
  then show ?thesis using assms(2) unfolding tile_done_def s' finished_slot_def by auto
qed

definition alu_go :: "u32 fp_ops \<Rightarrow> rf \<Rightarrow> Instruction \<Rightarrow> nat \<Rightarrow> alu \<Rightarrow> spd \<Rightarrow> bool" where
  "alu_go f32 r ins n a s \<longleftrightarrow> spd_wf s \<and> sources_done s ins n \<and> (\<forall>e. 0 \<le> e \<and> e < int n \<longrightarrow> is_ok (alu_value32 f32 r ins s e)) \<and>
     alu_runs a ins \<and> 0 \<le> dst1SpdID ins \<and> dst1SpdID ins < int (num_tiles s) \<and>
     a_max a = int n \<and> a_cond_tile_ready a \<and> a_src1_tile_ready a \<and> a_src2_tile_ready a \<and> a_input_word_size a = 4 \<and> 0 \<le> a_i a"

lemma alu_go_polls:
  assumes "alu_go f32 r ins n a s" "a_i a < int n"
  shows "alu_polls a s ins = Inr (True, s)"
proof -
  have g: "spd_wf s" "sources_done s ins n" "alu_runs a ins" "a_input_word_size a = 4" "0 \<le> a_i a"
    using assms(1) unfolding alu_go_def by auto
  have N: "n \<le> num_tile_elements s" using g(2) unfolding sources_done_def by simp
  have p: "alu_poll a s t 4 = Inr (True, s)" if "tile_done s t n" for t
    using tile_done_poll[OF g(1) that g(5) assms(2) N] unfolding alu_poll_def by blast
  have "a_cond_tile a \<noteq> - 1 \<longrightarrow> alu_poll a s (a_cond_tile a) 4 = Inr (True, s)" "alu_poll a s (a_src1_tile a) 4 = Inr (True, s)"
    "opcode ins = ALU_VECTOR \<longrightarrow> alu_poll a s (a_src2_tile a) 4 = Inr (True, s)"
    using p g(2,3) unfolding sources_done_def alu_runs_def by auto
  then show ?thesis unfolding alu_polls_def g(4) by auto
qed

lemma alu_go_step:
  assumes g: "alu_go f32 r ins n a s" and i: "a_i a < int n"
  obtains s' c' where "alu_iter f32 f64 r ins a s c = Inr (It_next, a\<lparr> a_i := a_i a + 1 \<rparr>, s', c')"
    "alu_go f32 r ins n (a\<lparr> a_i := a_i a + 1 \<rparr>) s'"
proof -
  have h: "spd_wf s" "sources_done s ins n" "alu_runs a ins" "0 \<le> a_i a" "a_max a = int n"
    "0 \<le> dst1SpdID ins" "dst1SpdID ins < int (num_tiles s)"
    using g unfolding alu_go_def by auto
  obtain v where v: "alu_value32 f32 r ins s (a_i a) = Inr v"
    using g i h(4) unfolding alu_go_def by (meson is_okE)
  have N: "n \<le> num_tile_elements s" using h(2) unfolding sources_done_def by simp
  have "valid_access s (dst1SpdID ins) (a_i a) 4" using h i N unfolding valid_access_def by auto
  then obtain s' where s': "setData_u32 s (dst1SpdID ins) (a_i a) v = Inr s'"
    using setData_bytes_ok[OF h(1)] unfolding setData_u32_def by fastforce
  obtain c' where o: "alu_one f32 f64 r ins a s c = Inr (a, s', c')" using alu_one_ok[OF h(3) v s'] by blast
  have it: "alu_iter f32 f64 r ins a s c = Inr (It_next, a\<lparr> a_i := a_i a + 1 \<rparr>, s', c')"
    unfolding alu_iter_def alu_go_polls[OF g i] using i h(5) o by simp
  have st: "spd_step s s'" using s' step_setData unfolding setData_u32_def by blast
  have dd: "dst1SpdID ins \<notin> {src1SpdID ins, src2SpdID ins, condSpdID ins}" using h(3) unfolding alu_runs_def by simp
  have "alu_value32 f32 r ins s' e = alu_value32 f32 r ins s e" for e
    using rd_wr_u32[OF h(1) s'] by (intro alu_value32_cong[OF _ dd]) simp
  moreover have "sources_done s' ins n"
    using h(2) tile_done_setData[OF s'] spd_step_dims[OF st] unfolding sources_done_def by auto
  moreover have "alu_runs (a\<lparr> a_i := a_i a + 1 \<rparr>) ins" using h(3) unfolding alu_runs_def by simp
  ultimately have "alu_go f32 r ins n (a\<lparr> a_i := a_i a + 1 \<rparr>) s'"
    using g spd_step_wf[OF st] spd_step_dims[OF st] unfolding alu_go_def by simp
  then show thesis using that it by blast
qed

lemma alu_go_loop:
  assumes "alu_go f32 r ins n a s" "a_i a \<le> int n" "int n < a_i a + int m"
  shows "\<exists>s' c'. alu_loop f32 f64 r ins m a s c = Inr (It_break, a\<lparr> a_i := int n \<rparr>, s', c')"
  using assms
proof (induction m arbitrary: a s c)
  case (Suc m)
  show ?case
  proof (cases "a_i a < int n")
    case True
    obtain s1 c1 where st: "alu_iter f32 f64 r ins a s c = Inr (It_next, a\<lparr> a_i := a_i a + 1 \<rparr>, s1, c1)"
      "alu_go f32 r ins n (a\<lparr> a_i := a_i a + 1 \<rparr>) s1"
      by (rule alu_go_step[OF Suc.prems(1) True])
    from Suc.IH[OF st(2), of c1] True Suc.prems(3) st(1) show ?thesis by auto
  next
    case False
    then have i: "a_i a = int n" using Suc.prems(2) by simp
    then have "a\<lparr> a_i := int n \<rparr> = a" by simp
    moreover have "alu_iter f32 f64 r ins a s c = Inr (It_break, a, s, c)"
      using Suc.prems(1) i unfolding alu_go_def alu_iter_def by simp
    ultimately show ?thesis by simp
  qed
qed simp

text \<open>A unit that has just decoded an instruction whose sources are finished.\<close>

lemma alu_decode_ok:
  assumes "opcode ins \<in> {ALU_SCALAR, ALU_VECTOR}" "datatyp ins \<in> {UINT32_TYPE, INT32_TYPE, FLOAT32_TYPE}"
    "dst1SpdID ins \<notin> {src1SpdID ins, src2SpdID ins, condSpdID ins, - 1}" "src1SpdID ins \<noteq> - 1"
  shows "\<exists>a'. alu_decode env a ins = Inr a' \<and> alu_runs a' ins \<and> a_i a' = 0 \<and> a_max a' = - 1 \<and> a_input_word_size a' = 4 \<and>
    a_cond_tile_ready a' = (condSpdID ins = - 1) \<and> \<not> a_src1_tile_ready a' \<and> a_src2_tile_ready a' = (opcode ins = ALU_SCALAR) \<and>
    a_state a' = ALU_Work \<and> a_instruction a' = Some (ins\<lparr> istate := Instr_Service \<rparr>)"
proof -
  have ws: "WordSize ins = Inr 4" using assms(2) unfolding WordSize_def by auto
  have "getWordSize ins (src1SpdID ins) = Inr 4" "getWordSize ins (dst1SpdID ins) = Inr 4"
    using assms ws unfolding getWordSize_def by auto
  then show ?thesis using assms unfolding alu_decode_def alu_runs_def Let_def by auto
qed

lemma alu_ready_go:
  assumes run: "alu_runs a ins" and wf: "spd_wf s" and sd: "sources_done s ins n" and mx: "a_max a = - 1"
    and fl: "a_cond_tile_ready a = (condSpdID ins = - 1)" "a_src2_tile_ready a = (opcode ins = ALU_SCALAR)"
  shows "\<exists>a'. alu_ready a s ins = Inr a' \<and> a_max a' = int n \<and> a_cond_tile_ready a' \<and> a_src1_tile_ready a' \<and> a_src2_tile_ready a'"
proof -
  have t: "tile_max s t m = Inr (True, int n)" if "tile_done s t n" "m = - 1 \<or> m = int n" for t m
    by (rule tile_done_max[OF wf that])
  have sc: "tile_done s (src1SpdID ins) n" "opcode ins = ALU_VECTOR \<Longrightarrow> tile_done s (src2SpdID ins) n"
    "condSpdID ins \<noteq> - 1 \<Longrightarrow> tile_done s (condSpdID ins) n"
    using sd unfolding sources_done_def by auto
  have tl: "a_cond_tile a = condSpdID ins" "a_src1_tile a = src1SpdID ins" "a_src2_tile a = src2SpdID ins"
    "opcode ins = ALU_SCALAR \<or> opcode ins = ALU_VECTOR"
    using run unfolding alu_runs_def by auto
  show ?thesis
    unfolding alu_ready_def tl(1) using tl t sc mx fl by (cases "condSpdID ins = - 1") (auto simp: Let_def)
qed

lemma alu_work_complete:
  assumes run: "alu_runs a ins" and wf: "spd_wf s" and sd: "sources_done s ins n" and mx: "a_max a = - 1"
    and fl: "a_cond_tile_ready a = (condSpdID ins = - 1)" "a_src2_tile_ready a = (opcode ins = ALU_SCALAR)"
    and a: "a_i a = 0" "a_input_word_size a = 4"
    and v: "\<forall>e. 0 \<le> e \<and> e < int n \<longrightarrow> is_ok (alu_value32 f32 r ins s e)"
    and dst: "0 \<le> dst1SpdID ins" "dst1SpdID ins < int (num_tiles s)" and ok: "\<And>f i. e_unit_ok env f i"
  shows "\<exists>x a' s'. alu_work env f32 f64 r ins a s = Inr (x, a', s') \<and> a_state a' = ALU_Finish \<and> a_i a' = int n \<and>
    a_max a' = int n \<and> a_cond_tile_ready a' \<and> a_src1_tile_ready a' \<and> a_src2_tile_ready a' \<and> a_instruction a' = a_instruction a"
proof -
  obtain a1 where r: "alu_ready a s ins = Inr a1" "a_max a1 = int n" "a_cond_tile_ready a1" "a_src1_tile_ready a1" "a_src2_tile_ready a1"
    using alu_ready_go[OF run wf sd mx fl] by blast
  have keep: "a_i a1 = 0" "a_input_word_size a1 = 4" "alu_runs a1 ins" "a_instruction a1 = a_instruction a"
    using alu_ready_keeps[OF r(1)] a run unfolding alu_runs_def by auto
  have "alu_go f32 r ins n a1 s" using wf sd v keep dst r unfolding alu_go_def by simp
  moreover have "n \<le> num_tile_elements s" using sd unfolding sources_done_def by simp
  ultimately obtain s2 c where l: "alu_loop f32 f64 r ins (alu_fuel s) a1 s no_counts = Inr (It_break, a1\<lparr> a_i := int n \<rparr>, s2, c)"
    using alu_go_loop[of f32 r ins n a1 s "alu_fuel s" f64 no_counts] keep unfolding alu_fuel_def by auto
  let ?a2 = "a1\<lparr> a_i := int n \<rparr>"
  have f: "filled f32 r ins s 0 (int n) s2" using alu_loop_filled[OF l keep(3) wf] keep(1) by simp
  have "a_dst_tile ?a2 = dst1SpdID ins" using keep(3) unfolding alu_runs_def by simp
  then obtain us a3 s3 where u: "alu_updateLatency env ?a2 s2 c = Inr (us, a3, s3)"
    using alu_updateLatency_ok[of s2 ?a2 env c] f dst ok unfolding filled_def by auto
  obtain t1 t2 t3 where "a3 = ?a2\<lparr> a_SPD_read_finish_tick := t1, a_SPD_write_finish_tick := t2, a_ALU_finish_tick := t3 \<rparr>"
    using alu_updateLatency_quiet[OF u] by blast
  then show ?thesis unfolding alu_work_def r(1) rbind.simps l using u r keep by simp
qed

lemma setSize_effect:
  assumes "spd_wf s" "0 \<le> t" "t < int (num_tiles s)" "n \<le> num_tile_elements s"
  shows "\<exists>s'. setSize s t (int n) = Inr s' \<and> (\<forall>t' e. getData_u32 s' t' e = getData_u32 s t' e) \<and>
    sint (tiles_size s' ! nat t) = int n"
proof -
  have l: "nat t < length (tiles_size s)" using assms unfolding spd_wf_def by auto
  have N: "num_tile_elements s < 2 ^ 31"
  proof -
    have "num_tile_elements s \<le> num_tiles s * num_tile_elements s * 4" using assms(2,3) by (cases "num_tiles s") auto
    then show ?thesis using assms(1) unfolding spd_wf_def by linarith
  qed
  have "sint (word_of_int (int n) :: u32) = int n"
    using ret_signed_Inr[of "int n" "word_of_int (int n) :: u32"] N assms(4) by (simp add: ret_signed_def)
  moreover have "setSize s t (int n) = Inr (s\<lparr> tiles_size := (tiles_size s)[nat t := word_of_int (int n)] \<rparr>)"
    using assms l unfolding setSize_def by (simp add: arr_set_def)
  ultimately show ?thesis using l
    by (auto simp: getData_u32_def getData_bytes_def check_tile_element_id_def check_tile_id_def data_offset_def)
qed

lemma alu_finish_ok:
  assumes "a_i a = int n" "a_max a = int n" "a_cond_tile_ready a" "a_src1_tile_ready a" "a_src2_tile_ready a"
    and run: "alu_runs a ins" and s: "spd_wf s" "0 \<le> dst1SpdID ins" "dst1SpdID ins < int (num_tiles s)" "n \<le> num_tile_elements s"
  shows "\<exists>s'. alu_finish a s r ins = Inr (no_out\<lparr> out_finished := Some (ins\<lparr> istate := Instr_Finish \<rparr>) \<rparr>,
      a\<lparr> a_state := ALU_Idle, a_instruction := None \<rparr>, s', r) \<and>
    (\<forall>t' e. getData_u32 s' t' e = getData_u32 s t' e) \<and> sint (tiles_size s' ! nat (dst1SpdID ins)) = int n"
proof -
  obtain s' where s': "setSize s (dst1SpdID ins) (int n) = Inr s'" "\<forall>t' e. getData_u32 s' t' e = getData_u32 s t' e"
    "sint (tiles_size s' ! nat (dst1SpdID ins)) = int n"
    using setSize_effect[OF s] by blast
  have "a_dst_tile a = dst1SpdID ins" "dst1SpdID ins \<noteq> - 1" "opcode ins \<in> {ALU_SCALAR, ALU_VECTOR}"
    using run unfolding alu_runs_def by auto
  then show ?thesis using assms(1-5) s' unfolding alu_finish_def by auto
qed

text \<open>
  C27.  The arithmetic unit computes its instruction.  Started on a scalar or vector instruction over a
  4-byte type whose source and condition tiles are finished with \<open>n\<close> elements, and whose operations
  are defined on those elements, the unit needs two calls: the first writes to every element below
  \<open>n\<close> of the destination the operator applied to the sources, or zero where the condition is false,
  and changes no other element; the second sets the size of the destination to \<open>n\<close>, reports the
  instruction as finished and leaves the unit idle.
\<close>

theorem alu_instruction_correct:
  assumes "a_state a = ALU_Idle" "a_instruction a = Some ins"
    and "opcode ins \<in> {ALU_SCALAR, ALU_VECTOR}" "datatyp ins \<in> {UINT32_TYPE, INT32_TYPE, FLOAT32_TYPE}"
    and "dst1SpdID ins \<notin> {src1SpdID ins, src2SpdID ins, condSpdID ins, - 1}"
    and "0 \<le> dst1SpdID ins" "dst1SpdID ins < int (num_tiles s)"
    and "spd_wf s" "sources_done s ins n" "\<forall>e. 0 \<le> e \<and> e < int n \<longrightarrow> is_ok (alu_value32 f32 r ins s e)"
    and "\<And>f i. e_unit_ok env f i"
  shows "\<exists>x1 a1 s1 x2 a2 s2. alu_executeInstruction env f32 f64 a s r = Inr (x1, a1, s1, r) \<and>
    alu_executeInstruction env' f32 f64 a1 s1 r = Inr (x2, a2, s2, r) \<and>
    (\<forall>t e. getData_u32 s2 t e =
       (if t = dst1SpdID ins \<and> 0 \<le> e \<and> e < int n then alu_value32 f32 r ins s e else getData_u32 s t e)) \<and>
    sint (tiles_size s2 ! nat (dst1SpdID ins)) = int n \<and>
    out_finished x2 = Some (ins\<lparr> istate := Instr_Finish \<rparr>) \<and> a_state a2 = ALU_Idle \<and> a_instruction a2 = None"
proof -
  let ?ins = "ins\<lparr> istate := Instr_Service \<rparr>"
  have "src1SpdID ins \<noteq> - 1" using assms(9) unfolding sources_done_def tile_done_def by auto
  from alu_decode_ok[OF assms(3-5) this, of env a] obtain a0 where d: "alu_decode env a ins = Inr a0" "alu_runs a0 ins"
    "a_i a0 = 0" "a_max a0 = - 1" "a_input_word_size a0 = 4" "a_cond_tile_ready a0 = (condSpdID ins = - 1)"
    "a_src2_tile_ready a0 = (opcode ins = ALU_SCALAR)" "a_instruction a0 = Some ?ins"
    by blast
  obtain x1 a1 s1 where w: "alu_work env f32 f64 r ins a0 s = Inr (x1, a1, s1)" "a_state a1 = ALU_Finish" "a_i a1 = int n"
    "a_max a1 = int n" "a_cond_tile_ready a1" "a_src1_tile_ready a1" "a_src2_tile_ready a1" "a_instruction a1 = Some ?ins"
    using alu_work_complete[OF d(2) assms(8,9) d(4,6,7,3,5) assms(10,6,7,11), of f64, unfolded d(8)] by blast
  have f: "filled f32 r ins s 0 (int n) s1" "alu_runs a1 ins" using alu_work_filled[OF w(1) d(2) assms(8)] d(3) w(3) by auto
  have run: "alu_runs a1 ?ins" using f(2) unfolding alu_runs_def by simp
  have s1: "spd_wf s1" "0 \<le> dst1SpdID ?ins" "dst1SpdID ?ins < int (num_tiles s1)" "n \<le> num_tile_elements s1"
    using f(1) assms(6,7,9) unfolding filled_def sources_done_def by auto
  obtain s2 where fin: "alu_finish a1 s1 r ?ins = Inr (no_out\<lparr> out_finished := Some (ins\<lparr> istate := Instr_Finish \<rparr>) \<rparr>,
      a1\<lparr> a_state := ALU_Idle, a_instruction := None \<rparr>, s2, r)"
    "\<forall>t' e. getData_u32 s2 t' e = getData_u32 s1 t' e" "sint (tiles_size s2 ! nat (dst1SpdID ins)) = int n"
    using alu_finish_ok[OF w(3-7) run s1, of r] by auto
  have e1: "alu_executeInstruction env f32 f64 a s r = Inr (x1, a1, s1, r)"
    unfolding alu_executeInstruction_def assms(2) using assms(1) d(1) w(1) by simp
  have e2: "alu_executeInstruction env' f32 f64 a1 s1 r = Inr (no_out\<lparr> out_finished := Some (ins\<lparr> istate := Instr_Finish \<rparr>) \<rparr>,
      a1\<lparr> a_state := ALU_Idle, a_instruction := None \<rparr>, s2, r)"
    unfolding alu_executeInstruction_def w(8) using w(2) fin(1) by simp
  show ?thesis
    by (rule exI[of _ x1], rule exI[of _ a1], rule exI[of _ s1],
        rule exI[of _ "no_out\<lparr> out_finished := Some (ins\<lparr> istate := Instr_Finish \<rparr>) \<rparr>"],
        rule exI[of _ "a1\<lparr> a_state := ALU_Idle, a_instruction := None \<rparr>"], rule exI[of _ s2])
      (use e1 e2 fin f(1) in \<open>simp add: filled_def\<close>)
qed

text \<open>The witnesses: two tiles with one element, five and seven, and an addition into the third tile.\<close>

definition alu_spd_steps :: "spd res" where
  "alu_spd_steps = rbind (setData_u32 spd_demo 0 0 5) (\<lambda>s1. rbind (setData_u32 s1 1 0 7) (\<lambda>s2.
     rbind (setSize s2 0 1) (\<lambda>s3. setSize s3 1 1)))"

definition alu_spd_demo :: spd where
  "alu_spd_demo = (case alu_spd_steps of Inr s \<Rightarrow> s | Inl _ \<Rightarrow> spd_demo)"

definition alu_ins_demo :: Instruction where
  "alu_ins_demo = (Instruction_init 0 0 0 COMPUTE)\<lparr> opcode := ALU_VECTOR, optype := ADD_OP, datatyp := UINT32_TYPE,
     src1SpdID := 0, src2SpdID := 1, dst1SpdID := 2 \<rparr>"

definition alu_demo :: "Instruction \<Rightarrow> alu" where
  "alu_demo ins = \<lparr> a_state = ALU_Idle, a_instruction = Some ins, my_alu_id = 0, a_dst_tile = - 1, a_dst_reg = - 1,
     a_cond_tile = - 1, a_src1_tile = - 1, a_src2_tile = - 1, a_cond_tile_ready = False, a_src1_tile_ready = False,
     a_src2_tile_ready = False, a_i = 0, a_max = - 1, a_input_word_size = 4, a_input_words_per_cl = 16,
     a_output_word_size = 4, a_output_words_per_cl = 16, ALU_lane_latency = 1, num_ALU_lanes = 1,
     a_SPD_read_finish_tick = 0, a_SPD_write_finish_tick = 0, a_ALU_finish_tick = 0, a_decode_start_tick = 0,
     a_red_i32 = 0, a_red_u32 = 0, a_red_i64 = 0, a_red_u64 = 0, a_red_f32 = 0, a_red_f64 = 0 \<rparr>"

definition env_demo :: fu_env where
  "env_demo = \<lparr> e_now = 0, e_clockEdge = (\<lambda>c. c), e_period = 1, e_unit_ok = (\<lambda>_ _. True) \<rparr>"

definition fp_demo :: "'w::zero fp_ops" where
  "fp_demo = \<lparr> f_add = (\<lambda>x y. x), f_sub = (\<lambda>x y. x), f_mul = (\<lambda>x y. x), f_div = (\<lambda>x y. x),
     f_lt = (\<lambda>x y. False), f_le = (\<lambda>x y. False), f_eq = (\<lambda>x y. False) \<rparr>"

lemma alu_spd_demo_wf: "spd_wf alu_spd_demo" "num_tiles alu_spd_demo = 3"
proof -
  have "is_ok alu_spd_steps" by code_simp
  then obtain x where x: "alu_spd_steps = Inr x" by (rule is_okE)
  have "alu_spd_steps = Inr alu_spd_demo" unfolding alu_spd_demo_def x sum.case ..
  then obtain s1 s2 s3 where s: "setData_u32 spd_demo 0 0 5 = Inr s1" "setData_u32 s1 1 0 7 = Inr s2"
    "setSize s2 0 1 = Inr s3" "setSize s3 1 1 = Inr alu_spd_demo"
    unfolding alu_spd_steps_def rbind_eq_Inr by blast
  have st: "spd_step spd_demo s1" "spd_step s1 s2" "spd_step s2 s3" "spd_step s3 alu_spd_demo"
    using s step_setData step_size unfolding setData_u32_def by blast+
  then show "spd_wf alu_spd_demo" using spd_demo_wf spd_step_wf by blast
  show "num_tiles alu_spd_demo = 3" using st spd_step_dims spd_demo_dims by metis
qed

lemma alu_demo_sources:
  "sources_done alu_spd_demo alu_ins_demo 1" "alu_value32 fp_demo (RF_init 2) alu_ins_demo alu_spd_demo 0 = Inr 12"
proof -
  have "num_tile_elements alu_spd_demo = 4" "tiles_status alu_spd_demo = replicate 3 Tile_Finished"
    "tiles_size alu_spd_demo = [1, 1, 0]" "element_finished alu_spd_demo = replicate 12 True"
    "src1SpdID alu_ins_demo = 0" "src2SpdID alu_ins_demo = 1" "condSpdID alu_ins_demo = - 1"
    by code_simp+
  then show "sources_done alu_spd_demo alu_ins_demo 1"
    unfolding sources_done_def tile_done_def finished_slot_def using alu_spd_demo_wf(2) by simp
  show "alu_value32 fp_demo (RF_init 2) alu_ins_demo alu_spd_demo 0 = Inr 12" by code_simp
qed

theorem alu_instruction_correct_witness:
  "\<exists>x1 a1 s1 x2 a2 s2. alu_executeInstruction env_demo fp_demo fp_demo (alu_demo alu_ins_demo) alu_spd_demo (RF_init 2)
      = Inr (x1, a1, s1, RF_init 2) \<and>
    alu_executeInstruction env_demo fp_demo fp_demo a1 s1 (RF_init 2) = Inr (x2, a2, s2, RF_init 2) \<and>
    getData_u32 s2 2 0 = Inr 12 \<and> out_finished x2 = Some (alu_ins_demo\<lparr> istate := Instr_Finish \<rparr>)"
proof -
  have i: "opcode alu_ins_demo = ALU_VECTOR" "datatyp alu_ins_demo = UINT32_TYPE" "dst1SpdID alu_ins_demo = 2"
    "src1SpdID alu_ins_demo = 0" "src2SpdID alu_ins_demo = 1" "condSpdID alu_ins_demo = - 1"
    by code_simp+
  have e: "\<forall>e. 0 \<le> e \<and> e < int 1 \<longrightarrow> is_ok (alu_value32 fp_demo (RF_init 2) alu_ins_demo alu_spd_demo e)"
  proof (intro allI impI)
    fix e
    assume "0 \<le> e \<and> e < int 1"
    then have "e = 0" by simp
    then show "is_ok (alu_value32 fp_demo (RF_init 2) alu_ins_demo alu_spd_demo e)" using alu_demo_sources(2) by simp
  qed
  show ?thesis
    using alu_instruction_correct[of "alu_demo alu_ins_demo" alu_ins_demo alu_spd_demo 1 fp_demo "RF_init 2" env_demo fp_demo env_demo,
        OF _ _ _ _ _ _ _ alu_spd_demo_wf(1) alu_demo_sources(1) e]
      alu_demo_sources(2) alu_spd_demo_wf(2) i
    by (fastforce simp: alu_demo_def env_demo_def)
qed


section \<open>Reductions\<close>

text \<open>The element operations touch nothing of the unit but the accumulators.\<close>

definition alu_core :: "alu \<Rightarrow> ALU_Status \<times> Instruction option \<times> bool" where
  "alu_core a = (a_state a, a_instruction a, a_src2_tile_ready a)"

lemma put_core:
  "put_compare a s ins c b = Inr (a', s', c') \<Longrightarrow> alu_core a' = alu_core a"
  "put_u32 red a s ins c v = Inr (a', s', c') \<Longrightarrow> (\<And>v a. alu_core (red v a) = alu_core a) \<Longrightarrow> alu_core a' = alu_core a"
  "put_u64 red' a s ins c w = Inr (a', s', c') \<Longrightarrow> (\<And>v a. alu_core (red' v a) = alu_core a) \<Longrightarrow> alu_core a' = alu_core a"
  unfolding put_compare_def put_u32_def put_u64_def Let_def alu_core_def
  by (auto simp: rbind_eq_Inr split: if_splits)

lemma elem_core:
  assumes "alu_elem f32 f64 a s r ins c = Inr (a', s', c')"
  shows "alu_core a' = alu_core a"
proof (cases "datatyp ins")
  case UINT32_TYPE
  then show ?thesis using assms unfolding alu_elem_def elem_u32_def
    by (auto simp: rbind_eq_Inr split: if_splits dest!: put_core) (auto simp: alu_core_def)
next
  case INT32_TYPE
  then show ?thesis using assms unfolding alu_elem_def elem_i32_def
    by (auto simp: rbind_eq_Inr split: if_splits dest!: put_core) (auto simp: alu_core_def)
next
  case FLOAT32_TYPE
  then show ?thesis using assms unfolding alu_elem_def elem_f32_def
    by (auto simp: rbind_eq_Inr split: if_splits dest!: put_core) (auto simp: alu_core_def)
next
  case UINT64_TYPE
  then show ?thesis using assms unfolding alu_elem_def elem_u64_def
    by (auto simp: rbind_eq_Inr split: if_splits dest!: put_core) (auto simp: alu_core_def)
next
  case INT64_TYPE
  then show ?thesis using assms unfolding alu_elem_def elem_i64_def
    by (auto simp: rbind_eq_Inr split: if_splits dest!: put_core) (auto simp: alu_core_def)
next
  case FLOAT64_TYPE
  then show ?thesis using assms unfolding alu_elem_def elem_f64_def
    by (auto simp: rbind_eq_Inr split: if_splits dest!: put_core) (auto simp: alu_core_def)
qed (use assms in \<open>simp add: alu_elem_def\<close>)

lemma alu_iter_core:
  assumes "alu_iter f32 f64 r ins a s c = Inr (k, a', s', c')"
  shows "alu_core a' = alu_core a" "\<not> a_src2_tile_ready a \<Longrightarrow> k \<noteq> It_break"
proof -
  show "\<not> a_src2_tile_ready a \<Longrightarrow> k \<noteq> It_break"
    using assms unfolding alu_iter_def by (auto simp: rbind_eq_Inr split: if_splits)
  show "alu_core a' = alu_core a"
  proof (cases "k = It_next")
    case False
    then show ?thesis using alu_iter_quiet[OF assms] by simp
  next
    case True
    obtain a1 where o: "alu_one f32 f64 r ins a s c = Inr (a1, s', c')" "a' = a1\<lparr> a_i := a_i a + 1 \<rparr>"
      using alu_iter_next assms True by metis
    obtain t where "(if t then alu_elem f32 f64 a s r ins (c\<lparr> alu_accesses := alu_accesses c + 1 \<rparr>)
       else rbind (alu_not_taken a s ins) (\<lambda>s'. Inr (a, s', c))) = Inr (a1, s', c')"
      using o(1) unfolding alu_one_def rbind_eq_Inr by blast
    then have "alu_core a1 = alu_core a" by (auto simp: rbind_eq_Inr split: if_splits dest: elem_core)
    then show ?thesis using o(2) by (simp add: alu_core_def)
  qed
qed

lemma alu_loop_core:
  assumes "alu_loop f32 f64 r ins n a s c = Inr (k, a', s', c')"
  shows "alu_core a' = alu_core a \<and> (\<not> a_src2_tile_ready a \<longrightarrow> k \<noteq> It_break)"
  using assms
proof (induction n arbitrary: a s c)
  case (Suc n)
  obtain k1 a1 s1 c1 where i: "alu_iter f32 f64 r ins a s c = Inr (k1, a1, s1, c1)"
    and l: "(if k1 = It_next then alu_loop f32 f64 r ins n a1 s1 c1 else Inr (k1, a1, s1, c1)) = Inr (k, a', s', c')"
    using Suc.prems by (auto simp: rbind_eq_Inr)
  note ic = alu_iter_core[OF i]
  have "a_src2_tile_ready a1 = a_src2_tile_ready a" using ic(1) unfolding alu_core_def by simp
  then show ?case using ic Suc.IH[of a1 s1 c1] l by (cases "k1 = It_next") auto
qed simp

definition reduce_running :: "alu \<Rightarrow> bool" where
  "reduce_running a \<longleftrightarrow> a_state a = ALU_Work \<and> \<not> a_src2_tile_ready a \<and>
     (case a_instruction a of Some ins \<Rightarrow> opcode ins = ALU_REDUCE | None \<Rightarrow> False)"

lemma alu_work_reduce:
  assumes w: "alu_work env f32 f64 r ins a s = Inr (x, a', s')" and o: "opcode ins = ALU_REDUCE" and run: "reduce_running a"
  shows "reduce_running a' \<and> out_finished x = None"
proof -
  obtain a1 k a2 s2 c where rd: "alu_ready a s ins = Inr a1"
    and l: "alu_loop f32 f64 r ins (alu_fuel s) a1 s no_counts = Inr (k, a2, s2, c)"
    and k: "(case k of It_wait \<Rightarrow> Inr (no_out, a2, s2)
       | It_stall \<Rightarrow> rbind (alu_updateLatency env a2 s2 c) (\<lambda>(us, a3, s3). Inr (no_out\<lparr> out_waked := us \<rparr>, a3, s3))
       | It_break \<Rightarrow>
           rbind (alu_updateLatency env a2 s2 c) (\<lambda>(us, a3, s3).
             Inr (no_out\<lparr> out_waked := us, out_sched := alu_scheduleNextExecution env a3 True \<rparr>,
                  a3\<lparr> a_state := ALU_Finish \<rparr>, s3))
       | It_next \<Rightarrow> Inl Assert_Fail) = Inr (x, a', s')"
    using w unfolding alu_work_def by (auto simp: rbind_eq_Inr)
  have "a_src2_tile_ready a1 = a_src2_tile_ready a"
    using rd o unfolding alu_ready_def Let_def by (auto simp: rbind_eq_Inr split: if_splits)
  then have c1: "alu_core a1 = alu_core a" using alu_ready_keeps[OF rd] unfolding alu_core_def by auto
  then have nr: "\<not> a_src2_tile_ready a1" using run unfolding alu_core_def reduce_running_def by simp
  have c2: "alu_core a2 = alu_core a" and kb: "k \<noteq> It_break" using alu_loop_core[OF l] c1 nr by auto
  have upd: "alu_core a3 = alu_core a2" if "alu_updateLatency env a2 s2 c = Inr (us, a3, s3)" for us a3 s3
    using alu_updateLatency_quiet[OF that] unfolding alu_core_def by auto
  have "alu_core a' = alu_core a \<and> out_finished x = None"
    using k kb c2 upd by (cases k) (auto simp: rbind_eq_Inr no_out_def)
  then show ?thesis using run unfolding reduce_running_def alu_core_def by auto
qed

text \<open>
  C31.  A reduction never finishes.  Started on an \<open>ALU_REDUCE\<close> instruction, every call of the unit that
  returns leaves it in the work state with the second source tile marked as not ready, so that it
  neither writes the result register nor reports the instruction.  The flag is set for scalar
  instructions only, although a reduction has no second source either.
\<close>

theorem alu_reduce_never_finishes:
  assumes "a_instruction a = Some ins" "opcode ins = ALU_REDUCE" "a_state a = ALU_Idle \<or> reduce_running a"
    and "alu_executeInstruction env f32 f64 a s r = Inr (x, a', s', r')"
  shows "reduce_running a' \<and> out_finished x = None \<and> r' = r"
proof (cases "a_state a = ALU_Idle")
  case True
  obtain a1 where d: "alu_decode env a ins = Inr a1" and w: "alu_work env f32 f64 r ins a1 s = Inr (x, a', s')" "r' = r"
    using assms(4) True unfolding alu_executeInstruction_def assms(1) by (auto simp: rbind_eq_Inr)
  have "reduce_running a1"
    using d assms(2) unfolding alu_decode_def Let_def reduce_running_def by (auto simp: rbind_eq_Inr)
  then show ?thesis using alu_work_reduce[OF w(1) assms(2)] w(2) by simp
next
  case False
  then have run: "reduce_running a" using assms(3) by simp
  then have "a_state a = ALU_Work" unfolding reduce_running_def by simp
  then have "alu_work env f32 f64 r ins a s = Inr (x, a', s')" "r' = r"
    using assms(4) unfolding alu_executeInstruction_def assms(1) by (auto simp: rbind_eq_Inr)
  then show ?thesis using alu_work_reduce[OF _ assms(2) run] by simp
qed

definition red_ins_demo :: Instruction where
  "red_ins_demo = (Instruction_init 0 0 0 COMPUTE)\<lparr> opcode := ALU_REDUCE, optype := ADD_OP, datatyp := UINT32_TYPE,
     src1SpdID := 0, dst1RegID := 0 \<rparr>"

definition red_spd_demo :: spd where
  "red_spd_demo = (case setTileIdle spd_demo 0 4 of Inr s \<Rightarrow> s | Inl _ \<Rightarrow> spd_demo)"

theorem alu_reduce_never_finishes_witness:
  "\<exists>x a s r. alu_executeInstruction env_demo fp_demo fp_demo (alu_demo red_ins_demo) red_spd_demo (RF_init 2) = Inr (x, a, s, r) \<and>
    reduce_running a \<and> out_finished x = None"
proof -
  have "is_ok (alu_executeInstruction env_demo fp_demo fp_demo (alu_demo red_ins_demo) red_spd_demo (RF_init 2))"
    by code_simp
  then obtain y where y: "alu_executeInstruction env_demo fp_demo fp_demo (alu_demo red_ins_demo) red_spd_demo (RF_init 2) = Inr y"
    by (rule is_okE)
  obtain x a s r where e: "y = (x, a, s, r)" by (metis prod_cases4)
  have o: "opcode red_ins_demo = ALU_REDUCE" by code_simp
  from alu_reduce_never_finishes[OF _ o _ y[unfolded e]] show ?thesis
    using y e by (auto simp: alu_demo_def)
qed

end
