(* ===== verification/RangeFuser_Model.thy ===== *)
theory RangeFuser_Model
  imports ALU_Model
begin

text \<open>
  The range fuser (\<open>RangeFuser.hh\<close>, \<open>RangeFuser.cc\<close>): it turns a tile of lower and a tile of upper
  bounds into the tiles of the pairs \<open>(i, j)\<close> of the fused loop, one tile of pairs per instruction,
  and keeps the position it stopped at in two registers.  The C++ \<open>int\<close> counters are integers here;
  a 4-byte register or element holds their two's complement, the comparison of \<open>j\<close> with the unsigned
  upper bound converts \<open>j\<close>, and an increment of \<open>j\<close> that overflows is the error \<open>Undefined_Arith\<close>.
\<close>

section \<open>State\<close>

datatype Range_Status = Range_Idle | Range_Decode | Range_Work | Range_Finish

record range_unit =
  r_state :: Range_Status
  r_instruction :: "Instruction option"
  my_range_id :: int
  r_num_tile_elements :: nat
  r_dst_i_tile :: int
  r_dst_j_tile :: int
  r_cond_tile :: int
  r_min_tile :: int
  r_max_tile :: int
  r_cond_tile_ready :: bool
  r_min_tile_ready :: bool
  r_max_tile_ready :: bool
  r_last_i :: int
  r_last_j :: int
  r_stride :: int
  r_max_i :: int
  r_idx_j :: nat
  r_SPD_read_finish_tick :: Tick
  r_SPD_write_finish_tick :: Tick
  r_compute_finish_tick :: Tick
  r_decode_start_tick :: Tick

record range_counts =
  rc_read :: nat
  rc_write :: nat
  rc_compute :: nat

definition no_range_counts :: range_counts where
  "no_range_counts = \<lparr> rc_read = 0, rc_write = 0, rc_compute = 0 \<rparr>"

definition range_allocate :: "nat \<Rightarrow> int \<Rightarrow> range_unit \<Rightarrow> range_unit" where
  "range_allocate elements my_id u =
     u\<lparr> r_state := Range_Idle, r_num_tile_elements := elements, my_range_id := my_id, r_instruction := None \<rparr>"

definition range_setInstruction :: "range_unit \<Rightarrow> Instruction \<Rightarrow> range_unit res" where
  "range_setInstruction u ins =
     (if r_instruction u \<noteq> None then Inl Assert_Fail else Inr (u\<lparr> r_instruction := Some ins \<rparr>))"

section \<open>Latency\<close>

definition range_updateLatency :: "fu_env \<Rightarrow> range_unit \<Rightarrow> spd \<Rightarrow> range_counts \<Rightarrow> (waked \<times> range_unit \<times> spd) res" where
  "range_updateLatency env u s c =
     rbind (charge_read env s (rc_read c \<noteq> 0) (getCeiling (rc_read c) 16) (r_SPD_read_finish_tick u)) (\<lambda>(t1, s1).
     rbind (charge_write env s1 (rc_write c \<noteq> 0) (r_dst_i_tile u) (getCeiling (rc_write c) 16) (r_SPD_write_finish_tick u))
       (\<lambda>(_, us1, s2).
     rbind (charge_write env s2 (rc_write c \<noteq> 0) (r_dst_j_tile u) (getCeiling (rc_write c) 16) (r_SPD_write_finish_tick u))
       (\<lambda>(t2, us2, s3).
     let t3 = charge_unit env (rc_compute c \<noteq> 0) (rc_compute c) (r_compute_finish_tick u) in
     Inr (us1 @ us2, u\<lparr> r_SPD_read_finish_tick := t1, r_SPD_write_finish_tick := t2, r_compute_finish_tick := t3 \<rparr>, s3))))"

definition range_scheduleNextExecution :: "fu_env \<Rightarrow> range_unit \<Rightarrow> bool \<Rightarrow> Cycles option" where
  "range_scheduleNextExecution env u force =
     next_execution env (max (max (r_SPD_read_finish_tick u) (r_SPD_write_finish_tick u)) (r_compute_finish_tick u)) force"

section \<open>Decode\<close>

definition range_decode :: "fu_env \<Rightarrow> range_unit \<Rightarrow> rf \<Rightarrow> Instruction \<Rightarrow> range_unit res" where
  "range_decode env u r ins =
     rbind (rf_getData_u32 r (dst1RegID ins)) (\<lambda>li.
     rbind (rf_getData_u32 r (dst2RegID ins)) (\<lambda>lj.
     rbind (rf_getData_u32 r (src1RegID ins)) (\<lambda>st.
       Inr (u\<lparr> r_dst_i_tile := dst1SpdID ins, r_dst_j_tile := dst2SpdID ins, r_cond_tile := condSpdID ins,
               r_min_tile := src1SpdID ins, r_max_tile := src2SpdID ins,
               r_last_i := sint li, r_last_j := sint lj, r_stride := sint st, r_max_i := - 1, r_idx_j := 0,
               r_SPD_read_finish_tick := e_now env, r_SPD_write_finish_tick := e_now env,
               r_compute_finish_tick := e_now env, r_decode_start_tick := e_now env,
               r_cond_tile_ready := (condSpdID ins = - 1), r_min_tile_ready := False, r_max_tile_ready := False,
               r_instruction := Some (ins\<lparr> istate := Instr_Service \<rparr>), r_state := Range_Work \<rparr>))))"

section \<open>Work\<close>

definition range_ready :: "range_unit \<Rightarrow> spd \<Rightarrow> range_unit res" where
  "range_ready u s =
     rbind (if r_cond_tile u \<noteq> - 1 then
              rbind (tile_max s (r_cond_tile u) (r_max_i u)) (\<lambda>(f, m).
                Inr (u\<lparr> r_cond_tile_ready := (f \<or> r_cond_tile_ready u), r_max_i := m \<rparr>))
            else Inr u) (\<lambda>u1.
     rbind (tile_max s (r_min_tile u1) (r_max_i u1)) (\<lambda>(f1, m1).
     let u2 = u1\<lparr> r_min_tile_ready := (f1 \<or> r_min_tile_ready u1), r_max_i := m1 \<rparr> in
     rbind (tile_max s (r_max_tile u2) (r_max_i u2)) (\<lambda>(f2, m2).
       Inr (u2\<lparr> r_max_tile_ready := (f2 \<or> r_max_tile_ready u2), r_max_i := m2 \<rparr>))))"

definition range_poll :: "range_unit \<Rightarrow> spd \<Rightarrow> int \<Rightarrow> (bool \<times> spd) res" where
  "range_poll u s tile = getElementFinished s tile (r_last_i u) 4 RANGE (my_range_id u)"

definition range_polls :: "range_unit \<Rightarrow> spd \<Rightarrow> (bool \<times> spd) res" where
  "range_polls u s =
     rbind (if r_cond_tile u = - 1 then Inr (True, s) else range_poll u s (r_cond_tile u)) (\<lambda>(cr, s1).
     rbind (if cr then range_poll u s1 (r_min_tile u) else Inr (False, s1)) (\<lambda>(r1, s2).
       if r1 then range_poll u s2 (r_max_tile u) else Inr (False, s2)))"

text \<open>
  The inner loop over \<open>j\<close>.  Its bound \<open>my_idx_j < num_tile_elements\<close> is the recursion argument, the
  number of elements left in the destination tiles.
\<close>

definition range_next_j :: "range_unit \<Rightarrow> int res" where
  "range_next_j u =
     (let j = r_last_j u + r_stride u in
      if - (2 ^ 31) \<le> j \<and> j < 2 ^ 31 then Inr j else Inl Undefined_Arith)"

primrec fuse_row :: "nat \<Rightarrow> u32 \<Rightarrow> range_unit \<Rightarrow> spd \<Rightarrow> nat \<Rightarrow> (range_unit \<times> spd \<times> nat) res" where
  "fuse_row 0 max_j u s w = Inr (u, s, w)"
| "fuse_row (Suc left) max_j u s w =
     (if word_of_int (r_last_j u) < max_j then
        rbind (setData_u32 s (r_dst_i_tile u) (int (r_idx_j u)) (word_of_int (r_last_i u))) (\<lambda>s1.
        rbind (setData_u32 s1 (r_dst_j_tile u) (int (r_idx_j u)) (word_of_int (r_last_j u))) (\<lambda>s2.
        rbind (range_next_j u) (\<lambda>j.
          fuse_row left max_j (u\<lparr> r_last_j := j, r_idx_j := Suc (r_idx_j u) \<rparr>) s2 (Suc w))))
      else Inr (u, s, w))"

text \<open>
  The body of the outer loop for one row whose bounds are available.  The flag tells whether the loop
  leaves because the destination tiles are full in the middle of the row.
\<close>

definition range_row :: "range_unit \<Rightarrow> spd \<Rightarrow> range_counts \<Rightarrow> (bool \<times> range_unit \<times> spd \<times> range_counts) res" where
  "range_row u s c =
     (let c0 = (if r_cond_tile u \<noteq> - 1 then c\<lparr> rc_read := rc_read c + 1 \<rparr> else c) in
      rbind (if r_cond_tile u = - 1 then Inr True
             else rbind (getData_u32 s (r_cond_tile u) (r_last_i u)) (\<lambda>v. Inr (v \<noteq> 0))) (\<lambda>taken.
        if \<not> taken then Inr (False, u\<lparr> r_last_i := r_last_i u + 1 \<rparr>, s, c0)
        else
          rbind (getData_u32 s (r_min_tile u) (r_last_i u)) (\<lambda>min_j.
          rbind (getData_u32 s (r_max_tile u) (r_last_i u)) (\<lambda>max_j.
          let u1 = (if r_last_j u = - 1 then u\<lparr> r_last_j := sint min_j \<rparr> else u);
              c1 = c0\<lparr> rc_read := rc_read c0 + (if r_last_j u = - 1 then 2 else 1), rc_compute := rc_compute c0 + 1 \<rparr> in
          rbind (fuse_row (r_num_tile_elements u1 - r_idx_j u1) max_j u1 s (rc_write c1)) (\<lambda>(u2, s2, w).
          let c2 = c1\<lparr> rc_write := w \<rparr> in
          if word_of_int (r_last_j u2) \<ge> max_j then
            Inr (False, u2\<lparr> r_last_j := - 1, r_last_i := r_last_i u2 + 1 \<rparr>, s2, c2)
          else if r_idx_j u2 = r_num_tile_elements u2 then Inr (True, u2, s2, c2)
          else Inr (False, u2\<lparr> r_last_i := r_last_i u2 + 1 \<rparr>, s2, c2))))))"

definition range_iter :: "range_unit \<Rightarrow> spd \<Rightarrow> range_counts \<Rightarrow> (iter_out \<times> range_unit \<times> spd \<times> range_counts) res" where
  "range_iter u s c =
     (if r_max_i u \<noteq> - 1 \<and> r_last_i u \<ge> r_max_i u then
        if \<not> r_cond_tile_ready u then rbind (range_poll u s (r_cond_tile u)) (\<lambda>(_, s'). Inr (It_wait, u, s', c))
        else if \<not> r_min_tile_ready u then rbind (range_poll u s (r_min_tile u)) (\<lambda>(_, s'). Inr (It_wait, u, s', c))
        else if \<not> r_max_tile_ready u then rbind (range_poll u s (r_max_tile u)) (\<lambda>(_, s'). Inr (It_wait, u, s', c))
        else Inr (It_break, u, s, c)
      else if r_idx_j u \<ge> r_num_tile_elements u then Inr (It_break, u, s, c)
      else
        rbind (range_polls u s) (\<lambda>(ready, s1).
          if \<not> ready then Inr (It_stall, u, s1, c)
          else rbind (range_row u s1 c) (\<lambda>(full, u', s', c').
                 Inr (if full then It_break else It_next, u', s', c'))))"

primrec range_loop :: "nat \<Rightarrow> range_unit \<Rightarrow> spd \<Rightarrow> range_counts \<Rightarrow> (iter_out \<times> range_unit \<times> spd \<times> range_counts) res" where
  "range_loop 0 u s c = Inr (It_next, u, s, c)"
| "range_loop (Suc n) u s c =
     rbind (range_iter u s c) (\<lambda>(k, u', s', c').
       if k = It_next then range_loop n u' s' c' else Inr (k, u', s', c'))"

definition range_work :: "fu_env \<Rightarrow> range_unit \<Rightarrow> spd \<Rightarrow> (fu_out \<times> range_unit \<times> spd) res" where
  "range_work env u s =
     rbind (range_ready u s) (\<lambda>u1.
     rbind (range_loop (num_tile_elements s + 1) u1 s no_range_counts) (\<lambda>(k, u2, s2, c).
       case k of
         It_wait \<Rightarrow> Inr (no_out, u2, s2)
       | It_stall \<Rightarrow> rbind (range_updateLatency env u2 s2 c) (\<lambda>(us, u3, s3). Inr (no_out\<lparr> out_waked := us \<rparr>, u3, s3))
       | It_break \<Rightarrow>
           rbind (range_updateLatency env
                    (u2\<lparr> r_cond_tile_ready := True, r_min_tile_ready := True, r_max_tile_ready := True \<rparr>) s2 c) (\<lambda>(us, u3, s3).
             Inr (no_out\<lparr> out_waked := us, out_sched := range_scheduleNextExecution env u3 True \<rparr>,
                  u3\<lparr> r_state := Range_Finish \<rparr>, s3))
       | It_next \<Rightarrow> Inl Assert_Fail))"

section \<open>Finish\<close>

definition range_finish :: "range_unit \<Rightarrow> spd \<Rightarrow> rf \<Rightarrow> Instruction \<Rightarrow> (fu_out \<times> range_unit \<times> spd \<times> rf) res" where
  "range_finish u s r ins =
     (if \<not> r_cond_tile_ready u \<or> \<not> r_min_tile_ready u \<or> \<not> r_max_tile_ready u then Inl Panic
      else rbind (rf_setData_u32 r (dst1RegID ins) (word_of_int (r_last_i u))) (\<lambda>r1.
           rbind (rf_setData_u32 r1 (dst2RegID ins) (word_of_int (r_last_j u))) (\<lambda>r2.
           rbind (setSize s (r_dst_i_tile u) (int (r_idx_j u))) (\<lambda>s1.
           rbind (setSize s1 (r_dst_j_tile u) (int (r_idx_j u))) (\<lambda>s2.
             Inr (no_out\<lparr> out_finished := Some (ins\<lparr> istate := Instr_Finish \<rparr>) \<rparr>,
                  u\<lparr> r_state := Range_Idle, r_instruction := None \<rparr>, s2, r2))))))"

definition range_executeInstruction :: "fu_env \<Rightarrow> range_unit \<Rightarrow> spd \<Rightarrow> rf \<Rightarrow> (fu_out \<times> range_unit \<times> spd \<times> rf) res" where
  "range_executeInstruction env u s r =
     (case r_instruction u of
        None \<Rightarrow> Inl Assert_Fail
      | Some ins \<Rightarrow>
          if r_state u = Range_Finish then range_finish u s r ins
          else rbind (if r_state u = Range_Work then Inr u else range_decode env u r ins) (\<lambda>u1.
               rbind (range_work env u1 s) (\<lambda>(x, u2, s2). Inr (x, u2, s2, r))))"

section \<open>The loop nest it fuses\<close>

text \<open>
  The specification: the values of \<open>j\<close> in one row, and the pairs left from a position \<open>(i, j)\<close> of the
  loop nest \<open>for i < n: if (tk i) for (j = mn i; j < mx i; j += st)\<close>.  A \<open>j\<close> of minus one stands for
  the beginning of a row.
\<close>

function js_from :: "int \<Rightarrow> int \<Rightarrow> int \<Rightarrow> int list" where
  "js_from st j mx = (if 0 < st \<and> j < mx then j # js_from st (j + st) mx else [])"
  by auto
termination by (relation "measure (\<lambda>(st, j, mx). nat (mx - j))") auto

declare js_from.simps [simp del]

fun remaining :: "(int \<Rightarrow> bool) \<Rightarrow> (int \<Rightarrow> int) \<Rightarrow> (int \<Rightarrow> int) \<Rightarrow> int \<Rightarrow> nat \<Rightarrow> int \<Rightarrow> int \<Rightarrow> (int \<times> int) list" where
  "remaining tk mn mx st 0 i j = []"
| "remaining tk mn mx st (Suc k) i j =
     map (Pair i) (if tk i then js_from st (if j = - 1 then mn i else j) (mx i) else []) @
     remaining tk mn mx st k (i + 1) (if tk i then - 1 else j)"

text \<open>
  What a run of writes has done to the two destination tiles: from element \<open>k\<close> on they hold the pairs,
  and everything else is as before.
\<close>

definition pairs_written :: "int \<Rightarrow> int \<Rightarrow> spd \<Rightarrow> nat \<Rightarrow> (int \<times> int) list \<Rightarrow> spd \<Rightarrow> bool" where
  "pairs_written di dj s k ps s' \<longleftrightarrow> spd_wf s' \<and> num_tiles s' = num_tiles s \<and> num_tile_elements s' = num_tile_elements s \<and>
     (\<forall>t n. tile_done s t n \<longrightarrow> tile_done s' t n) \<and>
     (\<forall>t e. getData_u32 s' t e =
        (if int k \<le> e \<and> e < int (k + length ps) \<and> (t = di \<or> t = dj) then
           Inr (word_of_int (if t = dj then snd (ps ! nat (e - int k)) else fst (ps ! nat (e - int k))))
         else getData_u32 s t e))"

lemma pairs_written_Nil: "spd_wf s \<Longrightarrow> pairs_written di dj s k [] s"
  unfolding pairs_written_def by auto

lemma pairs_written_append:
  assumes "pairs_written di dj s k ps s1" "pairs_written di dj s1 (k + length ps) qs s2"
  shows "pairs_written di dj s k (ps @ qs) s2"
proof -
  have "getData_u32 s2 t e =
      (if int k \<le> e \<and> e < int (k + length (ps @ qs)) \<and> (t = di \<or> t = dj) then
         Inr (word_of_int (if t = dj then snd ((ps @ qs) ! nat (e - int k)) else fst ((ps @ qs) ! nat (e - int k))))
       else getData_u32 s t e)" for t e
  proof (cases "int (k + length ps) \<le> e")
    case True
    then have "nat (e - int k) = length ps + nat (e - int (k + length ps))" by linarith
    then have "(ps @ qs) ! nat (e - int k) = qs ! nat (e - int (k + length ps))" by simp
    then show ?thesis using assms True unfolding pairs_written_def by auto
  next
    case False
    then have "nat (e - int k) < length ps" if "int k \<le> e" using that by linarith
    then have "(ps @ qs) ! nat (e - int k) = ps ! nat (e - int k)" if "int k \<le> e" using that by (simp add: nth_append)
    then show ?thesis using assms False unfolding pairs_written_def by auto
  qed
  then show ?thesis using assms unfolding pairs_written_def by auto
qed

lemma pair_write:
  assumes wf: "spd_wf s" and ne: "di \<noteq> dj" and t: "0 \<le> di" "di < int (num_tiles s)" "0 \<le> dj" "dj < int (num_tiles s)"
    and k: "k < num_tile_elements s"
  obtains s1 s2 where "setData_u32 s di (int k) (word_of_int i) = Inr s1" "setData_u32 s1 dj (int k) (word_of_int j) = Inr s2"
    "pairs_written di dj s k [(i, j)] s2"
proof -
  have "valid_access s di (int k) 4" using t k unfolding valid_access_def by auto
  then obtain s1 where s1: "setData_u32 s di (int k) (word_of_int i) = Inr s1"
    using setData_bytes_ok[OF wf] unfolding setData_u32_def by fastforce
  then have st1: "spd_step s s1" using step_setData unfolding setData_u32_def by blast
  have wf1: "spd_wf s1" and dim1: "num_tiles s1 = num_tiles s" "num_tile_elements s1 = num_tile_elements s"
    using spd_step_wf[OF st1 wf] spd_step_dims[OF st1] by auto
  have "valid_access s1 dj (int k) 4" using t k dim1 unfolding valid_access_def by auto
  then obtain s2 where s2: "setData_u32 s1 dj (int k) (word_of_int j) = Inr s2"
    using setData_bytes_ok[OF wf1] unfolding setData_u32_def by fastforce
  then have st2: "spd_step s1 s2" using step_setData unfolding setData_u32_def by blast
  have td: "tile_done s t n \<longrightarrow> tile_done s2 t n" for t n
    using tile_done_setData[OF s1] tile_done_setData[OF s2] by blast
  have gd: "getData_u32 s2 t e = (if t = dj \<and> e = int k then Inr (word_of_int j)
      else if t = di \<and> e = int k then Inr (word_of_int i) else getData_u32 s t e)" for t e
    using rd_wr_u32[OF wf1 s2] rd_wr_u32[OF wf s1] by simp
  have "pairs_written di dj s k [(i, j)] s2"
    using spd_step_wf[OF st2 wf1] spd_step_dims[OF st2] dim1 td gd ne unfolding pairs_written_def by auto
  then show thesis using that s1 s2 by blast
qed

section \<open>One row\<close>

definition range_static :: "range_unit \<Rightarrow> range_unit \<Rightarrow> bool" where
  "range_static u u' \<longleftrightarrow> (\<exists>i j k. u' = u\<lparr> r_last_i := i, r_last_j := j, r_idx_j := k \<rparr>)"

lemma js_bound:
  assumes "0 \<le> j" "j < 2 ^ 31" "uint (m :: u32) < 2 ^ 31"
  shows "(word_of_int j < m) = (j < uint m)"
proof -
  have "uint (word_of_int j :: u32) = j" using assms by (simp add: uint_word_of_int)
  then show ?thesis by (simp add: word_less_def)
qed

lemma fuse_row_correct:
  assumes "spd_wf s" "r_dst_i_tile u \<noteq> r_dst_j_tile u" "0 \<le> r_dst_i_tile u" "r_dst_i_tile u < int (num_tiles s)"
    "0 \<le> r_dst_j_tile u" "r_dst_j_tile u < int (num_tiles s)" "r_idx_j u + left \<le> num_tile_elements s"
    "0 < r_stride u" "0 \<le> r_last_j u" "r_last_j u < 2 ^ 31" "uint mx + r_stride u < 2 ^ 31"
  shows "\<exists>j s' w'. fuse_row left mx u s w =
      Inr (u\<lparr> r_last_j := j, r_idx_j := r_idx_j u + length (take left (js_from (r_stride u) (r_last_j u) (uint mx))) \<rparr>, s', w') \<and>
    pairs_written (r_dst_i_tile u) (r_dst_j_tile u) s (r_idx_j u)
      (map (Pair (r_last_i u)) (take left (js_from (r_stride u) (r_last_j u) (uint mx)))) s' \<and>
    js_from (r_stride u) j (uint mx) = drop left (js_from (r_stride u) (r_last_j u) (uint mx)) \<and> 0 \<le> j \<and> j < 2 ^ 31"
  using assms
proof (induction left arbitrary: u s w)
  case 0
  have "u\<lparr> r_last_j := r_last_j u, r_idx_j := r_idx_j u \<rparr> = u" by simp
  then have "fuse_row 0 mx u s w = Inr (u\<lparr> r_last_j := r_last_j u, r_idx_j := r_idx_j u + 0 \<rparr>, s, w)" by simp
  then show ?case unfolding take_0 drop_0 list.map list.size using pairs_written_Nil[OF 0(1)] 0(9,10) by blast
next
  case (Suc left)
  have mb: "uint mx < 2 ^ 31" using Suc.prems(8,11) by simp
  note bound = js_bound[OF Suc.prems(9,10) mb]
  show ?case
  proof (cases "r_last_j u < uint mx")
    case False
    then have nil: "js_from (r_stride u) (r_last_j u) (uint mx) = []" by (simp add: js_from.simps)
    have "u\<lparr> r_last_j := r_last_j u, r_idx_j := r_idx_j u \<rparr> = u" by simp
    then have "fuse_row (Suc left) mx u s w = Inr (u\<lparr> r_last_j := r_last_j u, r_idx_j := r_idx_j u + 0 \<rparr>, s, w)"
      using False bound by simp
    then show ?thesis unfolding nil take_Nil drop_Nil list.map list.size
      by - (rule exI[of _ "r_last_j u"], rule exI[of _ s], rule exI[of _ w],
            use pairs_written_Nil[OF Suc.prems(1)] Suc.prems(9,10) nil in simp)
  next
    case True
    let ?j = "r_last_j u + r_stride u" and ?L = "js_from (r_stride u) (r_last_j u + r_stride u) (uint mx)"
    define u1 where "u1 = u\<lparr> r_last_j := ?j, r_idx_j := Suc (r_idx_j u) \<rparr>"
    have f: "r_dst_i_tile u1 = r_dst_i_tile u" "r_dst_j_tile u1 = r_dst_j_tile u" "r_stride u1 = r_stride u"
      "r_last_i u1 = r_last_i u" "r_last_j u1 = ?j" "r_idx_j u1 = Suc (r_idx_j u)" unfolding u1_def by simp_all
    have L: "js_from (r_stride u) (r_last_j u) (uint mx) = r_last_j u # ?L"
      using True Suc.prems(8) by (subst js_from.simps) simp
    have jb: "0 \<le> ?j" "?j < 2 ^ 31" using True Suc.prems(8,9,11) by linarith+
    then have nj: "range_next_j u = Inr ?j" unfolding range_next_j_def Let_def by simp
    have k: "r_idx_j u < num_tile_elements s" "Suc (r_idx_j u) + left \<le> num_tile_elements s" using Suc.prems(7) by linarith+
    obtain s1 s2 where w: "setData_u32 s (r_dst_i_tile u) (int (r_idx_j u)) (word_of_int (r_last_i u)) = Inr s1"
      "setData_u32 s1 (r_dst_j_tile u) (int (r_idx_j u)) (word_of_int (r_last_j u)) = Inr s2"
      "pairs_written (r_dst_i_tile u) (r_dst_j_tile u) s (r_idx_j u) [(r_last_i u, r_last_j u)] s2"
      by (rule pair_write[OF Suc.prems(1-6) k(1)])
    have wf2: "spd_wf s2" and dims: "num_tiles s2 = num_tiles s" "num_tile_elements s2 = num_tile_elements s"
      using w(3) unfolding pairs_written_def by blast+
    obtain j s' w' where r: "fuse_row left mx u1 s2 (Suc w) =
        Inr (u1\<lparr> r_last_j := j, r_idx_j := Suc (r_idx_j u) + length (take left ?L) \<rparr>, s', w')"
      "pairs_written (r_dst_i_tile u) (r_dst_j_tile u) s2 (Suc (r_idx_j u)) (map (Pair (r_last_i u)) (take left ?L)) s'"
      "js_from (r_stride u) j (uint mx) = drop left ?L" "0 \<le> j" "j < 2 ^ 31"
      using Suc.IH[of s2 u1 "Suc w", unfolded f dims, OF wf2 Suc.prems(2-6) k(2) Suc.prems(8) jb Suc.prems(11)] by blast
    have p: "pairs_written (r_dst_i_tile u) (r_dst_j_tile u) s (r_idx_j u) (map (Pair (r_last_i u)) (take (Suc left) (r_last_j u # ?L))) s'"
      using pairs_written_append[OF w(3), of "map (Pair (r_last_i u)) (take left ?L)" s'] r(2) by simp
    have lt: "word_of_int (r_last_j u) < mx" using True bound by simp
    have "fuse_row (Suc left) mx u s w = fuse_row left mx u1 s2 (Suc w)"
      unfolding u1_def using lt by (simp add: w(1,2) nj)
    also have "\<dots> = Inr (u\<lparr> r_last_j := j, r_idx_j := r_idx_j u + length (take (Suc left) (r_last_j u # ?L)) \<rparr>, s', w')"
      unfolding r(1) by (simp add: u1_def)
    finally show ?thesis unfolding L using p r(3-5) by (simp only: drop_Suc_Cons) blast
  qed
qed

text \<open>
  The state of a run whose sources are finished: the bounds of the rows, the pairs left, and what the
  loop needs of its position.
\<close>

definition elem_at :: "spd \<Rightarrow> int \<Rightarrow> int \<Rightarrow> int" where
  "elem_at s t i = (case getData_u32 s t i of Inr w \<Rightarrow> uint w | Inl _ \<Rightarrow> 0)"

definition pairs_left :: "range_unit \<Rightarrow> spd \<Rightarrow> nat \<Rightarrow> (int \<times> int) list" where
  "pairs_left u s n =
     remaining (\<lambda>i. r_cond_tile u = - 1 \<or> elem_at s (r_cond_tile u) i \<noteq> 0) (elem_at s (r_min_tile u)) (elem_at s (r_max_tile u))
       (r_stride u) (nat (int n - r_last_i u)) (r_last_i u) (r_last_j u)"

definition range_srcs :: "range_unit \<Rightarrow> int set" where
  "range_srcs u = {r_min_tile u, r_max_tile u} \<union> (if r_cond_tile u = - 1 then {} else {r_cond_tile u})"

definition range_go :: "range_unit \<Rightarrow> spd \<Rightarrow> nat \<Rightarrow> bool" where
  "range_go u s n \<longleftrightarrow> spd_wf s \<and> n \<le> num_tile_elements s \<and> r_num_tile_elements u = num_tile_elements s \<and>
     r_dst_i_tile u \<noteq> r_dst_j_tile u \<and> {r_dst_i_tile u, r_dst_j_tile u} \<subseteq> {0..<int (num_tiles s)} \<and>
     (\<forall>t \<in> range_srcs u. tile_done s t n \<and> t \<noteq> r_dst_i_tile u \<and> t \<noteq> r_dst_j_tile u) \<and>
     r_cond_tile_ready u \<and> r_min_tile_ready u \<and> r_max_tile_ready u \<and> r_max_i u = int n \<and> 0 < r_stride u \<and>
     (\<forall>i. 0 \<le> i \<and> i < int n \<longrightarrow> elem_at s (r_min_tile u) i < 2 ^ 31 \<and> elem_at s (r_max_tile u) i + r_stride u < 2 ^ 31) \<and>
     0 \<le> r_last_i u \<and> r_last_i u < 2 ^ 31 \<and> (r_last_j u = - 1 \<or> 0 \<le> r_last_j u \<and> r_last_j u < 2 ^ 31) \<and>
     r_idx_j u \<le> num_tile_elements s"

lemma getData_bytes_ok:
  assumes "spd_wf s" "valid_access s t e sz"
  shows "\<exists>bs. getData_bytes s t e sz = Inr bs"
  using access_in_bounds[OF assms]
  by (simp add: getData_bytes_def check_tile_element_id_eq assms(2) mem_read_def)

lemma elements_bound:
  assumes "spd_wf s" "0 \<le> t" "t < int (num_tiles s)"
  shows "num_tile_elements s < 2 ^ 31"
proof -
  have "num_tile_elements s \<le> num_tiles s * num_tile_elements s * 4" using assms(2,3) by (cases "num_tiles s") auto
  then show ?thesis using assms(1) unfolding spd_wf_def by linarith
qed

lemma range_go_rows:
  assumes "range_go u s n" "r_last_i u < int n"
  shows "r_last_i u + 1 < 2 ^ 31"
proof -
  have "num_tile_elements s < 2 ^ 31" "n \<le> num_tile_elements s"
    using elements_bound[of s "r_dst_i_tile u"] assms(1) unfolding range_go_def by auto
  then have "int n < 2 ^ 31" by (simp add: zless_nat_eq_int_zless)
  then show ?thesis using assms(2) by linarith
qed

lemma tile_done_read:
  assumes "spd_wf s" "tile_done s t n" "0 \<le> i" "i < int n" "n \<le> num_tile_elements s"
  shows "\<exists>w. getData_u32 s t i = Inr w \<and> uint w = elem_at s t i"
proof -
  have "valid_access s t i 4" using assms unfolding valid_access_def tile_done_def by auto
  then obtain w where "getData_u32 s t i = Inr w"
    using getData_bytes_ok[OF assms(1)] unfolding getData_u32_def by fastforce
  then show ?thesis unfolding elem_at_def by auto
qed

lemma sint_small:
  assumes "uint (w :: u32) < 2 ^ 31"
  shows "sint w = uint w"
  using signed_take_bit_int_eq_self[of 31 "uint w"] uint_ge_0[of w] assms by (simp add: sint_uint)

lemma pairs_left_row:
  assumes "r_last_i u < int n" "0 \<le> r_last_i u"
  shows "pairs_left u s n =
    map (Pair (r_last_i u)) (if r_cond_tile u = - 1 \<or> elem_at s (r_cond_tile u) (r_last_i u) \<noteq> 0
       then js_from (r_stride u) (if r_last_j u = - 1 then elem_at s (r_min_tile u) (r_last_i u) else r_last_j u)
              (elem_at s (r_max_tile u) (r_last_i u)) else []) @
    pairs_left (u\<lparr> r_last_i := r_last_i u + 1,
      r_last_j := (if r_cond_tile u = - 1 \<or> elem_at s (r_cond_tile u) (r_last_i u) \<noteq> 0 then - 1 else r_last_j u) \<rparr>) s n"
proof -
  have "nat (int n - r_last_i u) = Suc (nat (int n - (r_last_i u + 1)))" using assms by linarith
  then show ?thesis unfolding pairs_left_def by simp
qed

definition row_effect :: "range_unit \<Rightarrow> spd \<Rightarrow> nat \<Rightarrow> bool \<Rightarrow> range_unit \<Rightarrow> spd \<Rightarrow> (int \<times> int) list \<Rightarrow> bool" where
  "row_effect u s n full u' s' ps \<longleftrightarrow> range_static u u' \<and>
     pairs_written (r_dst_i_tile u) (r_dst_j_tile u) s (r_idx_j u) ps s' \<and>
     pairs_left u s n = ps @ pairs_left u' s n \<and> r_idx_j u' = r_idx_j u + length ps \<and> r_idx_j u' \<le> num_tile_elements s \<and>
     0 \<le> r_last_i u' \<and> r_last_i u' < 2 ^ 31 \<and> (r_last_j u' = - 1 \<or> 0 \<le> r_last_j u' \<and> r_last_j u' < 2 ^ 31) \<and>
     (if full then r_idx_j u' = num_tile_elements s else r_last_i u' = r_last_i u + 1)"

lemma range_static_intro: "range_static u (u\<lparr> r_last_i := i, r_last_j := j, r_idx_j := k \<rparr>)"
  unfolding range_static_def by blast

lemma range_row_taken:
  assumes go: "range_go u s n" and i: "r_last_i u < int n" and k: "r_idx_j u < num_tile_elements s"
    and tk: "r_cond_tile u = - 1 \<or> elem_at s (r_cond_tile u) (r_last_i u) \<noteq> 0"
    and mn: "uint (mnw :: u32) = elem_at s (r_min_tile u) (r_last_i u)" and mx: "uint (mxw :: u32) = elem_at s (r_max_tile u) (r_last_i u)"
  shows "\<exists>full u' s' w' ps. rbind (fuse_row (r_num_tile_elements u - r_idx_j u) mxw
        (if r_last_j u = - 1 then u\<lparr> r_last_j := sint mnw \<rparr> else u) s w) (\<lambda>(u2, s2, w).
          if word_of_int (r_last_j u2) \<ge> mxw then Inr (False, u2\<lparr> r_last_j := - 1, r_last_i := r_last_i u2 + 1 \<rparr>, s2, w)
          else if r_idx_j u2 = r_num_tile_elements u2 then Inr (True, u2, s2, w)
          else Inr (False, u2\<lparr> r_last_i := r_last_i u2 + 1 \<rparr>, s2, w)) = (Inr (full, u', s', w') :: (bool \<times> range_unit \<times> spd \<times> nat) res) \<and>
      row_effect u s n full u' s' ps"
proof -
  define N where "N = num_tile_elements s"
  define j0 where "j0 = (if r_last_j u = - 1 then elem_at s (r_min_tile u) (r_last_i u) else r_last_j u)"
  define L where "L = js_from (r_stride u) j0 (uint mxw)"
  define left where "left = N - r_idx_j u"
  have g: "spd_wf s" "r_dst_i_tile u \<noteq> r_dst_j_tile u" "0 \<le> r_dst_i_tile u" "r_dst_i_tile u < int (num_tiles s)"
    "0 \<le> r_dst_j_tile u" "r_dst_j_tile u < int (num_tiles s)" "0 < r_stride u" "r_num_tile_elements u = N" "0 \<le> r_last_i u"
    using go unfolding range_go_def N_def by auto
  have b: "uint mnw < 2 ^ 31" "uint mxw + r_stride u < 2 ^ 31" and jr: "r_last_j u = - 1 \<or> 0 \<le> r_last_j u \<and> r_last_j u < 2 ^ 31"
    using go i g(9) unfolding range_go_def mn mx by auto
  have sm: "sint mnw = uint mnw" using b(1) by (rule sint_small)
  have j0: "0 \<le> j0" "j0 < 2 ^ 31" using b(1) jr mn uint_ge_0[of mnw] unfolding j0_def by auto
  have u1: "(if r_last_j u = - 1 then u\<lparr> r_last_j := sint mnw \<rparr> else u) = u\<lparr> r_last_j := j0 \<rparr>"
    unfolding j0_def sm mn by simp
  obtain j s' w' where f: "fuse_row left mxw (u\<lparr> r_last_j := j0 \<rparr>) s w =
      Inr (u\<lparr> r_last_j := j, r_idx_j := r_idx_j u + length (take left L) \<rparr>, s', w')"
    and pw: "pairs_written (r_dst_i_tile u) (r_dst_j_tile u) s (r_idx_j u) (map (Pair (r_last_i u)) (take left L)) s'"
    and dr: "js_from (r_stride u) j (uint mxw) = drop left L" and jb: "0 \<le> j" "j < 2 ^ 31"
    using fuse_row_correct[of s "u\<lparr> r_last_j := j0 \<rparr>" left mxw w] g b(2) j0 k unfolding L_def left_def N_def by auto
  have mb: "uint mxw < 2 ^ 31" using b(2) g(7) by linarith
  have cmp: "(word_of_int j \<ge> mxw) = (uint mxw \<le> j)" using js_bound[OF jb mb] by (simp add: not_less[symmetric] del: not_less)
  have lk: "r_idx_j u + left = N" using k unfolding left_def N_def by simp
  have left': "r_num_tile_elements u - r_idx_j u = left" using g(8) unfolding left_def by simp
  have pl: "pairs_left u s n = map (Pair (r_last_i u)) L @ pairs_left (u\<lparr> r_last_i := r_last_i u + 1, r_last_j := - 1 \<rparr>) s n"
    using pairs_left_row[OF i g(9), of s] tk unfolding L_def j0_def mx by simp
  show ?thesis
  proof (cases "uint mxw \<le> j")
    case True
    then have "drop left L = []" using dr by (simp add: js_from.simps)
    then have all: "take left L = L" "length L \<le> left" by simp_all
    let ?u = "u\<lparr> r_last_i := r_last_i u + 1, r_last_j := - 1, r_idx_j := r_idx_j u + length L \<rparr>"
    have "pairs_left ?u s n = pairs_left (u\<lparr> r_last_i := r_last_i u + 1, r_last_j := - 1 \<rparr>) s n" unfolding pairs_left_def by simp
    then have "row_effect u s n False ?u s' (map (Pair (r_last_i u)) L)"
      using pw pl lk all g(9) range_go_rows[OF go i] range_static_intro unfolding row_effect_def N_def by auto
    moreover have "?u = u\<lparr> r_last_j := j, r_idx_j := r_idx_j u + length (take left L) \<rparr>\<lparr> r_last_j := - 1, r_last_i := r_last_i u + 1 \<rparr>"
      using all by simp
    ultimately show ?thesis unfolding u1 left' f using True cmp by auto
  next
    case False
    then have "js_from (r_stride u) j (uint mxw) \<noteq> []" using g(7) by (subst js_from.simps) simp
    then have ne: "drop left L \<noteq> []" unfolding dr .
    then have len: "length (take left L) = left" by simp
    let ?u = "u\<lparr> r_last_j := j, r_idx_j := N \<rparr>"
    have jm: "j \<noteq> - 1" using jb by linarith
    have "pairs_left ?u s n = map (Pair (r_last_i u)) (drop left L) @ pairs_left (u\<lparr> r_last_i := r_last_i u + 1, r_last_j := - 1 \<rparr>) s n"
      using pairs_left_row[of ?u n s] i g(9) tk dr jm unfolding mx by (simp add: pairs_left_def)
    then have "pairs_left u s n = map (Pair (r_last_i u)) (take left L) @ pairs_left ?u s n"
      using pl by (metis append_assoc append_take_drop_id map_append)
    moreover have "range_static u ?u" using range_static_intro[where u = u and i = "r_last_i u" and j = j and k = N] by simp
    ultimately have "row_effect u s n True ?u s' (map (Pair (r_last_i u)) (take left L))"
      using pw lk len g(9) range_go_rows[OF go i] jb unfolding row_effect_def N_def by simp
    then show ?thesis unfolding u1 left' f len lk using False cmp g(8) by auto
  qed
qed

lemma range_row_step:
  assumes go: "range_go u s n" and i: "r_last_i u < int n" and k: "r_idx_j u < num_tile_elements s"
  shows "\<exists>full u' s' c' ps. range_row u s c = Inr (full, u', s', c') \<and> row_effect u s n full u' s' ps"
proof -
  have wf: "spd_wf s" and n: "n \<le> num_tile_elements s" and i0: "0 \<le> r_last_i u"
    and dn: "t \<in> range_srcs u \<Longrightarrow> tile_done s t n" for t
    using go unfolding range_go_def by auto
  obtain mnw mxw where mn: "getData_u32 s (r_min_tile u) (r_last_i u) = Inr mnw" "uint mnw = elem_at s (r_min_tile u) (r_last_i u)"
    and mx: "getData_u32 s (r_max_tile u) (r_last_i u) = Inr mxw" "uint mxw = elem_at s (r_max_tile u) (r_last_i u)"
    using tile_done_read[OF wf dn i0 i n] unfolding range_srcs_def by blast
  let ?tk = "r_cond_tile u = - 1 \<or> elem_at s (r_cond_tile u) (r_last_i u) \<noteq> 0"
  have tk: "(if r_cond_tile u = - 1 then Inr True
             else rbind (getData_u32 s (r_cond_tile u) (r_last_i u)) (\<lambda>v. Inr (v \<noteq> 0))) = Inr ?tk"
  proof (cases "r_cond_tile u = - 1")
    case False
    then obtain w where "getData_u32 s (r_cond_tile u) (r_last_i u) = Inr w" "uint w = elem_at s (r_cond_tile u) (r_last_i u)"
      using tile_done_read[OF wf dn i0 i n, of "r_cond_tile u"] unfolding range_srcs_def by auto
    then show ?thesis using False by (auto simp: uint_0_iff)
  qed simp
  show ?thesis
  proof (cases ?tk)
    case False
    have "row_effect u s n False (u\<lparr> r_last_i := r_last_i u + 1 \<rparr>) s []"
      using pairs_left_row[OF i i0, of s] False go range_go_rows[OF go i] pairs_written_Nil[OF wf] range_static_intro[where u = u and j = "r_last_j u" and k = "r_idx_j u"]
      unfolding row_effect_def range_go_def by auto
    then show ?thesis using False tk unfolding range_row_def Let_def by auto
  next
    case True
    obtain full u' s' w' ps where f: "rbind (fuse_row (r_num_tile_elements u - r_idx_j u) mxw
        (if r_last_j u = - 1 then u\<lparr> r_last_j := sint mnw \<rparr> else u) s (rc_write c)) (\<lambda>(u2, s2, w).
          if word_of_int (r_last_j u2) \<ge> mxw then Inr (False, u2\<lparr> r_last_j := - 1, r_last_i := r_last_i u2 + 1 \<rparr>, s2, w)
          else if r_idx_j u2 = r_num_tile_elements u2 then Inr (True, u2, s2, w)
          else Inr (False, u2\<lparr> r_last_i := r_last_i u2 + 1 \<rparr>, s2, w)) = (Inr (full, u', s', w') :: (bool \<times> range_unit \<times> spd \<times> nat) res)"
      and e: "row_effect u s n full u' s' ps"
      using range_row_taken[OF go i k True mn(2) mx(2)] by blast
    then have "\<exists>c'. range_row u s c = Inr (full, u', s', c')"
      unfolding range_row_def Let_def tk mn(1) mx(1) using True
      by (auto simp: rbind_eq_Inr split: if_splits prod.splits)
    then show ?thesis using e by blast
  qed
qed

section \<open>The loop over the rows\<close>

lemma pairs_written_elem_at:
  assumes "pairs_written di dj s k ps s'" "t \<noteq> di" "t \<noteq> dj"
  shows "elem_at s' t = elem_at s t"
proof
  fix i show "elem_at s' t i = elem_at s t i" using assms unfolding pairs_written_def elem_at_def by simp
qed

lemma range_staticD:
  assumes "range_static u u'"
  shows "r_dst_i_tile u' = r_dst_i_tile u" "r_dst_j_tile u' = r_dst_j_tile u" "r_cond_tile u' = r_cond_tile u"
    "r_min_tile u' = r_min_tile u" "r_max_tile u' = r_max_tile u" "r_stride u' = r_stride u" "r_max_i u' = r_max_i u"
    "r_cond_tile_ready u' = r_cond_tile_ready u" "r_min_tile_ready u' = r_min_tile_ready u" "r_max_tile_ready u' = r_max_tile_ready u"
    "r_num_tile_elements u' = r_num_tile_elements u" "range_srcs u' = range_srcs u" "r_instruction u' = r_instruction u" "r_state u' = r_state u"
  using assms unfolding range_static_def range_srcs_def by auto

lemma range_static_trans: "range_static u u1 \<Longrightarrow> range_static u1 u2 \<Longrightarrow> range_static u u2"
  unfolding range_static_def by auto blast

lemma row_effect_go:
  assumes go: "range_go u s n" and e: "row_effect u s n full u' s' ps"
  shows "range_go u' s' n" "pairs_left v s' n = pairs_left v s n \<or> \<not> range_static u v"
proof -
  note st = range_staticD[OF e[unfolded row_effect_def, THEN conjunct1]]
  have pw: "pairs_written (r_dst_i_tile u) (r_dst_j_tile u) s (r_idx_j u) ps s'" using e unfolding row_effect_def by blast
  then have d: "spd_wf s'" "num_tiles s' = num_tiles s" "num_tile_elements s' = num_tile_elements s"
    "tile_done s t n \<Longrightarrow> tile_done s' t n" for t unfolding pairs_written_def by blast+
  have el: "elem_at s' t = elem_at s t" if "t \<in> range_srcs u" for t
    using pairs_written_elem_at[OF pw] go that unfolding range_go_def by blast
  then have el': "elem_at s' (r_min_tile u) = elem_at s (r_min_tile u)" "elem_at s' (r_max_tile u) = elem_at s (r_max_tile u)"
    "r_cond_tile u \<noteq> - 1 \<Longrightarrow> elem_at s' (r_cond_tile u) = elem_at s (r_cond_tile u)"
    unfolding range_srcs_def by auto
  show "range_go u' s' n"
    using go e d unfolding range_go_def row_effect_def st el' by auto
  show "pairs_left v s' n = pairs_left v s n \<or> \<not> range_static u v"
  proof (cases "range_static u v")
    case True
    note stv = range_staticD[OF True]
    show ?thesis unfolding pairs_left_def stv el'(1,2) using el'(3) by (cases "r_cond_tile u = - 1") auto
  qed simp
qed

text \<open>What the loop has done when it leaves: the pairs written are the first ones of the pairs left.\<close>

definition loop_effect :: "range_unit \<Rightarrow> spd \<Rightarrow> nat \<Rightarrow> range_unit \<Rightarrow> spd \<Rightarrow> (int \<times> int) list \<Rightarrow> bool" where
  "loop_effect u s n u' s' ps \<longleftrightarrow> range_static u u' \<and> range_go u' s' n \<and>
     pairs_written (r_dst_i_tile u) (r_dst_j_tile u) s (r_idx_j u) ps s' \<and>
     pairs_left u s n = ps @ pairs_left u' s n \<and> r_idx_j u' = r_idx_j u + length ps \<and>
     (r_idx_j u' = num_tile_elements s \<or> pairs_left u' s n = [])"

lemma range_polls_ready:
  assumes "range_go u s n" "r_last_i u < int n"
  shows "range_polls u s = Inr (True, s)"
proof -
  have p: "getElementFinished s t (r_last_i u) 4 f id = Inr (True, s)" if "t \<in> range_srcs u" for t f id
    using tile_done_poll[of s t n "r_last_i u" f id] assms that unfolding range_go_def by blast
  show ?thesis unfolding range_polls_def range_poll_def
    by (simp add: p range_srcs_def)
qed

lemma range_loop_complete:
  assumes "range_go u s n" "nat (int n - r_last_i u) < fuel"
  shows "\<exists>u' s' c' ps. range_loop fuel u s c = Inr (It_break, u', s', c') \<and> loop_effect u s n u' s' ps"
  using assms
proof (induction fuel arbitrary: u s c)
  case (Suc fuel)
  note go = Suc.prems(1)
  have g: "spd_wf s" "r_max_i u = int n" "r_cond_tile_ready u" "r_min_tile_ready u" "r_max_tile_ready u" "r_num_tile_elements u = num_tile_elements s"
    "0 \<le> r_last_i u" "r_idx_j u \<le> num_tile_elements s" using go unfolding range_go_def by auto
  have stop: ?case if "range_iter u s c = Inr (It_break, u, s, c)" "r_idx_j u = num_tile_elements s \<or> pairs_left u s n = []"
  proof -
    have "range_static u u" using range_static_intro[where u = u and i = "r_last_i u" and j = "r_last_j u" and k = "r_idx_j u"] by simp
    then have "loop_effect u s n u s []"
      using go that(2) pairs_written_Nil[OF g(1)] unfolding loop_effect_def by auto
    then show ?thesis using that(1) by auto
  qed
  consider (rows) "r_last_i u \<ge> int n" | (full) "r_last_i u < int n" "r_idx_j u = num_tile_elements s"
    | (go_on) "r_last_i u < int n" "r_idx_j u < num_tile_elements s" using g(8) by linarith
  then show ?case
  proof cases
    case rows
    then show ?thesis using stop g unfolding range_iter_def pairs_left_def by simp
  next
    case full
    then show ?thesis using stop g unfolding range_iter_def by simp
  next
    case go_on
    obtain f u1 s1 c1 ps where r: "range_row u s c = Inr (f, u1, s1, c1)" and e: "row_effect u s n f u1 s1 ps"
      using range_row_step[OF go go_on, of c] by blast
    have it: "range_iter u s c = Inr (if f then It_break else It_next, u1, s1, c1)"
      unfolding range_iter_def range_polls_ready[OF go go_on(1)] using go_on g r by simp
    note eD = e[unfolded row_effect_def]
    note go1 = row_effect_go(1)[OF go e]
    have st1: "range_static u u1" using eD by blast
    have same: "pairs_left v s1 n = pairs_left v s n" if "range_static u v" for v
      using row_effect_go(2)[OF go e, of v] that by blast
    show ?thesis
    proof (cases f)
      case True
      then have "loop_effect u s n u1 s1 ps" using eD go1 unfolding loop_effect_def by simp
      then show ?thesis using it True by auto
    next
      case False
      then have "nat (int n - r_last_i u1) < fuel" using eD go_on(1) Suc.prems(2) by simp
      then obtain u' s' c' qs where l: "range_loop fuel u1 s1 c1 = Inr (It_break, u', s', c')" and e': "loop_effect u1 s1 n u' s' qs"
        using Suc.IH[OF go1] by blast
      note e'D = e'[unfolded loop_effect_def range_staticD[OF st1]]
      have st: "range_static u u'" using range_static_trans[OF st1] e'D by blast
      have "num_tile_elements s1 = num_tile_elements s" using eD unfolding pairs_written_def by blast
      moreover have "pairs_written (r_dst_i_tile u) (r_dst_j_tile u) s (r_idx_j u) (ps @ qs) s'"
        using pairs_written_append eD e'D by metis
      ultimately have "loop_effect u s n u' s' (ps @ qs)"
        using eD e'D st same[OF st] same[OF st1] unfolding loop_effect_def by auto
      then show ?thesis using it l False by auto
    qed
  qed
qed simp

section \<open>The whole instruction\<close>

lemma rf_read_write:
  assumes "rf_setData_u32 r reg v = Inr r'"
  shows "rf_getData_u32 r' q = (if q = reg then Inr v else rf_getData_u32 r q)"
proof -
  obtain d where b: "check_reg_id r reg 4 = Inr ()" and w: "mem_write (rf_data r) (nat reg * 4) (bytes_of 4 v) = Inr d"
    and r': "r' = r\<lparr> rf_data := d \<rparr>"
    using assms unfolding rf_setData_u32_def rf_setData_bytes_def by (auto simp: rbind_eq_Inr)
  have c: "check_reg_id r' q 4 = check_reg_id r q 4" unfolding r' check_reg_id_def by simp
  have reg: "0 \<le> reg" using b unfolding check_reg_id_def by (auto split: if_splits)
  consider (same) "q = reg" | (neg) "q < 0" | (other) "0 \<le> q" "q \<noteq> reg" by linarith
  then show ?thesis
  proof cases
    case same
    then show ?thesis using mem_read_write_same[OF w] b c r' word_of_bytes_of[of 4 v]
      unfolding rf_getData_u32_def rf_getData_bytes_def by simp
  next
    case neg
    then show ?thesis using reg unfolding rf_getData_u32_def rf_getData_bytes_def c check_reg_id_def by simp
  next
    case other
    then have "nat q * 4 + 4 \<le> nat reg * 4 \<or> nat reg * 4 + length (bytes_of 4 v) \<le> nat q * 4" using reg by auto
    then show ?thesis using mem_read_write_other[OF w] other r' unfolding rf_getData_u32_def rf_getData_bytes_def c by simp
  qed
qed

lemma rf_write_ok:
  assumes "rf_getData_u32 r reg = Inr w"
  shows "\<exists>r'. rf_setData_u32 r reg v = Inr r'"
  using assms unfolding rf_getData_u32_def rf_getData_bytes_def rf_setData_u32_def rf_setData_bytes_def mem_read_def mem_write_def
  by (auto simp: rbind_eq_Inr split: if_splits)

lemma range_updateLatency_ok:
  assumes wf: "spd_wf s" and t: "{r_dst_i_tile u, r_dst_j_tile u} \<subseteq> {0..<int (num_tiles s)}" and ok: "\<And>f i. e_unit_ok env f i"
  shows "\<exists>us t1 t2 t3 s'. range_updateLatency env u s c = Inr (us, u\<lparr> r_SPD_read_finish_tick := t1, r_SPD_write_finish_tick := t2,
    r_compute_finish_tick := t3 \<rparr>, s') \<and> quiet s s'"
proof -
  obtain t1 s1 where c1: "charge_read env s (rc_read c \<noteq> 0) (getCeiling (rc_read c) 16) (r_SPD_read_finish_tick u) = Inr (t1, s1)"
    using charge_read_ok[OF wf] by blast
  have q1: "quiet s s1" using charge_read_quiet[OF c1] .
  then have v1: "spd_wf s1" "num_tiles s1 = num_tiles s" using wf spd_viewD(7) unfolding quiet_def by blast+
  then obtain t2 us1 s2 where c2: "charge_write env s1 (rc_write c \<noteq> 0) (r_dst_i_tile u) (getCeiling (rc_write c) 16) (r_SPD_write_finish_tick u) = Inr (t2, us1, s2)"
    using charge_write_ok[OF v1(1) _ _ ok] t by (metis atLeastLessThan_iff insert_subset)
  have q2: "quiet s1 s2" using charge_write_quiet[OF c2] .
  then have v2: "spd_wf s2" "num_tiles s2 = num_tiles s" using v1 spd_viewD(7) unfolding quiet_def by metis+
  then obtain t3 us2 s3 where c3: "charge_write env s2 (rc_write c \<noteq> 0) (r_dst_j_tile u) (getCeiling (rc_write c) 16) (r_SPD_write_finish_tick u) = Inr (t3, us2, s3)"
    using charge_write_ok[OF v2(1) _ _ ok] t by (metis atLeastLessThan_iff insert_subset)
  have "quiet s s3" using quiet_trans[OF quiet_trans[OF q1 q2] charge_write_quiet[OF c3]] .
  moreover have "range_updateLatency env u s c = Inr (us1 @ us2, u\<lparr> r_SPD_read_finish_tick := t1, r_SPD_write_finish_tick := t3,
      r_compute_finish_tick := charge_unit env (rc_compute c \<noteq> 0) (rc_compute c) (r_compute_finish_tick u) \<rparr>, s3)"
    unfolding range_updateLatency_def Let_def c1 c2 c3 rbind.simps prod.case ..
  ultimately show ?thesis by blast
qed

lemma range_ready_all:
  assumes "spd_wf s" "\<forall>t \<in> range_srcs u. tile_done s t n" "r_max_i u = - 1" "r_cond_tile_ready u = (r_cond_tile u = - 1)"
  shows "range_ready u s = Inr (u\<lparr> r_cond_tile_ready := True, r_min_tile_ready := True, r_max_tile_ready := True, r_max_i := int n \<rparr>)"
proof -
  have m: "tile_max s t m = Inr (True, int n)" if "t \<in> range_srcs u" "m = - 1 \<or> m = int n" for t m
    using tile_done_max[OF assms(1) _ that(2)] assms(2) that(1) by blast
  have a: "tile_max s (r_min_tile u) m = Inr (True, int n)" "tile_max s (r_max_tile u) m = Inr (True, int n)"
    "r_cond_tile u \<noteq> - 1 \<Longrightarrow> tile_max s (r_cond_tile u) m = Inr (True, int n)" if "m = - 1 \<or> m = int n" for m
    using m that unfolding range_srcs_def by simp_all
  show ?thesis
  proof (cases "r_cond_tile u = - 1")
    case True
    then have "u\<lparr> r_cond_tile_ready := True \<rparr> = u" using assms(4) by simp
    then show ?thesis using True a(1,2) assms(3) unfolding range_ready_def by simp
  next
    case False
    then show ?thesis using a assms(3) unfolding range_ready_def by simp
  qed
qed

definition fused_pairs :: "spd \<Rightarrow> Instruction \<Rightarrow> int \<Rightarrow> nat \<Rightarrow> int \<Rightarrow> int \<Rightarrow> (int \<times> int) list" where
  "fused_pairs s ins st n i j =
     remaining (\<lambda>i. condSpdID ins = - 1 \<or> elem_at s (condSpdID ins) i \<noteq> 0) (elem_at s (src1SpdID ins)) (elem_at s (src2SpdID ins))
       st (nat (int n - i)) i j"

definition range_ready_to_run :: "spd \<Rightarrow> Instruction \<Rightarrow> int \<Rightarrow> nat \<Rightarrow> bool" where
  "range_ready_to_run s ins st n \<longleftrightarrow> spd_wf s \<and> n \<le> num_tile_elements s \<and>
     dst1SpdID ins \<noteq> dst2SpdID ins \<and> {dst1SpdID ins, dst2SpdID ins} \<subseteq> {0..<int (num_tiles s)} \<and>
     (\<forall>t \<in> {src1SpdID ins, src2SpdID ins} \<union> (if condSpdID ins = - 1 then {} else {condSpdID ins}).
        tile_done s t n \<and> t \<noteq> dst1SpdID ins \<and> t \<noteq> dst2SpdID ins) \<and> 0 < st \<and>
     (\<forall>i. 0 \<le> i \<and> i < int n \<longrightarrow> elem_at s (src1SpdID ins) i < 2 ^ 31 \<and> elem_at s (src2SpdID ins) i + st < 2 ^ 31)"

lemma range_decode_ok:
  assumes "rf_getData_u32 r (dst1RegID ins) = Inr li" "rf_getData_u32 r (dst2RegID ins) = Inr lj" "rf_getData_u32 r (src1RegID ins) = Inr st"
  obtains u0 where "range_decode env u r ins = Inr u0" "r_dst_i_tile u0 = dst1SpdID ins" "r_dst_j_tile u0 = dst2SpdID ins"
    "r_cond_tile u0 = condSpdID ins" "r_min_tile u0 = src1SpdID ins" "r_max_tile u0 = src2SpdID ins" "r_last_i u0 = sint li"
    "r_last_j u0 = sint lj" "r_stride u0 = sint st" "r_max_i u0 = - 1" "r_idx_j u0 = 0" "r_cond_tile_ready u0 = (condSpdID ins = - 1)"
    "r_num_tile_elements u0 = r_num_tile_elements u" "r_instruction u0 = Some (ins\<lparr> istate := Instr_Service \<rparr>)"
  using that assms unfolding range_decode_def by simp

lemma range_work_complete:
  assumes rdy: "range_ready_to_run s ins (r_stride u) n" and f: "r_dst_i_tile u = dst1SpdID ins" "r_dst_j_tile u = dst2SpdID ins"
    "r_cond_tile u = condSpdID ins" "r_min_tile u = src1SpdID ins" "r_max_tile u = src2SpdID ins"
    "r_max_i u = - 1" "r_idx_j u = 0" "r_cond_tile_ready u = (condSpdID ins = - 1)" "r_num_tile_elements u = num_tile_elements s"
    and i: "0 \<le> r_last_i u" "r_last_i u < 2 ^ 31" and j: "- 1 \<le> r_last_j u" "r_last_j u < 2 ^ 31" and ok: "\<And>f i. e_unit_ok env f i"
  shows "\<exists>x u' s' s1 ps. range_work env u s = Inr (x, u', s') \<and> quiet s1 s' \<and> pairs_written (dst1SpdID ins) (dst2SpdID ins) s 0 ps s1 \<and>
    fused_pairs s ins (r_stride u) n (r_last_i u) (r_last_j u) = ps @ fused_pairs s ins (r_stride u) n (r_last_i u') (r_last_j u') \<and>
    (length ps = num_tile_elements s \<or> fused_pairs s ins (r_stride u) n (r_last_i u') (r_last_j u') = []) \<and> length ps \<le> num_tile_elements s \<and>
    r_idx_j u' = length ps \<and> r_state u' = Range_Finish \<and> r_cond_tile_ready u' \<and> r_min_tile_ready u' \<and> r_max_tile_ready u' \<and>
    r_dst_i_tile u' = dst1SpdID ins \<and> r_dst_j_tile u' = dst2SpdID ins \<and> r_instruction u' = r_instruction u \<and> 0 \<le> r_last_i u' \<and>
    r_last_i u' < 2 ^ 31 \<and> - 1 \<le> r_last_j u' \<and> r_last_j u' < 2 ^ 31"
proof -
  note R = rdy[unfolded range_ready_to_run_def]
  define u1 where "u1 = u\<lparr> r_cond_tile_ready := True, r_min_tile_ready := True, r_max_tile_ready := True, r_max_i := int n \<rparr>"
  have srcs: "range_srcs u = {src1SpdID ins, src2SpdID ins} \<union> (if condSpdID ins = - 1 then {} else {condSpdID ins})"
    "range_srcs u1 = range_srcs u" unfolding range_srcs_def u1_def using f by simp_all
  have r: "range_ready u s = Inr u1" unfolding u1_def by (rule range_ready_all) (use R srcs f in auto)
  have go: "range_go u1 s n"
    using R i j f unfolding range_go_def srcs unfolding u1_def by auto
  have "n \<le> num_tile_elements s" "r_last_i u1 = r_last_i u" using R unfolding u1_def by auto
  then have "nat (int n - r_last_i u1) < num_tile_elements s + 1" using i by linarith
  then obtain u2 s2 c ps where l: "range_loop (num_tile_elements s + 1) u1 s no_range_counts = Inr (It_break, u2, s2, c)"
    and e: "loop_effect u1 s n u2 s2 ps" using range_loop_complete[OF go] by blast
  have g2: "range_go u2 s2 n" using e unfolding loop_effect_def by blast
  define u3 where "u3 = u2\<lparr> r_cond_tile_ready := True, r_min_tile_ready := True, r_max_tile_ready := True \<rparr>"
  note st = range_staticD[OF e[unfolded loop_effect_def, THEN conjunct1]]
  have "{r_dst_i_tile u3, r_dst_j_tile u3} \<subseteq> {0..<int (num_tiles s2)}" "spd_wf s2"
    using g2 unfolding range_go_def u3_def by simp_all
  then obtain us t1 t2 t3 s3 where lat: "range_updateLatency env u3 s2 c = Inr (us, u3\<lparr> r_SPD_read_finish_tick := t1,
      r_SPD_write_finish_tick := t2, r_compute_finish_tick := t3 \<rparr>, s3)" and q: "quiet s2 s3"
    using range_updateLatency_ok ok by meson
  define u4 where "u4 = u3\<lparr> r_SPD_read_finish_tick := t1, r_SPD_write_finish_tick := t2, r_compute_finish_tick := t3 \<rparr>"
  have w: "range_work env u s = Inr (no_out\<lparr> out_waked := us, out_sched := range_scheduleNextExecution env u4 True \<rparr>,
      u4\<lparr> r_state := Range_Finish \<rparr>, s3)"
    unfolding range_work_def r rbind.simps l prod.case iter_out.case lat[unfolded u3_def] unfolding u4_def u3_def ..
  have pl: "pairs_left v s n = fused_pairs s ins (r_stride u) n (r_last_i v) (r_last_j v)" if "v = u1 \<or> v = u2" for v
    using that st f unfolding pairs_left_def fused_pairs_def u1_def by auto
  have p: "pairs_written (dst1SpdID ins) (dst2SpdID ins) s 0 ps s2" and k: "r_idx_j u2 = length ps"
    and fp: "fused_pairs s ins (r_stride u) n (r_last_i u) (r_last_j u) = ps @ fused_pairs s ins (r_stride u) n (r_last_i u2) (r_last_j u2)"
      "length ps = num_tile_elements s \<or> fused_pairs s ins (r_stride u) n (r_last_i u2) (r_last_j u2) = []"
    using e pl f unfolding loop_effect_def u1_def by auto
  have N: "num_tile_elements s2 = num_tile_elements s" using e unfolding loop_effect_def pairs_written_def by blast
  have b: "length ps \<le> num_tile_elements s" "0 \<le> r_last_i u2" "r_last_i u2 < 2 ^ 31" "- 1 \<le> r_last_j u2" "r_last_j u2 < 2 ^ 31"
    using g2 k N unfolding range_go_def by auto
  define u5 where "u5 = u4\<lparr> r_state := Range_Finish \<rparr>"
  have F: "r_last_i u5 = r_last_i u2" "r_last_j u5 = r_last_j u2" "r_idx_j u5 = length ps" "r_state u5 = Range_Finish" "r_cond_tile_ready u5"
    "r_min_tile_ready u5" "r_max_tile_ready u5" "r_dst_i_tile u5 = dst1SpdID ins" "r_dst_j_tile u5 = dst2SpdID ins" "r_instruction u5 = r_instruction u"
    unfolding u5_def u4_def u3_def using k st f unfolding u1_def by simp_all
  show ?thesis
    by - (rule exI, rule exI, rule exI, rule exI[of _ s2], rule exI[of _ ps], rule conjI[OF w[folded u5_def]], use q p fp b F in simp)
qed

lemma setSize_other:
  assumes "setSize s t k = Inr s'"
  shows "nat t \<noteq> m \<Longrightarrow> tiles_size s' ! m = tiles_size s ! m" "spd_wf s \<Longrightarrow> spd_wf s'"
    "num_tiles s' = num_tiles s" "num_tile_elements s' = num_tile_elements s"
proof -
  have "spd_step s s'" using assms step_size by blast
  then show "spd_wf s \<Longrightarrow> spd_wf s'" "num_tiles s' = num_tiles s" "num_tile_elements s' = num_tile_elements s"
    using spd_step_wf spd_step_dims by blast+
  show "nat t \<noteq> m \<Longrightarrow> tiles_size s' ! m = tiles_size s ! m"
    using assms unfolding setSize_def arr_set_def by (auto simp: rbind_eq_Inr split: if_splits)
qed

lemma range_finish_ok:
  assumes "r_cond_tile_ready u" "r_min_tile_ready u" "r_max_tile_ready u" "r_idx_j u \<le> num_tile_elements s" and wf: "spd_wf s"
    and t: "0 \<le> r_dst_i_tile u" "r_dst_i_tile u < int (num_tiles s)" "0 \<le> r_dst_j_tile u" "r_dst_j_tile u < int (num_tiles s)" "r_dst_i_tile u \<noteq> r_dst_j_tile u"
    and g: "rf_getData_u32 r (dst1RegID ins) = Inr x" "rf_getData_u32 r (dst2RegID ins) = Inr y" "dst1RegID ins \<noteq> dst2RegID ins"
  obtains s2 r2 where "range_finish u s r ins = Inr (no_out\<lparr> out_finished := Some (ins\<lparr> istate := Instr_Finish \<rparr>) \<rparr>,
      u\<lparr> r_state := Range_Idle, r_instruction := None \<rparr>, s2, r2)" "\<forall>t' e. getData_u32 s2 t' e = getData_u32 s t' e"
    "sint (tiles_size s2 ! nat (r_dst_i_tile u)) = int (r_idx_j u)" "sint (tiles_size s2 ! nat (r_dst_j_tile u)) = int (r_idx_j u)"
    "rf_getData_u32 r2 (dst1RegID ins) = Inr (word_of_int (r_last_i u))" "rf_getData_u32 r2 (dst2RegID ins) = Inr (word_of_int (r_last_j u))"
proof -
  obtain r1 where r1: "rf_setData_u32 r (dst1RegID ins) (word_of_int (r_last_i u)) = Inr r1" using rf_write_ok[OF g(1)] by blast
  have "rf_getData_u32 r1 (dst2RegID ins) = Inr y" using rf_read_write[OF r1] g(2,3) by simp
  then obtain r2 where r2: "rf_setData_u32 r1 (dst2RegID ins) (word_of_int (r_last_j u)) = Inr r2" using rf_write_ok by blast
  obtain s1 where s1: "setSize s (r_dst_i_tile u) (int (r_idx_j u)) = Inr s1" "\<forall>t' e. getData_u32 s1 t' e = getData_u32 s t' e"
    "sint (tiles_size s1 ! nat (r_dst_i_tile u)) = int (r_idx_j u)"
    using setSize_effect[OF wf t(1,2) assms(4)] by blast
  note o1 = setSize_other[OF s1(1)]
  obtain s2 where s2: "setSize s1 (r_dst_j_tile u) (int (r_idx_j u)) = Inr s2" "\<forall>t' e. getData_u32 s2 t' e = getData_u32 s1 t' e"
    "sint (tiles_size s2 ! nat (r_dst_j_tile u)) = int (r_idx_j u)"
    using setSize_effect[OF o1(2)[OF wf], of "r_dst_j_tile u" "r_idx_j u"] t(3,4) assms(4) o1(3,4) by auto
  have "nat (r_dst_j_tile u) \<noteq> nat (r_dst_i_tile u)" using t by linarith
  then have sz: "sint (tiles_size s2 ! nat (r_dst_i_tile u)) = int (r_idx_j u)" using setSize_other(1)[OF s2(1)] s1(3) by simp
  have rr: "rf_getData_u32 r2 (dst1RegID ins) = Inr (word_of_int (r_last_i u))" "rf_getData_u32 r2 (dst2RegID ins) = Inr (word_of_int (r_last_j u))"
    using rf_read_write[OF r1] rf_read_write[OF r2] g(3) by simp_all
  have "range_finish u s r ins = Inr (no_out\<lparr> out_finished := Some (ins\<lparr> istate := Instr_Finish \<rparr>) \<rparr>,
      u\<lparr> r_state := Range_Idle, r_instruction := None \<rparr>, s2, r2)"
    unfolding range_finish_def r1 r2 s1(1) s2(1) rbind.simps using assms(1-3) by simp
  then show thesis using that s1(2) s2(2,3) sz rr by simp
qed

lemma sint_word_of_int:
  assumes "- (2 ^ 31) \<le> x" "x < 2 ^ 31"
  shows "sint (word_of_int x :: u32) = x"
  using ret_signed_Inr[of x "word_of_int x :: u32"] assms by (simp add: ret_signed_def)

text \<open>
  C29.  The range fuser enumerates the loop nest, one tile at a time, and can be resumed.  Started on finished
  bound tiles at the position \<open>(i, j)\<close> its two registers hold, it needs two calls: the destination tiles
  receive the first pairs of the loop nest from that position on, as many as a tile holds, their size
  is the number of pairs, nothing else in the scratchpad changes, and the position left in the registers
  is the one from which the loop nest yields exactly the pairs that did not fit.
\<close>

theorem range_fuses_loop_nest:
  assumes "r_state u = Range_Idle" "r_instruction u = Some ins" "r_num_tile_elements u = num_tile_elements s"
    and regs: "rf_getData_u32 r (dst1RegID ins) = Inr li" "rf_getData_u32 r (dst2RegID ins) = Inr lj"
      "rf_getData_u32 r (src1RegID ins) = Inr st" "dst1RegID ins \<noteq> dst2RegID ins"
    and rdy: "range_ready_to_run s ins (sint st) n" and pos: "0 \<le> sint li" "- 1 \<le> sint lj" and ok: "\<And>f i. e_unit_ok env f i"
  shows "\<exists>x1 u1 s1 x2 u2 s2 r2 i' j'. range_executeInstruction env u s r = Inr (x1, u1, s1, r) \<and>
    range_executeInstruction env' u1 s1 r = Inr (x2, u2, s2, r2) \<and>
    rf_getData_u32 r2 (dst1RegID ins) = Inr i' \<and> rf_getData_u32 r2 (dst2RegID ins) = Inr j' \<and>
    (let ps = fused_pairs s ins (sint st) n (sint li) (sint lj); N = num_tile_elements s in
       (\<forall>t e. getData_u32 s2 t e =
          (if 0 \<le> e \<and> e < int (length (take N ps)) \<and> (t = dst1SpdID ins \<or> t = dst2SpdID ins)
           then Inr (word_of_int (if t = dst2SpdID ins then snd (ps ! nat e) else fst (ps ! nat e))) else getData_u32 s t e)) \<and>
       sint (tiles_size s2 ! nat (dst1SpdID ins)) = int (length (take N ps)) \<and>
       sint (tiles_size s2 ! nat (dst2SpdID ins)) = int (length (take N ps)) \<and>
       fused_pairs s ins (sint st) n (sint i') (sint j') = drop N ps) \<and>
    out_finished x2 = Some (ins\<lparr> istate := Instr_Finish \<rparr>) \<and> r_state u2 = Range_Idle \<and> r_instruction u2 = None"
proof -
  let ?ins = "ins\<lparr> istate := Instr_Service \<rparr>" and ?N = "num_tile_elements s"
  let ?P = "fused_pairs s ins (sint st) n"
  obtain u0 where d: "range_decode env u r ins = Inr u0" "r_dst_i_tile u0 = dst1SpdID ins" "r_dst_j_tile u0 = dst2SpdID ins"
    "r_cond_tile u0 = condSpdID ins" "r_min_tile u0 = src1SpdID ins" "r_max_tile u0 = src2SpdID ins" "r_last_i u0 = sint li"
    "r_last_j u0 = sint lj" "r_stride u0 = sint st" "r_max_i u0 = - 1" "r_idx_j u0 = 0" "r_cond_tile_ready u0 = (condSpdID ins = - 1)"
    "r_num_tile_elements u0 = r_num_tile_elements u" "r_instruction u0 = Some ?ins"
    by (rule range_decode_ok[OF regs(1-3)])
  have b: "sint li < 2 ^ 31" "sint lj < 2 ^ 31" using sint_bounds(2)[of li] sint_bounds(2)[of lj] by simp_all
  obtain x1 u1 s1 s0 ps where w: "range_work env u0 s = Inr (x1, u1, s1)" and q: "quiet s0 s1"
    and pw: "pairs_written (dst1SpdID ins) (dst2SpdID ins) s 0 ps s0"
    and P: "?P (sint li) (sint lj) = ps @ ?P (r_last_i u1) (r_last_j u1)" "length ps = ?N \<or> ?P (r_last_i u1) (r_last_j u1) = []" "length ps \<le> ?N"
    and f: "r_idx_j u1 = length ps" "r_state u1 = Range_Finish" "r_cond_tile_ready u1" "r_min_tile_ready u1" "r_max_tile_ready u1"
      "r_dst_i_tile u1 = dst1SpdID ins" "r_dst_j_tile u1 = dst2SpdID ins" "r_instruction u1 = Some ?ins"
      "0 \<le> r_last_i u1" "r_last_i u1 < 2 ^ 31" "- 1 \<le> r_last_j u1" "r_last_j u1 < 2 ^ 31"
    using range_work_complete[of s ins u0 n env, unfolded d(7-9,13,14), OF rdy d(2-6,10-12) assms(3) pos(1) b(1) pos(2) b(2) ok] by blast
  have tk: "take ?N (?P (sint li) (sint lj)) = ps" "drop ?N (?P (sint li) (sint lj)) = ?P (r_last_i u1) (r_last_j u1)"
    using P by auto
  have v0: "spd_wf s0" "num_tiles s0 = num_tiles s" "num_tile_elements s0 = ?N" using pw unfolding pairs_written_def by blast+
  have v1: "spd_wf s1" "num_tiles s1 = num_tiles s" "num_tile_elements s1 = ?N" "getData_u32 s1 t e = getData_u32 s0 t e" for t e
    using q v0 spd_viewD(2,6,7)[of s1 s0] unfolding quiet_def by simp_all
  have tl: "0 \<le> dst1SpdID ins" "dst1SpdID ins < int (num_tiles s1)" "0 \<le> dst2SpdID ins" "dst2SpdID ins < int (num_tiles s1)"
    "dst1SpdID ins \<noteq> dst2SpdID ins" using rdy v1(2) unfolding range_ready_to_run_def by auto
  obtain s2 r2 where fin: "range_finish u1 s1 r ?ins = Inr (no_out\<lparr> out_finished := Some (?ins\<lparr> istate := Instr_Finish \<rparr>) \<rparr>,
      u1\<lparr> r_state := Range_Idle, r_instruction := None \<rparr>, s2, r2)" "\<forall>t' e. getData_u32 s2 t' e = getData_u32 s1 t' e"
    "sint (tiles_size s2 ! nat (dst1SpdID ins)) = int (length ps)" "sint (tiles_size s2 ! nat (dst2SpdID ins)) = int (length ps)"
    "rf_getData_u32 r2 (dst1RegID ins) = Inr (word_of_int (r_last_i u1))" "rf_getData_u32 r2 (dst2RegID ins) = Inr (word_of_int (r_last_j u1))"
    using range_finish_ok[of u1 s1 r ?ins li lj, unfolded f(1,6,7) v1(3), OF f(3-5) P(3) v1(1) tl] regs(1,2,4) by auto
  have si: "sint (word_of_int (r_last_i u1) :: u32) = r_last_i u1" "sint (word_of_int (r_last_j u1) :: u32) = r_last_j u1"
    using sint_word_of_int f(9-12) by simp_all
  have pn: "ps ! nat e = ?P (sint li) (sint lj) ! nat e" if "0 \<le> e" "e < int (length ps)" for e
  proof -
    have "nat e < length ps" using that by linarith
    then show ?thesis unfolding P(1) by (simp add: nth_append)
  qed
  have dt: "getData_u32 s2 t e = (if 0 \<le> e \<and> e < int (length ps) \<and> (t = dst1SpdID ins \<or> t = dst2SpdID ins)
      then Inr (word_of_int (if t = dst2SpdID ins then snd (?P (sint li) (sint lj) ! nat e) else fst (?P (sint li) (sint lj) ! nat e)))
      else getData_u32 s t e)" for t e
    using pw fin(2) v1(4) pn unfolding pairs_written_def by simp
  have e1: "range_executeInstruction env u s r = Inr (x1, u1, s1, r)"
    unfolding range_executeInstruction_def assms(2) using assms(1) d(1) w by simp
  have e2: "range_executeInstruction env' u1 s1 r = Inr (no_out\<lparr> out_finished := Some (ins\<lparr> istate := Instr_Finish \<rparr>) \<rparr>,
      u1\<lparr> r_state := Range_Idle, r_instruction := None \<rparr>, s2, r2)"
    unfolding range_executeInstruction_def f(8) using f(2) fin(1) by simp
  show ?thesis unfolding Let_def tk
    by (intro exI conjI allI, rule e1, rule e2, rule fin(5), rule fin(6)) (use dt fin(3,4) si in simp_all)
qed

text \<open>
  The witness: two rows, \<open>j\<close> from 0 to 4 and from 1 to 6 in steps of two, and tiles of four elements, so
  that the fifth pair is left for the next instruction.
\<close>

definition range_spd_steps :: "spd res" where
  "range_spd_steps =
     rbind (setData_u32 (SPD_init 0 4 4 1 1 2 1) 0 0 0) (\<lambda>s1. rbind (setData_u32 s1 0 1 1) (\<lambda>s2.
     rbind (setData_u32 s2 1 0 4) (\<lambda>s3. rbind (setData_u32 s3 1 1 6) (\<lambda>s4.
     rbind (setSize s4 0 2) (\<lambda>s5. setSize s5 1 2)))))"

definition range_spd_demo :: spd where
  "range_spd_demo = (case range_spd_steps of Inr s \<Rightarrow> s | Inl _ \<Rightarrow> spd_demo)"

definition range_rf_demo :: rf where
  "range_rf_demo = (case rbind (rf_setData_u32 (RF_init 4) 1 (- 1)) (\<lambda>r. rf_setData_u32 r 2 2) of Inr r \<Rightarrow> r | Inl _ \<Rightarrow> RF_init 4)"

definition range_ins_demo :: Instruction where
  "range_ins_demo = (Instruction_init 0 0 0 COMPUTE)\<lparr> opcode := RANGE_LOOP, src1SpdID := 0, src2SpdID := 1,
     dst1SpdID := 2, dst2SpdID := 3, dst1RegID := 0, dst2RegID := 1, src1RegID := 2 \<rparr>"

definition range_demo :: range_unit where
  "range_demo = \<lparr> r_state = Range_Idle, r_instruction = Some range_ins_demo, my_range_id = 0, r_num_tile_elements = 4,
     r_dst_i_tile = - 1, r_dst_j_tile = - 1, r_cond_tile = - 1, r_min_tile = - 1, r_max_tile = - 1,
     r_cond_tile_ready = False, r_min_tile_ready = False, r_max_tile_ready = False, r_last_i = 0, r_last_j = 0, r_stride = 0,
     r_max_i = - 1, r_idx_j = 0, r_SPD_read_finish_tick = 0, r_SPD_write_finish_tick = 0, r_compute_finish_tick = 0,
     r_decode_start_tick = 0 \<rparr>"

lemma range_demo_data:
  "tiles_data range_spd_demo = [0,0,0,0, 1,0,0,0, 0,0,0,0, 0,0,0,0, 4,0,0,0, 6,0,0,0] @ replicate 40 0"
  "tiles_size range_spd_demo = [2, 2, 0, 0]" "tiles_status range_spd_demo = replicate 4 Tile_Finished"
  "element_finished range_spd_demo = replicate 16 True" "num_tiles range_spd_demo = 4" "num_tile_elements range_spd_demo = 4"
  by code_simp+

lemma range_demo_wf: "spd_wf range_spd_demo"
proof -
  have "is_ok range_spd_steps" by code_simp
  then obtain x where x: "range_spd_steps = Inr x" by (rule is_okE)
  have "range_spd_steps = Inr range_spd_demo" unfolding range_spd_demo_def x sum.case ..
  then have "spd_step\<^sup>*\<^sup>* (SPD_init 0 4 4 1 1 2 1) range_spd_demo"
    unfolding range_spd_steps_def rbind_eq_Inr setData_u32_def using step_setData step_size
    by (meson converse_rtranclp_into_rtranclp rtranclp.rtrancl_refl)
  moreover have "spd_wf (SPD_init 0 4 4 1 1 2 1)" by (simp add: SPD_init_def spd_wf_def list_all_length)
  ultimately show ?thesis by (induction rule: rtranclp_induct) (auto intro: spd_step_wf)
qed

lemma range_demo_elems:
  "elem_at range_spd_demo 0 0 = 0" "elem_at range_spd_demo 0 1 = 1" "elem_at range_spd_demo 1 0 = 4" "elem_at range_spd_demo 1 1 = 6"
  by code_simp+

lemma range_demo_ready: "range_ready_to_run range_spd_demo range_ins_demo 2 2"
proof -
  have i: "src1SpdID range_ins_demo = 0" "src2SpdID range_ins_demo = 1" "condSpdID range_ins_demo = - 1"
    "dst1SpdID range_ins_demo = 2" "dst2SpdID range_ins_demo = 3" by code_simp+
  have d: "tile_done range_spd_demo t 2" if "t = 0 \<or> t = 1" for t
    using that unfolding tile_done_def finished_slot_def range_demo_data by auto
  have e: "elem_at range_spd_demo 0 i < 2 ^ 31 \<and> elem_at range_spd_demo 1 i + 2 < 2 ^ 31" if "0 \<le> i \<and> i < int 2" for i
  proof -
    have "i = 0 \<or> i = 1" using that by linarith
    then show ?thesis using range_demo_elems by auto
  qed
  show ?thesis unfolding range_ready_to_run_def i range_demo_data using range_demo_wf d e by simp
qed

theorem range_fuses_loop_nest_witness:
  "\<exists>x1 u1 s1 x2 u2 s2 r2 i' j'. range_executeInstruction env_demo range_demo range_spd_demo range_rf_demo = Inr (x1, u1, s1, range_rf_demo) \<and>
     range_executeInstruction env_demo u1 s1 range_rf_demo = Inr (x2, u2, s2, r2) \<and>
     getData_u32 s2 2 3 = Inr 1 \<and> getData_u32 s2 3 3 = Inr 3 \<and> sint (tiles_size s2 ! 2) = 4 \<and>
     rf_getData_u32 r2 0 = Inr i' \<and> rf_getData_u32 r2 1 = Inr j' \<and> fused_pairs range_spd_demo range_ins_demo 2 2 (sint i') (sint j') = [(1, 5)]"
proof -
  have i: "dst1RegID range_ins_demo = 0" "dst2RegID range_ins_demo = 1" "src1RegID range_ins_demo = 2"
    "dst1SpdID range_ins_demo = 2" "dst2SpdID range_ins_demo = 3" by code_simp+
  have r: "rf_getData_u32 range_rf_demo 0 = Inr 0" "rf_getData_u32 range_rf_demo 1 = Inr (- 1)" "rf_getData_u32 range_rf_demo 2 = Inr 2"
    by code_simp+
  have st: "sint (2 :: u32) = 2" "sint (0 :: u32) = 0" "sint (- 1 :: u32) = - 1" by simp_all
  have u: "r_state range_demo = Range_Idle" "r_instruction range_demo = Some range_ins_demo" "r_num_tile_elements range_demo = num_tile_elements range_spd_demo"
    unfolding range_demo_data by (simp_all add: range_demo_def)
  have p: "fused_pairs range_spd_demo range_ins_demo 2 2 0 (- 1) = [(0, 0), (0, 2), (1, 1), (1, 3), (1, 5)]" by code_simp
  note T = range_fuses_loop_nest[OF u, of range_rf_demo 0 "- 1" 2 2 env_demo env_demo, unfolded i st p range_demo_data Let_def,
      OF r _ range_demo_ready]
  show ?thesis using T by (fastforce simp: env_demo_def)
qed

end
