(* ===== verification/Addr_Map.thy ===== *)
theory Addr_Map
  imports MAA_Prelude
begin

text \<open>
  How physical addresses reach the DRAM and the row table: the address decomposition of \<open>MAA.cc\<close>
  (\<open>slice_lower_bits\<close>, \<open>map_addr\<close>, \<open>channel_addr\<close>, \<open>core_addr\<close>, \<open>writeRowKey\<close>), the row-table
  configurations built by \<open>IndirectAccessUnit::allocate\<close>, and the two functions that choose a slice
  and a row of a slice for a DRAM location (\<open>getRowTableIdx\<close>, \<open>getGrowAddr\<close>).  The organisation of
  the DRAM (\<open>m_org\<close>, \<open>m_addr_bits\<close>, \<open>m_tx_offset\<close>, \<open>m_row_bits_idx\<close>) comes from the memory simulator
  and is a parameter.  The coordinates are not negative, where division and remainder of C++ and of the
  integers agree.
\<close>

section \<open>Address decomposition\<close>

text \<open>The levels, in the order of \<open>MAA.hh\<close>: channel, rank, bank group, bank, row, column.\<close>

record dram =
  m_org :: "nat list"
  m_addr_bits :: "nat list"
  m_num_levels :: nat
  m_tx_offset :: nat
  m_row_bits_idx :: nat

fun calc_log2 :: "nat \<Rightarrow> nat" where
  "calc_log2 v = (if v div 2 = 0 then 0 else Suc (calc_log2 (v div 2)))"

declare calc_log2.simps [simp del]

text \<open>The mask \<open>(1 << bits) - 1\<close> is computed in a C++ \<open>int\<close>.\<close>

definition slice_lower_bits :: "u64 \<Rightarrow> nat \<Rightarrow> (int \<times> u64) res" where
  "slice_lower_bits addr bits =
     (if bits < 31 then Inr (uint (addr AND mask bits), drop_bit bits addr) else Inl Undefined_Arith)"

fun slice_levels :: "nat list \<Rightarrow> nat list \<Rightarrow> u64 \<Rightarrow> int list \<Rightarrow> int list res" where
  "slice_levels bits [] addr v = Inr v"
| "slice_levels bits (l # ls) addr v =
     rbind (arr_get bits (int l)) (\<lambda>b.
     rbind (slice_lower_bits addr b) (\<lambda>(x, addr').
     rbind (arr_set v (int l) x) (\<lambda>v'. slice_levels bits ls addr' v')))"

definition map_addr :: "dram \<Rightarrow> Addr \<Rightarrow> int list res" where
  "map_addr d addr =
     slice_levels (m_addr_bits d) (0 # (length (m_addr_bits d) - 1) # [1..<Suc (m_row_bits_idx d)])
       (drop_bit (m_tx_offset d) addr) (replicate (m_num_levels d) (- 1))"

definition channel_addr :: "dram \<Rightarrow> Addr \<Rightarrow> int res" where
  "channel_addr d addr =
     rbind (arr_get (m_addr_bits d) 0) (\<lambda>b.
     rbind (slice_lower_bits (drop_bit (m_tx_offset d) addr) b) (\<lambda>(x, _). Inr x))"

definition core_addr :: "dram \<Rightarrow> nat \<Rightarrow> Addr \<Rightarrow> int res" where
  "core_addr d num_cores addr =
     rbind (slice_lower_bits (drop_bit (m_tx_offset d) addr) (calc_log2 num_cores)) (\<lambda>(x, _). Inr x)"

definition writeRowKey :: "dram \<Rightarrow> Addr \<Rightarrow> (u64 \<times> Addr) res" where
  "writeRowKey d paddr =
     rbind (map_addr d paddr) (\<lambda>v.
     rbind (arr_get v 1) (\<lambda>ra. rbind (arr_get v 2) (\<lambda>bg. rbind (arr_get v 3) (\<lambda>ba. rbind (arr_get v 4) (\<lambda>ro.
       Inr ((word_of_int ra * 1024 + word_of_int bg) * 1024 + word_of_int ba, word_of_int ro))))))"

section \<open>Row-table configurations\<close>

record rt_config =
  rc_slices :: nat
  rc_rows_total :: nat
  rc_subslices :: nat
  rc_columns :: nat
  rc_grows :: nat
  rc_org :: "nat list"
  rc_order :: "int list"

text \<open>How many slices each level of the organisation is split into.\<close>

fun slice_org :: "nat list \<Rightarrow> nat \<Rightarrow> nat list res" where
  "slice_org [] remaining_banks = Inr []"
| "slice_org (m # ms) remaining_banks =
     (if remaining_banks > m then
        if m = 0 then Inl Undefined_Arith
        else if remaining_banks mod m \<noteq> 0 then Inl Assert_Fail
        else rbind (slice_org ms (remaining_banks div m)) (\<lambda>r. Inr (m # r))
      else if remaining_banks > 0 then rbind (slice_org ms 0) (\<lambda>r. Inr (remaining_banks # r))
      else rbind (slice_org ms 0) (\<lambda>r. Inr (1 # r)))"

definition getRowTableIdx :: "rt_config \<Rightarrow> int \<Rightarrow> int \<Rightarrow> int \<Rightarrow> int \<Rightarrow> int res" where
  "getRowTableIdx c channel rank bankgroup bank =
     (let org = (\<lambda>k. int (rc_org c ! k));
          i0 = channel mod org 0;
          i1 = i0 * org 1 + rank mod org 1;
          i2 = i1 * org 2 + bankgroup mod org 2;
          i3 = i2 * org 3 + bank mod org 3
      in if i3 \<ge> int (rc_slices c) then Inl Panic else Inr i3)"

text \<open>The row address is computed in 64-bit arithmetic.\<close>

definition getGrowAddr :: "dram \<Rightarrow> rt_config \<Rightarrow> int \<Rightarrow> int \<Rightarrow> int \<Rightarrow> Addr res" where
  "getGrowAddr d c bankgroup bank row =
     (let org = (\<lambda>k. int (rc_org c ! k));
          g0 = (word_of_int (bankgroup div org 2) :: Addr);
          g1 = g0 * word_of_nat (m_org d ! 3) + word_of_int (bank div org 3);
          g2 = g1 * word_of_nat (m_org d ! 4) + word_of_int (row div org 4)
      in if rc_org c ! 4 \<noteq> 1 then Inl Assert_Fail
         else if g2 \<ge> word_of_nat (rc_grows c) then Inl Panic else Inr g2)"

text \<open>The order in which the slices are visited: the first occurrence of each slice index.\<close>

definition all_banks :: "dram \<Rightarrow> (int \<times> int \<times> int \<times> int) list" where
  "all_banks d =
     [(int ch, int ra, int bg, int ba). ba \<leftarrow> [0..<m_org d ! 3], bg \<leftarrow> [0..<m_org d ! 2],
        ra \<leftarrow> [0..<m_org d ! 1], ch \<leftarrow> [0..<m_org d ! 0]]"

fun order_loop :: "rt_config \<Rightarrow> (int \<times> int \<times> int \<times> int) list \<Rightarrow> int list \<Rightarrow> int list res" where
  "order_loop c [] order = Inr order"
| "order_loop c ((ch, ra, bg, ba) # bs) order =
     rbind (getRowTableIdx c ch ra bg ba) (\<lambda>i.
       order_loop c bs (if i \<in> set order then order else order @ [i]))"

definition rt_config_at :: "dram \<Rightarrow> nat \<Rightarrow> nat \<Rightarrow> nat \<Rightarrow> nat \<Rightarrow> nat \<Rightarrow> rt_config res" where
  "rt_config_at d slices rows_total subslices columns grows =
     (if columns = 0 then Inl Panic
      else rbind (slice_org (m_org d) slices) (\<lambda>org.
        let c = \<lparr> rc_slices = slices, rc_rows_total = rows_total, rc_subslices = subslices, rc_columns = columns,
                  rc_grows = grows, rc_org = org, rc_order = [] \<rparr> in
        rbind (order_loop c (all_banks d) []) (\<lambda>order.
          if length order \<noteq> slices then Inl Panic else Inr (c\<lparr> rc_order := order \<rparr>))))"

text \<open>The configurations: twice the slices, half the columns, from one to the next.\<close>

primrec rt_configs :: "nat \<Rightarrow> dram \<Rightarrow> nat \<Rightarrow> nat \<Rightarrow> nat \<Rightarrow> nat \<Rightarrow> nat \<Rightarrow> rt_config list res" where
  "rt_configs 0 d slices rows_total subslices columns grows = Inr []"
| "rt_configs (Suc k) d slices rows_total subslices columns grows =
     rbind (rt_config_at d slices rows_total subslices columns grows) (\<lambda>c.
     rbind (rt_configs k d (slices * 2) (rows_total * 2) (subslices div 2) (columns div 2) (grows div 2)) (\<lambda>cs.
       Inr (c # cs)))"

text \<open>
  The number of configurations is the integer part of the binary logarithm of the quotient of the two
  counts, plus one; a quotient below one is at least one half.
\<close>

definition rt_allocate :: "dram \<Rightarrow> nat \<Rightarrow> nat \<Rightarrow> rt_config list res" where
  "rt_allocate d rows_per_slice entries_per_subslice_row =
     (let min_slices = m_org d ! 0 * m_org d ! 1 * 2;
          total = m_org d ! 0 * m_org d ! 1 * m_org d ! 2 * m_org d ! 3;
          num = (if total < min_slices then 0 else calc_log2 (total div min_slices) + 1)
      in rt_configs num d min_slices (min_slices * rows_per_slice) (total div min_slices)
           (entries_per_subslice_row * (total div min_slices)) (2 * m_org d ! 3 * m_org d ! 4))"

section \<open>Organisations with powers of two\<close>

text \<open>Bank groups and banks are powers of two, as in every DRAM standard.\<close>

definition pow2_org :: "dram \<Rightarrow> nat \<Rightarrow> nat \<Rightarrow> nat \<Rightarrow> nat \<Rightarrow> nat \<Rightarrow> nat \<Rightarrow> bool" where
  "pow2_org d CH RA b a RO CO \<longleftrightarrow>
     m_org d = [CH, RA, 2 ^ b, 2 ^ a, RO, CO] \<and> 0 < CH \<and> 0 < RA \<and> 0 < RO \<and> 1 \<le> a + b"

lemma calc_log2_pow2: "calc_log2 (2 ^ k) = k"
proof (induction k)
  case 0 then show ?case by (simp add: calc_log2.simps)
next
  case (Suc k)
  have "(2 :: nat) ^ Suc k div 2 = 2 ^ k" by simp
  then show ?case using Suc by (subst calc_log2.simps) simp
qed

lemma slice_org_pow2:
  assumes "pow2_org d CH RA b a RO CO" "1 \<le> k" "k \<le> a + b"
  shows "slice_org (m_org d) (CH * RA * 2 ^ k) = Inr [CH, RA, 2 ^ min b k, 2 ^ (k - b), 1, 1]"
proof -
  have p: "0 < CH" "0 < RA" "m_org d = [CH, RA, 2 ^ b, 2 ^ a, RO, CO]" using assms(1) unfolding pow2_org_def by auto
  have two: "(2 :: nat) \<le> 2 ^ k" using assms(2) by (cases k) auto
  have big: "m < m * n * 2 ^ k" if "0 < m" "0 < n" for m n :: nat
  proof -
    have "m * 2 \<le> m * n * 2 ^ k" using that two by (simp add: mult_le_mono)
    then show ?thesis using that by linarith
  qed
  have c: "CH < CH * RA * 2 ^ k" "RA < RA * 2 ^ k" using big[OF p(1,2)] big[of RA 1] p(2) by simp_all
  have dv: "CH * RA * 2 ^ k div CH = RA * 2 ^ k" "RA * 2 ^ k div RA = 2 ^ k" "CH * RA * 2 ^ k mod CH = 0" "RA * 2 ^ k mod RA = 0"
    using p by (simp_all add: mult.assoc)
  have tail: "slice_org [2 ^ b, 2 ^ a, RO, CO] (2 ^ k) = Inr [2 ^ min b k, 2 ^ (k - b), 1, 1]"
  proof (cases "k \<le> b")
    case True
    then show ?thesis by (simp add: min_absorb2 power_increasing not_less)
  next
    case False
    then have kb: "(2 :: nat) ^ k = 2 ^ (k - b) * 2 ^ b" by (simp flip: power_add)
    have "\<not> (2 :: nat) ^ a < 2 ^ (k - b)" using assms(3) by (simp add: not_less power_increasing)
    moreover have "(2 :: nat) ^ b < 2 ^ k" using False by simp
    moreover have "(2 :: nat) ^ k div 2 ^ b = 2 ^ (k - b)" "(2 :: nat) ^ k mod 2 ^ b = 0" unfolding kb by simp_all
    ultimately show ?thesis using False by (simp add: min_absorb1)
  qed
  have nz: "(CH = 0) = False" "(RA = 0) = False" using p by simp_all
  show ?thesis unfolding p(3)
    by (simp only: slice_org.simps(2)[of CH] slice_org.simps(2)[of RA] c dv tail nz if_True if_False rbind.simps simp_thms)
qed

text \<open>The digits of a slice index.\<close>

lemma digit_bound: "(x :: int) < m \<Longrightarrow> 0 \<le> y \<Longrightarrow> y < n \<Longrightarrow> x * n + y < m * n"
proof -
  assume "x < m" "0 \<le> y" "y < n"
  then have "x * n + y < x * n + n" "(x + 1) * n \<le> m * n" by (auto intro: mult_right_mono)
  then show ?thesis by (simp add: distrib_right)
qed

lemma digit_unique: "(x :: int) * n + y = x' * n + y' \<Longrightarrow> 0 \<le> y \<Longrightarrow> y < n \<Longrightarrow> 0 \<le> y' \<Longrightarrow> y' < n \<Longrightarrow> x = x' \<and> y = y'"
proof -
  assume e: "x * n + y = x' * n + y'" and b: "0 \<le> y" "y < n" "0 \<le> y'" "y' < n"
  have "(x * n + y) div n = x" "(x' * n + y') div n = x'" using b by simp_all
  then show ?thesis using e by simp
qed

lemma div_mod_unique: "(x :: int) div n = x' div n \<Longrightarrow> x mod n = x' mod n \<Longrightarrow> x = x'"
  by (metis div_mult_mod_eq)

text \<open>What a configuration with \<open>2 ^ k\<close> slices per rank looks like.\<close>

definition config_of :: "dram \<Rightarrow> nat \<Rightarrow> rt_config \<Rightarrow> bool" where
  "config_of d k c \<longleftrightarrow> (\<exists>CH RA b a RO CO. pow2_org d CH RA b a RO CO \<and> 1 \<le> k \<and> k \<le> a + b \<and>
     rc_slices c = CH * RA * 2 ^ k \<and> rc_org c = [CH, RA, 2 ^ min b k, 2 ^ (k - b), 1, 1] \<and>
     rc_grows c = 2 ^ Suc a * RO div 2 ^ (k - 1))"

definition in_dram :: "dram \<Rightarrow> int \<Rightarrow> int \<Rightarrow> int \<Rightarrow> int \<Rightarrow> bool" where
  "in_dram d ch ra bg ba \<longleftrightarrow> 0 \<le> ch \<and> ch < int (m_org d ! 0) \<and> 0 \<le> ra \<and> ra < int (m_org d ! 1) \<and>
     0 \<le> bg \<and> bg < int (m_org d ! 2) \<and> 0 \<le> ba \<and> ba < int (m_org d ! 3)"

lemma getRowTableIdx_value:
  assumes p: "pow2_org d CH RA b a RO CO" and k: "k \<le> a + b" and r: "in_dram d ch ra bg ba"
    and c: "rc_slices c = CH * RA * 2 ^ k" "rc_org c = [CH, RA, 2 ^ min b k, 2 ^ (k - b), 1, 1]"
  shows "getRowTableIdx c ch ra bg ba = Inr (((ch * int RA + ra) * 2 ^ min b k + bg mod 2 ^ min b k) * 2 ^ (k - b) + ba mod 2 ^ (k - b))"
    "((ch * int RA + ra) * 2 ^ min b k + bg mod 2 ^ min b k) * 2 ^ (k - b) + ba mod 2 ^ (k - b) < int (CH * RA * 2 ^ k)"
    "0 \<le> ((ch * int RA + ra) * 2 ^ min b k + bg mod 2 ^ min b k) * 2 ^ (k - b) + ba mod 2 ^ (k - b)"
proof -
  have o: "m_org d = [CH, RA, 2 ^ b, 2 ^ a, RO, CO]" using p unfolding pow2_org_def by auto
  have b: "0 \<le> ch" "ch < int CH" "0 \<le> ra" "ra < int RA" using r unfolding in_dram_def o by auto
  have m: "min b k + (k - b) = k" by (cases "b \<le> k") auto
  have "((ch * int RA + ra) * 2 ^ min b k + bg mod 2 ^ min b k) * 2 ^ (k - b) + ba mod 2 ^ (k - b)
      < int CH * int RA * 2 ^ min b k * 2 ^ (k - b)"
    using b by (intro digit_bound) simp_all
  also have "\<dots> = int (CH * RA * 2 ^ k)" using m by (simp add: mult.assoc flip: power_add)
  finally show lt: "((ch * int RA + ra) * 2 ^ min b k + bg mod 2 ^ min b k) * 2 ^ (k - b) + ba mod 2 ^ (k - b) < int (CH * RA * 2 ^ k)" .
  then show "getRowTableIdx c ch ra bg ba = Inr (((ch * int RA + ra) * 2 ^ min b k + bg mod 2 ^ min b k) * 2 ^ (k - b) + ba mod 2 ^ (k - b))"
    using b unfolding getRowTableIdx_def Let_def c by simp
  show "0 \<le> ((ch * int RA + ra) * 2 ^ min b k + bg mod 2 ^ min b k) * 2 ^ (k - b) + ba mod 2 ^ (k - b)"
    using b by simp
qed

lemma order_loop_set:
  assumes "\<forall>(ch, ra, bg, ba) \<in> set bs. getRowTableIdx c ch ra bg ba = Inr (f (ch, ra, bg, ba))" "distinct order"
  shows "\<exists>order'. order_loop c bs order = Inr order' \<and> distinct order' \<and> set order' = set order \<union> f ` set bs"
  using assms
proof (induction bs arbitrary: order)
  case (Cons x bs)
  obtain ch ra bg ba where x: "x = (ch, ra, bg, ba)" by (cases x) auto
  let ?o = "if f x \<in> set order then order else order @ [f x]"
  have g: "getRowTableIdx c ch ra bg ba = Inr (f x)" using Cons.prems(1) unfolding x by auto
  have "distinct ?o" "set ?o = insert (f x) (set order)" using Cons.prems(2) by auto
  moreover obtain order' where "order_loop c bs ?o = Inr order'" "distinct order'" "set order' = set ?o \<union> f ` set bs"
    using Cons.IH[OF _ \<open>distinct ?o\<close>] Cons.prems(1) by auto
  ultimately show ?case using g unfolding x by auto
qed simp

lemma all_banks_set: "set (all_banks d) = {(ch, ra, bg, ba). in_dram d ch ra bg ba}"
proof (intro equalityI subsetI)
  fix x assume "x \<in> {(ch, ra, bg, ba). in_dram d ch ra bg ba}"
  then obtain ch ra bg ba where x: "x = (ch, ra, bg, ba)" "in_dram d ch ra bg ba" by auto
  then obtain c0 r0 g0 b0 where e: "ch = int c0" "ra = int r0" "bg = int g0" "ba = int b0"
    unfolding in_dram_def by (metis nonneg_int_cases)
  then have "c0 < m_org d ! 0" "r0 < m_org d ! 1" "g0 < m_org d ! 2" "b0 < m_org d ! 3" using x unfolding in_dram_def by auto
  then show "x \<in> set (all_banks d)" unfolding all_banks_def x(1) e
    by - (simp, rule bexI[of _ b0], rule bexI[of _ g0], rule bexI[of _ r0], simp_all)
qed (auto simp: all_banks_def in_dram_def)

lemma div_bound: "(x :: int) < m * n \<Longrightarrow> 0 < n \<Longrightarrow> x div n < m"
proof (rule ccontr)
  assume a: "x < m * n" "0 < n" "\<not> x div n < m"
  then have "m * n \<le> x div n * n" by (simp add: mult_right_mono)
  moreover have "x div n * n \<le> x" using a(2) pos_mod_sign[of n x] by (simp add: minus_mod_eq_div_mult[symmetric])
  ultimately show False using a(1) by linarith
qed

lemma slice_index_surj:
  assumes p: "pow2_org d CH RA b a RO CO" and k: "k \<le> a + b" and x: "0 \<le> x" "x < int (CH * RA * 2 ^ k)"
  shows "\<exists>ch ra bg ba. in_dram d ch ra bg ba \<and>
    ((ch * int RA + ra) * 2 ^ min b k + bg mod 2 ^ min b k) * 2 ^ (k - b) + ba mod 2 ^ (k - b) = x"
proof -
  have o: "m_org d = [CH, RA, 2 ^ b, 2 ^ a, RO, CO]" "0 < RA" using p unfolding pow2_org_def by auto
  define A B where "A = (2 :: int) ^ (k - b)" and "B = (2 :: int) ^ min b k"
  have AB: "0 < A" "0 < B" "A \<le> 2 ^ a" "B \<le> 2 ^ b" unfolding A_def B_def using k by (simp_all add: power_increasing)
  have m: "min b k + (k - b) = k" by (cases "b \<le> k") auto
  have "B * A = 2 ^ k" unfolding A_def B_def using m by (simp flip: power_add)
  then have x2: "x < int CH * int RA * (B * A)" using x(2) by simp
  let ?y = "x div A" let ?z = "?y div B"
  have "?z = x div (B * A)" using AB by (simp add: zdiv_zmult2_eq mult.commute)
  then have z: "?z < int CH * int RA" "0 \<le> ?z" 
    using div_bound[OF x2] x(1) AB by (simp_all add: pos_imp_zdiv_nonneg_iff)
  have ch: "?z div int RA < int CH" "0 \<le> ?z div int RA" 
    using div_bound[OF z(1)] z(2) o(2) by (simp_all add: pos_imp_zdiv_nonneg_iff)
  have bb: "0 \<le> ?y mod B" "?y mod B < B" "0 \<le> x mod A" "x mod A < A" using AB by simp_all
  then have "?y mod B < 2 ^ b" "x mod A < 2 ^ a" using AB by linarith+
  then have "in_dram d (?z div int RA) (?z mod int RA) (?y mod B) (x mod A)"
    using ch bb o(2) unfolding in_dram_def o(1) by simp
  moreover have "((?z div int RA * int RA + ?z mod int RA) * B + (?y mod B) mod B) * A + (x mod A) mod A = x"
    by (simp add: mult.commute)
  ultimately show ?thesis unfolding A_def B_def by blast
qed

lemma rt_config_at_ok:
  assumes p: "pow2_org d CH RA b a RO CO" and k: "1 \<le> k" "k \<le> a + b" and col: "0 < columns"
  shows "\<exists>c. rt_config_at d (CH * RA * 2 ^ k) rows subs columns (2 ^ Suc a * RO div 2 ^ (k - 1)) = Inr c \<and> config_of d k c \<and>
    rc_columns c = columns \<and> rc_rows_total c = rows \<and> rc_subslices c = subs \<and>
    distinct (rc_order c) \<and> set (rc_order c) = {0..<int (rc_slices c)}"
proof -
  define c where "c = \<lparr> rc_slices = CH * RA * 2 ^ k, rc_rows_total = rows, rc_subslices = subs, rc_columns = columns,
    rc_grows = 2 ^ Suc a * RO div 2 ^ (k - 1), rc_org = [CH, RA, 2 ^ min b k, 2 ^ (k - b), 1, 1], rc_order = [] \<rparr>"
  have cf: "rc_slices c = CH * RA * 2 ^ k" "rc_org c = [CH, RA, 2 ^ min b k, 2 ^ (k - b), 1, 1]" unfolding c_def by simp_all
  let ?f = "\<lambda>(ch, ra, bg, ba). ((ch * int RA + ra) * 2 ^ min b k + bg mod 2 ^ min b k) * 2 ^ (k - b) + ba mod 2 ^ (k - b)"
  note v = getRowTableIdx_value[OF p k(2) _ cf]
  have "\<forall>(ch, ra, bg, ba) \<in> set (all_banks d). getRowTableIdx c ch ra bg ba = Inr (?f (ch, ra, bg, ba))"
    unfolding all_banks_set Ball_def split_paired_All prod.case mem_Collect_eq using v(1) by blast
  from order_loop_set[OF this, of "[]", unfolded list.set Un_empty_left, OF distinct.simps(1)[THEN iffD2, OF TrueI]]
  obtain order where o: "order_loop c (all_banks d) [] = Inr order" "distinct order" "set order = ?f ` set (all_banks d)" by blast
  have "?f ` set (all_banks d) = {0..<int (CH * RA * 2 ^ k)}"
  proof (intro equalityI subsetI)
    fix x assume "x \<in> ?f ` set (all_banks d)"
    then obtain ch ra bg ba where "in_dram d ch ra bg ba" "x = ?f (ch, ra, bg, ba)" unfolding all_banks_set by blast
    then show "x \<in> {0..<int (CH * RA * 2 ^ k)}" unfolding atLeastLessThan_iff prod.case using v(2,3) by blast
  next
    fix x assume "x \<in> {0..<int (CH * RA * 2 ^ k)}"
    then have "0 \<le> x" "x < int (CH * RA * 2 ^ k)" unfolding atLeastLessThan_iff by blast+
    from slice_index_surj[OF p k(2) this] obtain ch ra bg ba where i: "in_dram d ch ra bg ba" and
      e: "((ch * int RA + ra) * 2 ^ min b k + bg mod 2 ^ min b k) * 2 ^ (k - b) + ba mod 2 ^ (k - b) = x" by blast
    have "(ch, ra, bg, ba) \<in> set (all_banks d)" unfolding all_banks_set using i by blast
    then show "x \<in> ?f ` set (all_banks d)" by (rule rev_image_eqI) (simp only: prod.case e)
  qed
  with o(3) have s: "set order = {0..<int (CH * RA * 2 ^ k)}" by (rule trans)
  then have l: "length order = CH * RA * 2 ^ k" using distinct_card[OF o(2)] by (simp only: card_atLeastLessThan_int)
  have "rt_config_at d (CH * RA * 2 ^ k) rows subs columns (2 ^ Suc a * RO div 2 ^ (k - 1)) = Inr (c\<lparr> rc_order := order \<rparr>)"
    unfolding rt_config_at_def slice_org_pow2[OF p k] rbind.simps Let_def c_def[symmetric] o(1) using col l by simp
  moreover have "config_of d k (c\<lparr> rc_order := order \<rparr>)"
    unfolding config_of_def
    by (rule exI[of _ CH], rule exI[of _ RA], rule exI[of _ b], rule exI[of _ a], rule exI[of _ RO], rule exI[of _ CO])
      (use p k in \<open>simp add: c_def\<close>)
  moreover have "rc_columns (c\<lparr> rc_order := order \<rparr>) = columns" "rc_rows_total (c\<lparr> rc_order := order \<rparr>) = rows"
    "rc_subslices (c\<lparr> rc_order := order \<rparr>) = subs" "rc_order (c\<lparr> rc_order := order \<rparr>) = order"
    "rc_slices (c\<lparr> rc_order := order \<rparr>) = CH * RA * 2 ^ k" unfolding c_def by simp_all
  ultimately show ?thesis using o(2) s by metis
qed

definition order_ok :: "rt_config \<Rightarrow> bool" where
  "order_ok c \<longleftrightarrow> distinct (rc_order c) \<and> set (rc_order c) = {0..<int (rc_slices c)}"

lemma rt_configs_ok:
  assumes p: "pow2_org d CH RA b a RO CO" and e: "0 < e"
  shows "1 \<le> k \<Longrightarrow> k + m = Suc (a + b) \<Longrightarrow>
    \<exists>cs. rt_configs m d (CH * RA * 2 ^ k) rows (2 ^ (a + b - k)) (e * 2 ^ (a + b - k)) (2 ^ Suc a * RO div 2 ^ (k - 1)) = Inr cs \<and>
      length cs = m \<and> (\<forall>i < m. config_of d (k + i) (cs ! i) \<and> order_ok (cs ! i) \<and> rc_columns (cs ! i) * 2 ^ (k + i) = e * 2 ^ (a + b))"
proof (induction m arbitrary: k rows)
  case (Suc m)
  have k: "1 \<le> k" "k \<le> a + b" using Suc.prems by auto
  obtain c where c: "rt_config_at d (CH * RA * 2 ^ k) rows (2 ^ (a + b - k)) (e * 2 ^ (a + b - k)) (2 ^ Suc a * RO div 2 ^ (k - 1)) = Inr c"
    "config_of d k c" "rc_columns c = e * 2 ^ (a + b - k)" "order_ok c"
    using rt_config_at_ok[OF p k, of "e * 2 ^ (a + b - k)"] e unfolding order_ok_def by force
  have h: "2 ^ Suc a * RO div 2 ^ (k - 1) div 2 = 2 ^ Suc a * RO div 2 ^ (Suc k - 1)"
    using k(1) by (simp add: div_mult2_eq[symmetric] flip: power_Suc2)
  have sl: "CH * RA * 2 ^ k * 2 = CH * RA * 2 ^ Suc k" by simp
  have cc: "rc_columns c * 2 ^ k = e * 2 ^ (a + b)" using k(2) unfolding c(3) by (simp add: mult.assoc flip: power_add)
  have "\<exists>cs. rt_configs m d (CH * RA * 2 ^ Suc k) (rows * 2) (2 ^ (a + b - k) div 2) (e * 2 ^ (a + b - k) div 2) (2 ^ Suc a * RO div 2 ^ (Suc k - 1)) = Inr cs \<and>
      length cs = m \<and> (\<forall>i < m. config_of d (Suc k + i) (cs ! i) \<and> order_ok (cs ! i) \<and> rc_columns (cs ! i) * 2 ^ (Suc k + i) = e * 2 ^ (a + b))"
  proof (cases m)
    case 0
    then show ?thesis by simp
  next
    case (Suc m')
    then have "a + b - k = Suc (a + b - Suc k)" using Suc.prems by linarith
    then have "(2 :: nat) ^ (a + b - k) = 2 ^ (a + b - Suc k) * 2" by simp
    then show ?thesis using Suc.IH[of "Suc k" "rows * 2"] Suc.prems by simp
  qed
  then obtain cs where cs: "rt_configs m d (CH * RA * 2 ^ Suc k) (rows * 2) (2 ^ (a + b - k) div 2) (e * 2 ^ (a + b - k) div 2) (2 ^ Suc a * RO div 2 ^ (Suc k - 1)) = Inr cs"
    "length cs = m" "\<And>i. i < m \<Longrightarrow> config_of d (Suc k + i) (cs ! i) \<and> order_ok (cs ! i) \<and> rc_columns (cs ! i) * 2 ^ (Suc k + i) = e * 2 ^ (a + b)"
    by blast
  have "rt_configs (Suc m) d (CH * RA * 2 ^ k) rows (2 ^ (a + b - k)) (e * 2 ^ (a + b - k)) (2 ^ Suc a * RO div 2 ^ (k - 1)) = Inr (c # cs)"
    unfolding rt_configs.simps c(1) rbind.simps sl h cs(1) ..
  moreover have "config_of d (k + i) ((c # cs) ! i) \<and> order_ok ((c # cs) ! i) \<and> rc_columns ((c # cs) ! i) * 2 ^ (k + i) = e * 2 ^ (a + b)"
    if "i < Suc m" for i
    using that c(2,4) cc cs(3)[of "i - 1"] by (cases i) auto
  ultimately show ?case using cs(2) by auto
qed simp

lemma grow_bound:
  assumes "k \<le> a + b" "0 \<le> bg" "bg < 2 ^ b" "0 \<le> ba" "ba < 2 ^ a"
  shows "bg div 2 ^ min b k * 2 ^ a + ba div 2 ^ (k - b) < (2 :: int) ^ (a + b - k)" "ba div 2 ^ (k - b) < (2 :: int) ^ a"
proof -
  have "ba div 2 ^ (k - b) \<le> ba" using assms(4) zdiv_mono2[of ba 1 "2 ^ (k - b)"] by simp
  then show lt: "ba div 2 ^ (k - b) < (2 :: int) ^ a" using assms(5) by linarith
  show "bg div 2 ^ min b k * 2 ^ a + ba div 2 ^ (k - b) < (2 :: int) ^ (a + b - k)"
  proof (cases "k \<le> b")
    case True
    then have "b = (b - k) + k" by simp
    then have "bg < 2 ^ (b - k) * 2 ^ k" using assms(3) by (metis power_add)
    then have "bg div 2 ^ k < 2 ^ (b - k)" by (intro div_bound) simp_all
    from digit_bound[OF this, of ba "2 ^ a"] show ?thesis using assms True by (simp add: min_absorb2 add.commute flip: power_add)
  next
    case False
    then have "a = (a + b - k) + (k - b)" using assms(1) by simp
    then have "ba < 2 ^ (a + b - k) * 2 ^ (k - b)" using assms(5) by (metis power_add)
    then have "ba div 2 ^ (k - b) < 2 ^ (a + b - k)" by (intro div_bound) simp_all
    then show ?thesis using assms False by (simp add: min_absorb1 div_pos_pos_trivial)
  qed
qed

lemma uint_of_int64: "0 \<le> x \<Longrightarrow> x < 2 ^ 64 \<Longrightarrow> uint (word_of_int x :: Addr) = x"
  by (simp add: uint_word_of_int)

lemma getGrowAddr_value:
  assumes p: "pow2_org d CH RA b a RO CO" and k: "1 \<le> k" "k \<le> a + b" and b2: "b \<le> 2" and big: "2 ^ Suc a * RO < 2 ^ 64"
    and r: "in_dram d ch ra bg ba" "0 \<le> ro" "ro < int RO"
    and c: "rc_org c = [CH, RA, 2 ^ min b k, 2 ^ (k - b), 1, 1]" "rc_grows c = 2 ^ Suc a * RO div 2 ^ (k - 1)"
  shows "getGrowAddr d c bg ba ro = Inr (word_of_int ((bg div 2 ^ min b k * 2 ^ a + ba div 2 ^ (k - b)) * int RO + ro))"
    "0 \<le> (bg div 2 ^ min b k * 2 ^ a + ba div 2 ^ (k - b)) * int RO + ro"
    "(bg div 2 ^ min b k * 2 ^ a + ba div 2 ^ (k - b)) * int RO + ro < 2 ^ 64"
proof -
  have o: "m_org d ! 2 = 2 ^ b" "m_org d ! 3 = 2 ^ a" "m_org d ! 4 = RO" "0 < RO" using p unfolding pow2_org_def by auto
  have bnd: "0 \<le> bg" "bg < 2 ^ b" "0 \<le> ba" "ba < 2 ^ a" using r(1) unfolding in_dram_def o by auto
  define X where "X = bg div 2 ^ min b k * 2 ^ a + ba div 2 ^ (k - b)"
  have X: "0 \<le> X" "X < 2 ^ (a + b - k)" using grow_bound(1)[OF k(2) bnd] bnd unfolding X_def by (simp_all add: pos_imp_zdiv_nonneg_iff)
  show nn: "0 \<le> X * int RO + ro" using X(1) r(2) by simp
  have lt: "X * int RO + ro < 2 ^ (a + b - k) * int RO" using digit_bound[OF X(2) r(2,3)] .
  have "2 ^ (a + b - k) * RO * 2 ^ (k - 1) = 2 ^ (a + b - 1) * RO"
    using k by (simp add: mult.commute mult.left_commute flip: power_add)
  also have "\<dots> \<le> 2 ^ Suc a * RO" using b2 by (intro mult_le_mono power_increasing) simp_all
  finally have "2 ^ (a + b - k) * RO \<le> 2 ^ Suc a * RO div 2 ^ (k - 1)" by (simp add: less_eq_div_iff_mult_less_eq)
  then have "int (2 ^ (a + b - k) * RO) \<le> int (rc_grows c)" unfolding c(2) by (simp only: of_nat_le_iff)
  then have g: "X * int RO + ro < int (rc_grows c)" using lt by simp
  have "rc_grows c \<le> 2 ^ Suc a * RO" unfolding c(2) by simp
  then have "rc_grows c < 2 ^ 64" using big by linarith
  then have gs: "int (rc_grows c) < 2 ^ 64" by (simp add: zless_nat_eq_int_zless)
  then show "X * int RO + ro < 2 ^ 64" using g by linarith
  have "uint (word_of_int (X * int RO + ro) :: Addr) = X * int RO + ro" using uint_of_int64[OF nn] g gs by linarith
  moreover have "uint (word_of_nat (rc_grows c) :: Addr) = int (rc_grows c)" using uint_of_int64[of "int (rc_grows c)"] gs by simp
  ultimately have cmp: "\<not> (word_of_nat (rc_grows c) :: Addr) \<le> word_of_int (X * int RO + ro)" using g by (simp add: word_le_def)
  have e: "((word_of_int (bg div 2 ^ min b k) :: Addr) * word_of_nat (2 ^ a) + word_of_int (ba div 2 ^ (k - b))) * word_of_nat RO + word_of_int ro
      = word_of_int (X * int RO + ro)" unfolding X_def by simp
  show "getGrowAddr d c bg ba ro = Inr (word_of_int (X * int RO + ro))"
    unfolding getGrowAddr_def Let_def c(1) o using e cmp by simp
qed

section \<open>Addresses and their coordinates\<close>

text \<open>
  A memory system whose levels have as many members as their address bits name.  The column bits count
  transactions, not columns, so the last level is free.
\<close>

definition dram_ok :: "dram \<Rightarrow> bool" where
  "dram_ok d \<longleftrightarrow> length (m_org d) = 6 \<and> length (m_addr_bits d) = 6 \<and> m_num_levels d = 6 \<and> m_row_bits_idx d = 4 \<and>
     (\<forall>k < 6. m_addr_bits d ! k < 31) \<and> (\<forall>k < 5. m_org d ! k = 2 ^ (m_addr_bits d ! k)) \<and>
     1 \<le> m_addr_bits d ! 2 + m_addr_bits d ! 3"

text \<open>The transaction number a vector of coordinates stands for.\<close>

definition dram_index :: "dram \<Rightarrow> int list \<Rightarrow> int" where
  "dram_index d v =
     foldr (\<lambda>k acc. v ! k + 2 ^ (m_addr_bits d ! k) * acc) [0, 5, 1, 2, 3, 4] 0"

lemma six_levels: "length xs = 6 \<Longrightarrow> xs = [xs ! 0, xs ! 1, xs ! 2, xs ! 3, xs ! 4, xs ! 5]"
  by (rule nth_equalityI) (auto simp: less_Suc_eq numeral_eq_Suc)

lemma slice_lower_bits_value:
  assumes "b < 31"
  shows "slice_lower_bits w b = Inr (uint w mod 2 ^ b, drop_bit b w)" "uint (drop_bit b w) = uint w div 2 ^ b"
proof -
  have "uint (take_bit b w) = uint w mod 2 ^ b" using take_bit_eq_mod[of b "uint w"] by (simp add: unsigned_take_bit_eq)
  then show "slice_lower_bits w b = Inr (uint w mod 2 ^ b, drop_bit b w)"
    using assms unfolding slice_lower_bits_def take_bit_eq_mask[symmetric] by simp
  have "take_bit 64 (uint w) = uint w" using uint_lt2p[of w] uint_ge_0[of w] by (intro take_bit_int_eq_self) simp_all
  then show "uint (drop_bit b w) = uint w div 2 ^ b" using drop_bit_eq_div[of b "uint w"] by (simp add: unsigned_drop_bit_eq)
qed

lemma all6: "(\<forall>k < 6. Q k) \<longleftrightarrow> Q 0 \<and> Q 1 \<and> Q 2 \<and> Q 3 \<and> Q 4 \<and> Q (5 :: nat)"
proof -
  have "{k :: nat. k < 6} = {0, 1, 2, 3, 4, 5}" by auto
  then have "(\<forall>k \<in> {k. k < 6}. Q k) \<longleftrightarrow> (\<forall>k \<in> {0, 1, 2, 3, 4, 5}. Q k)" by (rule arg_cong)
  then show ?thesis by simp
qed

lemma nth6:
  "[a0, a1, a2, a3, a4, a5] ! 0 = a0" "[a0, a1, a2, a3, a4, a5] ! 1 = a1" "[a0, a1, a2, a3, a4, a5] ! 2 = a2"
  "[a0, a1, a2, a3, a4, a5] ! 3 = a3" "[a0, a1, a2, a3, a4, a5] ! 4 = a4" "[a0, a1, a2, a3, a4, a5] ! 5 = a5"
  by simp_all

lemma map_addr_digits:
  fixes p :: Addr and d :: dram
  assumes "dram_ok d"
  defines "q \<equiv> uint (drop_bit (m_tx_offset d) p)" and "B \<equiv> \<lambda>k. (2 :: int) ^ (m_addr_bits d ! k)"
  shows "map_addr d p = Inr [q mod B 0, q div B 0 div B 5 mod B 1, q div B 0 div B 5 div B 1 mod B 2,
    q div B 0 div B 5 div B 1 div B 2 mod B 3, q div B 0 div B 5 div B 1 div B 2 div B 3 mod B 4, q div B 0 mod B 5]"
proof -
  have d: "length (m_addr_bits d) = 6" "m_num_levels d = 6" "m_row_bits_idx d = 4"
    using assms(1) unfolding dram_ok_def by auto
  have b: "m_addr_bits d ! k < 31" if "k < 6" for k using assms(1) that unfolding dram_ok_def by auto
  have lv: "0 # (length (m_addr_bits d) - 1) # [1..<Suc (m_row_bits_idx d)] = [0, 5, 1, 2, 3, 4]"
    unfolding d by (simp add: upt_rec)
  have rep: "replicate (m_num_levels d) (- 1 :: int) = [- 1, - 1, - 1, - 1, - 1, - 1]" unfolding d by (simp add: numeral_eq_Suc)
  have g: "arr_get (m_addr_bits d) (int k) = Inr (m_addr_bits d ! k)" if "k < 6" for k using that d unfolding arr_get_def by simp
  show ?thesis unfolding map_addr_def lv rep q_def B_def
    using g[of 0] g[of 1] g[of 2] g[of 3] g[of 4] g[of 5] b[of 0] b[of 1] b[of 2] b[of 3] b[of 4] b[of 5]
    by (simp add: slice_lower_bits_value arr_set_def del: of_nat_0 of_nat_1 of_nat_numeral drop_bit_drop_bit)
qed

lemma map_addr_range:
  assumes "dram_ok d"
  shows "\<exists>v. map_addr d p = Inr v \<and> length v = 6 \<and> (\<forall>k < 6. 0 \<le> v ! k \<and> v ! k < 2 ^ (m_addr_bits d ! k))"
proof -
  have pos: "0 \<le> x mod 2 ^ n" "x mod 2 ^ n < 2 ^ n" for x :: int and n by simp_all
  show ?thesis unfolding map_addr_digits[OF assms]
    by (rule exI, rule conjI, rule refl, rule conjI, simp) (unfold all6 nth6, intro conjI pos)
qed

text \<open>
  C34.  The address decomposition loses nothing.  For an address that the address bits of the memory system
  cover, the coordinates are in the range of their levels, and the transaction number put together
  from them is the one of the address.
\<close>

theorem map_addr_roundtrip:
  assumes "dram_ok d" "uint (drop_bit (m_tx_offset d) p) < 2 ^ sum_list (m_addr_bits d)"
  shows "\<exists>v. map_addr d p = Inr v \<and> length v = 6 \<and> (\<forall>k < 6. 0 \<le> v ! k \<and> v ! k < 2 ^ (m_addr_bits d ! k)) \<and>
    dram_index d v = uint (drop_bit (m_tx_offset d) p)"
proof -
  define q where "q = uint (drop_bit (m_tx_offset d) p)"
  define B where "B = (\<lambda>k. (2 :: int) ^ (m_addr_bits d ! k))"
  obtain v where v: "map_addr d p = Inr v" "length v = 6" "\<forall>k < 6. 0 \<le> v ! k \<and> v ! k < 2 ^ (m_addr_bits d ! k)"
    using map_addr_range[OF assms(1)] by blast
  define r where "r = q div B 0 div B 5 div B 1 div B 2 div B 3"
  have pos: "0 < B k" for k unfolding B_def by simp
  have "sum_list (m_addr_bits d) = m_addr_bits d ! 0 + m_addr_bits d ! 1 + m_addr_bits d ! 2 + m_addr_bits d ! 3 + m_addr_bits d ! 4 + m_addr_bits d ! 5"
    using assms(1) six_levels[of "m_addr_bits d"] unfolding dram_ok_def by (metis (no_types, lifting) add.assoc add.right_neutral sum_list.Cons sum_list.Nil)
  then have "q < B 4 * B 3 * B 2 * B 1 * B 5 * B 0" using assms(2) unfolding q_def B_def by (simp add: power_add mult_ac)
  then have "r < B 4" unfolding r_def using pos by (intro div_bound) simp_all
  moreover have "0 \<le> r" unfolding r_def q_def using pos by (simp add: pos_imp_zdiv_nonneg_iff)
  ultimately have last: "r mod B 4 = r" by (simp add: mod_pos_pos_trivial)
  have step: "x mod B k + B k * (x div B k) = x" for x k by simp
  have veq: "v = [q mod B 0, q div B 0 div B 5 mod B 1, q div B 0 div B 5 div B 1 mod B 2,
      q div B 0 div B 5 div B 1 div B 2 mod B 3, r mod B 4, q div B 0 mod B 5]"
    using v(1) unfolding map_addr_digits[OF assms(1)] r_def q_def B_def by simp
  have "dram_index d v = v ! 0 + B 0 * (v ! 5 + B 5 * (v ! 1 + B 1 * (v ! 2 + B 2 * (v ! 3 + B 3 * v ! 4))))"
    unfolding dram_index_def B_def by simp
  also have "\<dots> = q mod B 0 + B 0 * (q div B 0 mod B 5 + B 5 * (q div B 0 div B 5 mod B 1 + B 1 *
      (q div B 0 div B 5 div B 1 mod B 2 + B 2 * (q div B 0 div B 5 div B 1 div B 2 mod B 3 + B 3 * r))))"
    unfolding veq last by simp
  also have "\<dots> = q" unfolding r_def step ..
  finally have "dram_index d v = q" .
  then show ?thesis using v unfolding q_def by blast
qed

lemma dram_ok_pow2:
  assumes "dram_ok d"
  shows "pow2_org d (m_org d ! 0) (m_org d ! 1) (m_addr_bits d ! 2) (m_addr_bits d ! 3) (m_org d ! 4) (m_org d ! 5)"
proof -
  have o: "m_org d ! k = 2 ^ (m_addr_bits d ! k)" if "k < 5" for k using assms that unfolding dram_ok_def by blast
  have l: "length (m_org d) = 6" "1 \<le> m_addr_bits d ! 2 + m_addr_bits d ! 3" using assms unfolding dram_ok_def by auto
  show ?thesis unfolding pow2_org_def using six_levels[OF l(1)] l(2) o[of 0] o[of 1] o[of 2] o[of 3] o[of 4] by simp
qed

lemma rt_allocate_configs:
  assumes "dram_ok d" "0 < entries"
  shows "\<exists>cs. rt_allocate d rows entries = Inr cs \<and> length cs = m_addr_bits d ! 3 + m_addr_bits d ! 2 \<and>
    (\<forall>i < m_addr_bits d ! 3 + m_addr_bits d ! 2. config_of d (1 + i) (cs ! i) \<and> order_ok (cs ! i) \<and>
       rc_columns (cs ! i) * 2 ^ (1 + i) = entries * 2 ^ (m_addr_bits d ! 3 + m_addr_bits d ! 2))"
proof -
  let ?b = "m_addr_bits d ! 2" and ?a = "m_addr_bits d ! 3"
  note p = dram_ok_pow2[OF assms(1)]
  have o: "0 < m_org d ! 0 * m_org d ! 1" "m_org d ! 2 = 2 ^ ?b" "m_org d ! 3 = 2 ^ ?a" "1 \<le> ?a + ?b"
    using assms(1) unfolding dram_ok_def by auto
  have ab: "(2 :: nat) ^ ?b * 2 ^ ?a = 2 ^ (?a + ?b - 1) * 2"
  proof -
    have "?a + ?b = Suc (?a + ?b - 1)" using o(4) by linarith
    then show ?thesis by (metis add.commute power_Suc2 power_add)
  qed
  have total: "m_org d ! 0 * m_org d ! 1 * m_org d ! 2 * m_org d ! 3 = m_org d ! 0 * m_org d ! 1 * 2 * 2 ^ (?a + ?b - 1)"
    unfolding o(2,3) using ab by (simp add: mult.assoc mult.commute)
  have q: "m_org d ! 0 * m_org d ! 1 * 2 * 2 ^ (?a + ?b - 1) div (m_org d ! 0 * m_org d ! 1 * 2) = 2 ^ (?a + ?b - 1)"
    using o(1) by simp
  have num: "\<not> m_org d ! 0 * m_org d ! 1 * 2 * 2 ^ (?a + ?b - 1) < m_org d ! 0 * m_org d ! 1 * 2" by simp
  have nn: "calc_log2 (2 ^ (?a + ?b - 1)) + 1 = ?a + ?b" unfolding calc_log2_pow2 using o(4) by linarith
  have al: "rt_allocate d rows entries = rt_configs (?a + ?b) d (m_org d ! 0 * m_org d ! 1 * 2 ^ 1)
      (m_org d ! 0 * m_org d ! 1 * 2 * rows) (2 ^ (?a + ?b - 1)) (entries * 2 ^ (?a + ?b - 1)) (2 ^ Suc ?a * m_org d ! 4 div 2 ^ (1 - 1))"
    unfolding rt_allocate_def Let_def total q nn if_not_P[OF num] power_one_right unfolding o(3) by (simp del: rt_configs.simps)
  show ?thesis unfolding al by (rule rt_configs_ok[OF p assms(2)]) simp_all
qed


section \<open>Rows of the table are rows of the memory\<close>

lemma slice_and_row_injective:
  fixes A B :: int
  assumes A: "0 < A" and B: "0 < B"
    and i: "((ch * RA + ra) * B + bg mod B) * A + ba mod A = ((ch' * RA + ra') * B + bg' mod B) * A + ba' mod A"
    and g: "(bg div B * BA + ba div A) * RO + ro = (bg' div B * BA + ba' div A) * RO + ro'"
    and r: "0 \<le> ra" "ra < RA" "0 \<le> ra'" "ra' < RA" "0 \<le> ba div A" "ba div A < BA" "0 \<le> ba' div A" "ba' div A < BA"
      "0 \<le> ro" "ro < RO" "0 \<le> ro'" "ro' < RO"
  shows "ch = ch' \<and> ra = ra' \<and> bg = bg' \<and> ba = ba' \<and> ro = ro'"
proof -
  have m: "0 \<le> x mod A" "x mod A < A" "0 \<le> x mod B" "x mod B < B" for x using A B by simp_all
  have 1: "(ch * RA + ra) * B + bg mod B = (ch' * RA + ra') * B + bg' mod B" "ba mod A = ba' mod A"
    using digit_unique[OF i m(1,2) m(1,2)] by blast+
  have 2: "ch * RA + ra = ch' * RA + ra'" "bg mod B = bg' mod B" using digit_unique[OF 1(1) m(3,4) m(3,4)] by blast+
  have 3: "ch = ch'" "ra = ra'" using digit_unique[OF 2(1) r(1-4)] by blast+
  have 4: "bg div B * BA + ba div A = bg' div B * BA + ba' div A" "ro = ro'" using digit_unique[OF g r(9-12)] by blast+
  have 5: "bg div B = bg' div B" "ba div A = ba' div A" using digit_unique[OF 4(1) r(5-8)] by blast+
  show ?thesis using 3 4(2) div_mod_unique[OF 5(1) 2(2)] div_mod_unique[OF 5(2) 1(2)] by blast
qed

lemma take5_eq:
  assumes "length v = 6" "length v' = 6"
  shows "take 5 v = take 5 v' \<longleftrightarrow> v ! 0 = v' ! 0 \<and> v ! 1 = v' ! 1 \<and> v ! 2 = v' ! 2 \<and> v ! 3 = v' ! 3 \<and> v ! 4 = v' ! 4"
  by (subst six_levels[OF assms(1)], subst six_levels[OF assms(2)]) simp


text \<open>The witnesses: one channel and rank, two bank groups of two banks, four rows of eight transactions.\<close>

definition dram_demo :: dram where
  "dram_demo = \<lparr> m_org = [1, 1, 2, 2, 4, 64], m_addr_bits = [0, 0, 1, 1, 2, 3], m_num_levels = 6, m_tx_offset = 6, m_row_bits_idx = 4 \<rparr>"

lemma dram_demo_ok: "dram_ok dram_demo"
proof -
  have "(\<forall>k < 5. Q k) \<longleftrightarrow> Q 0 \<and> Q 1 \<and> Q 2 \<and> Q 3 \<and> Q (4 :: nat)" for Q
  proof -
    have "{k :: nat. k < 5} = {0, 1, 2, 3, 4}" by auto
    then have "(\<forall>k \<in> {k. k < 5}. Q k) \<longleftrightarrow> (\<forall>k \<in> {0, 1, 2, 3, 4}. Q k)" by (rule arg_cong)
    then show ?thesis by simp
  qed
  then show ?thesis unfolding dram_ok_def all6 by (simp add: dram_demo_def)
qed

theorem map_addr_roundtrip_witness:
  "\<exists>v. map_addr dram_demo 0x1A40 = Inr v \<and> v ! 4 = 3 \<and> dram_index dram_demo v = 105"
proof -
  have u: "uint (drop_bit (m_tx_offset dram_demo) (0x1A40 :: Addr)) = 105" by code_simp
  have m: "map_addr dram_demo 0x1A40 = Inr [0, 0, 1, 0, 3, 1]" by code_simp
  show ?thesis using map_addr_roundtrip[OF dram_demo_ok, of "0x1A40"] unfolding u m by (simp add: dram_demo_def)
qed



end
