(* ===== verification/Instr_Decode.thy ===== *)
theory Instr_Decode
  imports IF_Model "HOL-Library.AList"
begin

text \<open>
  How instructions reach the accelerator.  The software side is the encoder of
  \<open>benchmarks/API/MAA_gem5.hpp\<close>: every \<open>maa_\<close> call stores two or three words, and a fourth for the virtual
  load, to consecutive instruction addresses.  The hardware side is the \<open>INSTRUCTION_RANGE\<close> branch of
  \<open>MAA::recvTimingReq\<close> in \<open>CpuSidePort.cc\<close>, which collects the words of each requestor, and the region
  table of \<open>MAA.cc\<close> (\<open>addAddrRegion\<close>, \<open>clearAddrRegion\<close>, \<open>getAddrRegion\<close>) that the third word is looked up in.
  The four parallel vectors of pending instructions are one list of records here.  A code outside the
  enumeration, which C++ keeps as an unnamed value, is an error of the decoder.
\<close>

section \<open>The region table\<close>

definition MAX_CMD_REGIONS :: nat where
  "MAX_CMD_REGIONS = 32"

record region_table =
  addrRegions :: "(Addr \<times> Addr) list"
  maxRegionID :: int

definition clearAddrRegion :: region_table where
  "clearAddrRegion = \<lparr> addrRegions = replicate MAX_CMD_REGIONS (0, 0), maxRegionID = - 1 \<rparr>"

text \<open>The scan of \<open>addAddrRegion\<close>: it panics on a region that begins inside the new one.\<close>

fun region_scan :: "Addr \<Rightarrow> Addr \<Rightarrow> int \<Rightarrow> (Addr \<times> Addr) list \<Rightarrow> int \<Rightarrow> int res" where
  "region_scan start stop i [] max_id = Inr max_id"
| "region_scan start stop i (r # rs) max_id =
     (if start \<le> fst r \<and> fst r < stop then Inl Panic else region_scan start stop (i + 1) rs i)"

definition addAddrRegion :: "region_table \<Rightarrow> Addr \<Rightarrow> Addr \<Rightarrow> int \<Rightarrow> region_table res" where
  "addAddrRegion t start stop reg_id =
     (if reg_id \<ge> int MAX_CMD_REGIONS then Inl Panic
      else if start \<ge> stop then Inl Panic
      else if stop = 0 then Inl Panic
      else rbind (region_scan start stop 0 (addrRegions t) (- 1)) (\<lambda>m.
           rbind (arr_set (addrRegions t) reg_id (start, stop)) (\<lambda>rs.
             Inr \<lparr> addrRegions = rs, maxRegionID = (if reg_id > m then reg_id else m) \<rparr>)))"

fun region_find :: "(Addr \<times> Addr) list \<Rightarrow> Addr \<Rightarrow> int list \<Rightarrow> int res" where
  "region_find regions addr [] = Inr (- 1)"
| "region_find regions addr (i # is) =
     rbind (arr_get regions i) (\<lambda>(lo, hi).
       if lo = 0 \<and> hi = 0 then region_find regions addr is
       else if lo \<le> addr \<and> addr < hi then Inr i
       else region_find regions addr is)"

definition getAddrRegion :: "region_table \<Rightarrow> Addr \<Rightarrow> int res" where
  "getAddrRegion t addr =
     rbind (region_find (addrRegions t) addr [0..maxRegionID t]) (\<lambda>reg_id.
       if reg_id = - 1 then Inl Panic else Inr reg_id)"

section \<open>The decoder\<close>

definition opcode_list :: "OpcodeType list" where
  "opcode_list = [STREAM_LD, STREAM_ST, INDIR_LD, INDIR_ST_SCALAR, INDIR_ST_VECTOR, INDIR_RMW_SCALAR, INDIR_RMW_VECTOR,
     RANGE_LOOP, ALU_SCALAR, ALU_VECTOR, ALU_REDUCE, INDIR_LD_VIRTUAL, Opcode_MAX]"

definition optype_list :: "OPType list" where
  "optype_list = [ADD_OP, SUB_OP, MUL_OP, DIV_OP, MIN_OP, MAX_OP, AND_OP, OR_OP, XOR_OP, SHL_OP, SHR_OP,
     GT_OP, GTE_OP, LT_OP, LTE_OP, EQ_OP, OPType_MAX]"

definition datatype_list :: "DataType list" where
  "datatype_list = [UINT32_TYPE, INT32_TYPE, FLOAT32_TYPE, UINT64_TYPE, INT64_TYPE, FLOAT64_TYPE, DataType_MAX]"

definition NA_UINT8 :: u64 where
  "NA_UINT8 = 0xFF"

definition enum_field :: "'e list \<Rightarrow> 'e \<Rightarrow> u64 \<Rightarrow> 'e res" where
  "enum_field es none data =
     (let f = data AND NA_UINT8 in
      if f = NA_UINT8 then Inr none else if unat f < length es then Inr (es ! unat f) else Inl Undefined_Arith)"

definition id_field :: "u64 \<Rightarrow> int" where
  "id_field data = (let f = data AND NA_UINT8 in if f = NA_UINT8 then - 1 else uint f)"

definition access_of_opcode :: "OpcodeType \<Rightarrow> AccessType" where
  "access_of_opcode op =
     (if op \<in> {STREAM_LD, INDIR_LD_VIRTUAL, INDIR_LD} then READ
      else if op \<in> {STREAM_ST, INDIR_ST_SCALAR, INDIR_ST_VECTOR, INDIR_RMW_SCALAR, INDIR_RMW_VECTOR} then WRITE
      else COMPUTE)"

definition decode_word0 :: "Instruction \<Rightarrow> u64 \<Rightarrow> Instruction res" where
  "decode_word0 ins w =
     (let w1 = drop_bit 8 w; w2 = drop_bit 8 w1; w3 = drop_bit 8 w2; w4 = drop_bit 8 w3 in
      rbind (enum_field optype_list OPType_MAX w2) (\<lambda>op.
      rbind (enum_field datatype_list DataType_MAX w3) (\<lambda>dt.
        if dt = DataType_MAX then Inl Assert_Fail
        else rbind (enum_field opcode_list Opcode_MAX w4) (\<lambda>oc.
          if oc = Opcode_MAX then Inl Assert_Fail
          else Inr (ins\<lparr> dst2SpdID := id_field w, dst1SpdID := id_field w1, optype := op, datatyp := dt, opcode := oc,
                        accessType := access_of_opcode oc \<rparr>)))))"

definition decode_word1 :: "Instruction \<Rightarrow> u64 \<Rightarrow> Instruction" where
  "decode_word1 ins w =
     (let w1 = drop_bit 8 w; w2 = drop_bit 8 w1; w3 = drop_bit 8 w2; w4 = drop_bit 8 w3; w5 = drop_bit 8 w4;
          w6 = drop_bit 8 w5; w7 = drop_bit 8 w6
      in ins\<lparr> condSpdID := id_field w, src3RegID := id_field w1, src2RegID := id_field w2, src1RegID := id_field w3,
              dst2RegID := id_field w4, dst1RegID := id_field w5, src2SpdID := id_field w6, src1SpdID := id_field w7 \<rparr>)"

definition decode_word2 :: "region_table \<Rightarrow> int \<Rightarrow> Addr \<Rightarrow> Instruction \<Rightarrow> u64 \<Rightarrow> Instruction res" where
  "decode_word2 t cid pc ins w =
     (let ins1 = ins\<lparr> baseAddr := w, istate := Instr_Idle, CID := cid, PC := pc \<rparr> in
      if accessType ins1 = COMPUTE then Inr ins1
      else rbind (getAddrRegion t w) (\<lambda>r.
           rbind (arr_get (addrRegions t) r) (\<lambda>(lo, hi).
             Inr (ins1\<lparr> addrRangeID := r, minAddr := lo, maxAddr := hi \<rparr>))))"

section \<open>Collecting the words\<close>

record pending_instr =
  pi_instr :: Instruction
  pi_rid :: nat
  pi_recv :: bool
  pi_pkt :: nat

record cpu_side =
  pendings :: "pending_instr list"
  rid_core :: "(nat \<times> nat) list"
  cs_num_cores :: nat
  cs_num_maas :: nat

fun find_pending :: "nat \<Rightarrow> int \<Rightarrow> pending_instr list \<Rightarrow> int \<Rightarrow> int res" where
  "find_pending rid i [] found = Inr found"
| "find_pending rid i (p # ps) found =
     (if pi_rid p = rid then
        if found \<noteq> - 1 then Inl Panic else if pi_recv p then Inl Panic else find_pending rid (i + 1) ps i
      else find_pending rid (i + 1) ps found)"

definition core_of_rid :: "cpu_side \<Rightarrow> nat \<Rightarrow> (nat \<times> cpu_side) res" where
  "core_of_rid c rid =
     (case map_of (rid_core c) rid of
        Some k \<Rightarrow> Inr (k, c)
      | None \<Rightarrow>
          if length (rid_core c) = cs_num_cores c then Inl Panic
          else let k = length (rid_core c) in Inr (k, c\<lparr> rid_core := AList.update rid k (rid_core c) \<rparr>))"

text \<open>
  One write to the instruction range.  The flag is \<open>respond_immediately\<close>; when it is false the dispatch event
  is scheduled instead.  \<open>ins0\<close> is the freshly constructed instruction.
\<close>

definition recv_instruction ::
  "region_table \<Rightarrow> Instruction \<Rightarrow> cpu_side \<Rightarrow> nat \<Rightarrow> nat \<Rightarrow> int \<Rightarrow> Addr \<Rightarrow> nat \<Rightarrow> u64 \<Rightarrow> (bool \<times> cpu_side) res" where
  "recv_instruction t ins0 c rid pkt cid pc element_id data =
     rbind (find_pending rid 0 (pendings c) (- 1)) (\<lambda>found.
       if found = - 1 then
         rbind (core_of_rid c rid) (\<lambda>(core, c1).
           if cs_num_maas c = 0 then Inl Undefined_Arith
           else if element_id = 0 then
             rbind (decode_word0 (ins0\<lparr> core_id := int core, maa_id := int core mod int (cs_num_maas c) \<rparr>) data) (\<lambda>ins.
               Inr (True, c1\<lparr> pendings := pendings c1 @ [\<lparr> pi_instr = ins, pi_rid = rid, pi_recv = False, pi_pkt = pkt \<rparr>] \<rparr>))
           else if element_id \<le> 3 then Inl Panic else Inl Assert_Fail)
       else
         rbind (arr_get (pendings c) found) (\<lambda>p.
         let put = (\<lambda>ins recv. c\<lparr> pendings := (pendings c)[nat found := p\<lparr> pi_instr := ins, pi_recv := recv, pi_pkt := pkt \<rparr>] \<rparr>) in
           if element_id = 0 then Inl Panic
           else if element_id = 1 then Inr (True, put (decode_word1 (pi_instr p) data) False)
           else if element_id = 2 then
             rbind (decode_word2 t cid pc (pi_instr p) data) (\<lambda>ins.
               if opcode ins = INDIR_LD_VIRTUAL then Inr (True, put ins False) else Inr (False, put ins True))
           else if element_id = 3 then
             if opcode (pi_instr p) \<noteq> INDIR_LD_VIRTUAL then Inl Panic
             else Inr (False, put ((pi_instr p)\<lparr> backingAddr := data \<rparr>) True)
           else Inl Assert_Fail))"

text \<open>Consecutive writes of one requestor, each in a packet of its own; the core waits for the response of one before the next.\<close>

fun recv_writes ::
  "region_table \<Rightarrow> Instruction \<Rightarrow> cpu_side \<Rightarrow> nat \<Rightarrow> nat \<Rightarrow> int \<Rightarrow> Addr \<Rightarrow> (nat \<times> u64) list \<Rightarrow> (bool \<times> cpu_side) res" where
  "recv_writes t ins0 c rid pkt cid pc [] = Inr (True, c)"
| "recv_writes t ins0 c rid pkt cid pc [(k, w)] = recv_instruction t ins0 c rid pkt cid pc k w"
| "recv_writes t ins0 c rid pkt cid pc ((k, w) # ws) =
     rbind (recv_instruction t ins0 c rid pkt cid pc k w) (\<lambda>(b, c'). if b then recv_writes t ins0 c' rid (Suc pkt) cid pc ws else Inl Assert_Fail)"

section \<open>The encoder\<close>

datatype Operation_t = API_ADD | API_SUB | API_MUL | API_DIV | API_MIN | API_MAX | API_AND | API_OR | API_XOR | API_SHL | API_SHR
  | API_GT | API_GTE | API_LT | API_LTE | API_EQ | API_NE

definition operation_list :: "Operation_t list" where
  "operation_list = [API_ADD, API_SUB, API_MUL, API_DIV, API_MIN, API_MAX, API_AND, API_OR, API_XOR, API_SHL, API_SHR,
     API_GT, API_GTE, API_LT, API_LTE, API_EQ, API_NE]"

fun code_in :: "'e list \<Rightarrow> 'e \<Rightarrow> nat" where
  "code_in [] e = 0"
| "code_in (x # xs) e = (if x = e then 0 else Suc (code_in xs e))"

definition opcode_code :: "OpcodeType \<Rightarrow> u64" where
  "opcode_code oc = of_nat (code_in opcode_list oc)"

definition datatype_code :: "DataType \<Rightarrow> u64" where
  "datatype_code dt = of_nat (code_in datatype_list dt)"

definition operation_code :: "Operation_t \<Rightarrow> u64" where
  "operation_code op = of_nat (code_in operation_list op)"

definition NA_UINT64 :: u64 where
  "NA_UINT64 = 0xFFFFFFFFFFFFFFFF"

definition opt_tile :: "int \<Rightarrow> u64" where
  "opt_tile tile = (if tile = - 1 then NA_UINT8 else word_of_int tile)"

text \<open>The two operand words.\<close>

definition instr_word0 :: "u64 \<Rightarrow> u64 \<Rightarrow> u64 \<Rightarrow> u64 \<Rightarrow> u64 \<Rightarrow> u64" where
  "instr_word0 oc dt op tdst1 tdst2 = push_bit 32 oc OR push_bit 24 dt OR push_bit 16 op OR push_bit 8 tdst1 OR tdst2"

definition instr_word1 :: "u64 \<Rightarrow> u64 \<Rightarrow> u64 \<Rightarrow> u64 \<Rightarrow> u64 \<Rightarrow> u64 \<Rightarrow> u64 \<Rightarrow> u64 \<Rightarrow> u64" where
  "instr_word1 tsrc1 tsrc2 rdst1 rdst2 rsrc1 rsrc2 rsrc3 cnd =
     push_bit 56 tsrc1 OR push_bit 48 tsrc2 OR push_bit 40 rdst1 OR push_bit 32 rdst2 OR push_bit 24 rsrc1 OR
     push_bit 16 rsrc2 OR push_bit 8 rsrc3 OR cnd"

text \<open>The calls; the template parameter is the data type, and a pointer is its address.\<close>

definition maa_alu_scalar :: "DataType \<Rightarrow> int \<Rightarrow> int \<Rightarrow> int \<Rightarrow> Operation_t \<Rightarrow> int \<Rightarrow> (nat \<times> u64) list" where
  "maa_alu_scalar dt src1_tile src2_reg dst_tile op cond_tile =
     [(0, instr_word0 (opcode_code ALU_SCALAR) (datatype_code dt) (operation_code op) (word_of_int dst_tile) NA_UINT8),
      (1, instr_word1 (word_of_int src1_tile) NA_UINT8 NA_UINT8 NA_UINT8 (word_of_int src2_reg) NA_UINT8 NA_UINT8 (opt_tile cond_tile)),
      (2, NA_UINT64)]"

definition maa_alu_vector :: "DataType \<Rightarrow> int \<Rightarrow> int \<Rightarrow> int \<Rightarrow> Operation_t \<Rightarrow> int \<Rightarrow> (nat \<times> u64) list" where
  "maa_alu_vector dt src1_tile src2_tile dst_tile op cond_tile =
     [(0, instr_word0 (opcode_code ALU_VECTOR) (datatype_code dt) (operation_code op) (word_of_int dst_tile) NA_UINT8),
      (1, instr_word1 (word_of_int src1_tile) (word_of_int src2_tile) NA_UINT8 NA_UINT8 NA_UINT8 NA_UINT8 NA_UINT8 (opt_tile cond_tile)),
      (2, NA_UINT64)]"

definition maa_alu_reduce :: "DataType \<Rightarrow> int \<Rightarrow> int \<Rightarrow> Operation_t \<Rightarrow> int \<Rightarrow> (nat \<times> u64) list" where
  "maa_alu_reduce dt src1_tile dst_reg op cond_tile =
     [(0, instr_word0 (opcode_code ALU_REDUCE) (datatype_code dt) (operation_code op) NA_UINT8 NA_UINT8),
      (1, instr_word1 (word_of_int src1_tile) NA_UINT8 (word_of_int dst_reg) NA_UINT8 NA_UINT8 NA_UINT8 NA_UINT8 (opt_tile cond_tile)),
      (2, NA_UINT64)]"

definition maa_stream_load :: "DataType \<Rightarrow> Addr \<Rightarrow> int \<Rightarrow> int \<Rightarrow> int \<Rightarrow> int \<Rightarrow> int \<Rightarrow> (nat \<times> u64) list" where
  "maa_stream_load dt data min_reg max_reg stride_reg dst_tile cond_tile =
     [(0, instr_word0 (opcode_code STREAM_LD) (datatype_code dt) NA_UINT8 (word_of_int dst_tile) NA_UINT8),
      (1, instr_word1 NA_UINT8 NA_UINT8 NA_UINT8 NA_UINT8 (word_of_int min_reg) (word_of_int max_reg) (word_of_int stride_reg) (opt_tile cond_tile)),
      (2, data)]"

definition maa_stream_store :: "DataType \<Rightarrow> Addr \<Rightarrow> int \<Rightarrow> int \<Rightarrow> int \<Rightarrow> int \<Rightarrow> int \<Rightarrow> (nat \<times> u64) list" where
  "maa_stream_store dt data min_reg max_reg stride_reg src_tile cond_tile =
     [(0, instr_word0 (opcode_code STREAM_ST) (datatype_code dt) NA_UINT8 NA_UINT8 NA_UINT8),
      (1, instr_word1 (word_of_int src_tile) NA_UINT8 NA_UINT8 NA_UINT8 (word_of_int min_reg) (word_of_int max_reg) (word_of_int stride_reg) (opt_tile cond_tile)),
      (2, data)]"

definition maa_indirect_load :: "DataType \<Rightarrow> Addr \<Rightarrow> int \<Rightarrow> int \<Rightarrow> int \<Rightarrow> (nat \<times> u64) list" where
  "maa_indirect_load dt data idx_tile dst_tile cond_tile =
     [(0, instr_word0 (opcode_code INDIR_LD) (datatype_code dt) NA_UINT8 (word_of_int dst_tile) NA_UINT8),
      (1, instr_word1 (word_of_int idx_tile) NA_UINT8 NA_UINT8 NA_UINT8 NA_UINT8 NA_UINT8 NA_UINT8 (opt_tile cond_tile)),
      (2, data)]"

definition maa_indirect_load_virtual :: "DataType \<Rightarrow> Addr \<Rightarrow> int \<Rightarrow> int \<Rightarrow> Addr \<Rightarrow> (nat \<times> u64) list" where
  "maa_indirect_load_virtual dt data idx_tile completion_tile backing =
     [(0, instr_word0 (opcode_code INDIR_LD_VIRTUAL) (datatype_code dt) NA_UINT8 (word_of_int completion_tile) NA_UINT8),
      (1, instr_word1 (word_of_int idx_tile) NA_UINT8 NA_UINT8 NA_UINT8 NA_UINT8 NA_UINT8 NA_UINT8 NA_UINT8),
      (2, data), (3, backing)]"

definition maa_indirect_store_vector :: "DataType \<Rightarrow> Addr \<Rightarrow> int \<Rightarrow> int \<Rightarrow> int \<Rightarrow> int \<Rightarrow> (nat \<times> u64) list" where
  "maa_indirect_store_vector dt data idx_tile src_tile cond_tile dst_tile =
     [(0, instr_word0 (opcode_code INDIR_ST_VECTOR) (datatype_code dt) NA_UINT8 (opt_tile dst_tile) NA_UINT8),
      (1, instr_word1 (word_of_int idx_tile) (word_of_int src_tile) NA_UINT8 NA_UINT8 NA_UINT8 NA_UINT8 NA_UINT8 (opt_tile cond_tile)),
      (2, data)]"

definition maa_indirect_store_scalar :: "DataType \<Rightarrow> Addr \<Rightarrow> int \<Rightarrow> int \<Rightarrow> int \<Rightarrow> int \<Rightarrow> (nat \<times> u64) list" where
  "maa_indirect_store_scalar dt data idx_tile src_reg cond_tile dst_tile =
     [(0, instr_word0 (opcode_code INDIR_ST_SCALAR) (datatype_code dt) NA_UINT8 (opt_tile dst_tile) NA_UINT8),
      (1, instr_word1 (word_of_int idx_tile) NA_UINT8 NA_UINT8 NA_UINT8 (word_of_int src_reg) NA_UINT8 NA_UINT8 (opt_tile cond_tile)),
      (2, data)]"

definition maa_indirect_rmw_vector :: "DataType \<Rightarrow> Addr \<Rightarrow> int \<Rightarrow> int \<Rightarrow> Operation_t \<Rightarrow> int \<Rightarrow> int \<Rightarrow> (nat \<times> u64) list" where
  "maa_indirect_rmw_vector dt data idx_tile src_tile o_type cond_tile dst_tile =
     [(0, instr_word0 (opcode_code INDIR_RMW_VECTOR) (datatype_code dt) (operation_code o_type) (opt_tile dst_tile) NA_UINT8),
      (1, instr_word1 (word_of_int idx_tile) (word_of_int src_tile) NA_UINT8 NA_UINT8 NA_UINT8 NA_UINT8 NA_UINT8 (opt_tile cond_tile)),
      (2, data)]"

definition maa_indirect_rmw_scalar :: "DataType \<Rightarrow> Addr \<Rightarrow> int \<Rightarrow> int \<Rightarrow> Operation_t \<Rightarrow> int \<Rightarrow> int \<Rightarrow> (nat \<times> u64) list" where
  "maa_indirect_rmw_scalar dt data idx_tile src_reg o_type cond_tile dst_tile =
     [(0, instr_word0 (opcode_code INDIR_RMW_SCALAR) (datatype_code dt) (operation_code o_type) (opt_tile dst_tile) NA_UINT8),
      (1, instr_word1 (word_of_int idx_tile) NA_UINT8 NA_UINT8 NA_UINT8 (word_of_int src_reg) NA_UINT8 NA_UINT8 (opt_tile cond_tile)),
      (2, data)]"

definition maa_range_loop :: "int \<Rightarrow> int \<Rightarrow> int \<Rightarrow> int \<Rightarrow> int \<Rightarrow> int \<Rightarrow> int \<Rightarrow> int \<Rightarrow> (nat \<times> u64) list" where
  "maa_range_loop last_i_reg last_j_reg min_tile max_tile stride_reg dst_i_tile dst_j_tile cond_tile =
     [(0, instr_word0 (opcode_code RANGE_LOOP) (datatype_code INT32_TYPE) NA_UINT8 (word_of_int dst_i_tile) (word_of_int dst_j_tile)),
      (1, instr_word1 (word_of_int min_tile) (word_of_int max_tile) (word_of_int last_i_reg) (word_of_int last_j_reg) (word_of_int stride_reg)
            NA_UINT8 NA_UINT8 (opt_tile cond_tile)),
      (2, NA_UINT64)]"

section \<open>What a call asks for\<close>

datatype api_call =
    Alu_Scalar DataType int int int Operation_t int
  | Alu_Vector DataType int int int Operation_t int
  | Alu_Reduce DataType int int Operation_t int
  | Stream_Load DataType Addr int int int int int
  | Stream_Store DataType Addr int int int int int
  | Indirect_Load DataType Addr int int int
  | Indirect_Load_Virtual DataType Addr int int Addr
  | Store_Vector DataType Addr int int int int
  | Store_Scalar DataType Addr int int int int
  | Rmw_Vector DataType Addr int int Operation_t int int
  | Rmw_Scalar DataType Addr int int Operation_t int int
  | Range_Loop int int int int int int int int

fun api_writes :: "api_call \<Rightarrow> (nat \<times> u64) list" where
  "api_writes (Alu_Scalar dt s1 r d op c) = maa_alu_scalar dt s1 r d op c"
| "api_writes (Alu_Vector dt s1 s2 d op c) = maa_alu_vector dt s1 s2 d op c"
| "api_writes (Alu_Reduce dt s r op c) = maa_alu_reduce dt s r op c"
| "api_writes (Stream_Load dt a r1 r2 r3 d c) = maa_stream_load dt a r1 r2 r3 d c"
| "api_writes (Stream_Store dt a r1 r2 r3 s c) = maa_stream_store dt a r1 r2 r3 s c"
| "api_writes (Indirect_Load dt a i d c) = maa_indirect_load dt a i d c"
| "api_writes (Indirect_Load_Virtual dt a i d b) = maa_indirect_load_virtual dt a i d b"
| "api_writes (Store_Vector dt a i s c d) = maa_indirect_store_vector dt a i s c d"
| "api_writes (Store_Scalar dt a i r c d) = maa_indirect_store_scalar dt a i r c d"
| "api_writes (Rmw_Vector dt a i s op c d) = maa_indirect_rmw_vector dt a i s op c d"
| "api_writes (Rmw_Scalar dt a i r op c d) = maa_indirect_rmw_scalar dt a i r op c d"
| "api_writes (Range_Loop li lj mn mx st di dj c) = maa_range_loop li lj mn mx st di dj c"

text \<open>The hardware operation that a software operation selects; inequality has none.\<close>

definition hw_op :: "Operation_t \<Rightarrow> OPType" where
  "hw_op op = optype_list ! code_in operation_list op"

text \<open>The instruction a call stands for, before the region of its base address is filled in.\<close>

definition with_operands ::
  "OpcodeType \<Rightarrow> DataType \<Rightarrow> OPType \<Rightarrow> int \<times> int \<Rightarrow> int \<times> int \<Rightarrow> int \<times> int \<Rightarrow> int \<times> int \<times> int \<Rightarrow> int \<Rightarrow> Instruction \<Rightarrow> Instruction" where
  "with_operands oc dt op tdst tsrc rdst rsrc cnd ins = ins\<lparr>
     opcode := oc, datatyp := dt, optype := op, accessType := access_of_opcode oc,
     dst1SpdID := fst tdst, dst2SpdID := snd tdst, src1SpdID := fst tsrc, src2SpdID := snd tsrc,
     dst1RegID := fst rdst, dst2RegID := snd rdst, src1RegID := fst rsrc, src2RegID := fst (snd rsrc), src3RegID := snd (snd rsrc),
     condSpdID := cnd \<rparr>"

fun call_instr :: "api_call \<Rightarrow> Instruction \<Rightarrow> Instruction" where
  "call_instr (Alu_Scalar dt s1 r d op c) = with_operands ALU_SCALAR dt (hw_op op) (d, - 1) (s1, - 1) (- 1, - 1) (r, - 1, - 1) c"
| "call_instr (Alu_Vector dt s1 s2 d op c) = with_operands ALU_VECTOR dt (hw_op op) (d, - 1) (s1, s2) (- 1, - 1) (- 1, - 1, - 1) c"
| "call_instr (Alu_Reduce dt s r op c) = with_operands ALU_REDUCE dt (hw_op op) (- 1, - 1) (s, - 1) (r, - 1) (- 1, - 1, - 1) c"
| "call_instr (Stream_Load dt a r1 r2 r3 d c) = with_operands STREAM_LD dt OPType_MAX (d, - 1) (- 1, - 1) (- 1, - 1) (r1, r2, r3) c"
| "call_instr (Stream_Store dt a r1 r2 r3 s c) = with_operands STREAM_ST dt OPType_MAX (- 1, - 1) (s, - 1) (- 1, - 1) (r1, r2, r3) c"
| "call_instr (Indirect_Load dt a i d c) = with_operands INDIR_LD dt OPType_MAX (d, - 1) (i, - 1) (- 1, - 1) (- 1, - 1, - 1) c"
| "call_instr (Indirect_Load_Virtual dt a i d b) = with_operands INDIR_LD_VIRTUAL dt OPType_MAX (d, - 1) (i, - 1) (- 1, - 1) (- 1, - 1, - 1) (- 1)"
| "call_instr (Store_Vector dt a i s c d) = with_operands INDIR_ST_VECTOR dt OPType_MAX (d, - 1) (i, s) (- 1, - 1) (- 1, - 1, - 1) c"
| "call_instr (Store_Scalar dt a i r c d) = with_operands INDIR_ST_SCALAR dt OPType_MAX (d, - 1) (i, - 1) (- 1, - 1) (r, - 1, - 1) c"
| "call_instr (Rmw_Vector dt a i s op c d) = with_operands INDIR_RMW_VECTOR dt (hw_op op) (d, - 1) (i, s) (- 1, - 1) (- 1, - 1, - 1) c"
| "call_instr (Rmw_Scalar dt a i r op c d) = with_operands INDIR_RMW_SCALAR dt (hw_op op) (d, - 1) (i, - 1) (- 1, - 1) (r, - 1, - 1) c"
| "call_instr (Range_Loop li lj mn mx st di dj c) = with_operands RANGE_LOOP INT32_TYPE OPType_MAX (di, dj) (mn, mx) (li, lj) (st, - 1, - 1) c"

fun call_base :: "api_call \<Rightarrow> Addr" where
  "call_base (Stream_Load dt a r1 r2 r3 d c) = a"
| "call_base (Stream_Store dt a r1 r2 r3 s c) = a"
| "call_base (Indirect_Load dt a i d c) = a"
| "call_base (Indirect_Load_Virtual dt a i d b) = a"
| "call_base (Store_Vector dt a i s c d) = a"
| "call_base (Store_Scalar dt a i r c d) = a"
| "call_base (Rmw_Vector dt a i s op c d) = a"
| "call_base (Rmw_Scalar dt a i r op c d) = a"
| "call_base _ = NA_UINT64"

text \<open>The instruction that reaches the window: located in its region, and with the backing buffer of a virtual load.\<close>

definition located :: "api_call \<Rightarrow> int \<times> Addr \<times> Addr \<Rightarrow> Instruction \<Rightarrow> Instruction" where
  "located c region i =
     (let i' = (if accessType i = COMPUTE then i
                else i\<lparr> addrRangeID := fst region, minAddr := fst (snd region), maxAddr := snd (snd region) \<rparr>)
      in case c of Indirect_Load_Virtual dt a x d b \<Rightarrow> i'\<lparr> backingAddr := b \<rparr> | _ \<Rightarrow> i')"

definition received_instr :: "api_call \<Rightarrow> nat \<Rightarrow> nat \<Rightarrow> int \<Rightarrow> Addr \<Rightarrow> int \<times> Addr \<times> Addr \<Rightarrow> Instruction \<Rightarrow> Instruction" where
  "received_instr c core maas cid pc region ins0 =
     located c region (call_instr c (ins0\<lparr> core_id := int core, maa_id := int core mod int maas,
       baseAddr := call_base c, istate := Instr_Idle, CID := cid, PC := pc \<rparr>))"

definition id_ok :: "int \<Rightarrow> bool" where
  "id_ok x \<longleftrightarrow> 0 \<le> x \<and> x \<le> 254"

definition opt_ok :: "int \<Rightarrow> bool" where
  "opt_ok x \<longleftrightarrow> - 1 \<le> x \<and> x \<le> 254"

fun call_ok :: "api_call \<Rightarrow> bool" where
  "call_ok (Alu_Scalar dt s1 r d op c) \<longleftrightarrow> dt \<noteq> DataType_MAX \<and> id_ok s1 \<and> id_ok r \<and> id_ok d \<and> opt_ok c"
| "call_ok (Alu_Vector dt s1 s2 d op c) \<longleftrightarrow> dt \<noteq> DataType_MAX \<and> id_ok s1 \<and> id_ok s2 \<and> id_ok d \<and> opt_ok c"
| "call_ok (Alu_Reduce dt s r op c) \<longleftrightarrow> dt \<noteq> DataType_MAX \<and> id_ok s \<and> id_ok r \<and> opt_ok c"
| "call_ok (Stream_Load dt a r1 r2 r3 d c) \<longleftrightarrow> dt \<noteq> DataType_MAX \<and> id_ok r1 \<and> id_ok r2 \<and> id_ok r3 \<and> id_ok d \<and> opt_ok c"
| "call_ok (Stream_Store dt a r1 r2 r3 s c) \<longleftrightarrow> dt \<noteq> DataType_MAX \<and> id_ok r1 \<and> id_ok r2 \<and> id_ok r3 \<and> id_ok s \<and> opt_ok c"
| "call_ok (Indirect_Load dt a i d c) \<longleftrightarrow> dt \<noteq> DataType_MAX \<and> id_ok i \<and> id_ok d \<and> opt_ok c"
| "call_ok (Indirect_Load_Virtual dt a i d b) \<longleftrightarrow> dt \<noteq> DataType_MAX \<and> id_ok i \<and> id_ok d"
| "call_ok (Store_Vector dt a i s c d) \<longleftrightarrow> dt \<noteq> DataType_MAX \<and> id_ok i \<and> id_ok s \<and> opt_ok c \<and> opt_ok d"
| "call_ok (Store_Scalar dt a i r c d) \<longleftrightarrow> dt \<noteq> DataType_MAX \<and> id_ok i \<and> id_ok r \<and> opt_ok c \<and> opt_ok d"
| "call_ok (Rmw_Vector dt a i s op c d) \<longleftrightarrow> dt \<noteq> DataType_MAX \<and> id_ok i \<and> id_ok s \<and> opt_ok c \<and> opt_ok d"
| "call_ok (Rmw_Scalar dt a i r op c d) \<longleftrightarrow> dt \<noteq> DataType_MAX \<and> id_ok i \<and> id_ok r \<and> opt_ok c \<and> opt_ok d"
| "call_ok (Range_Loop li lj mn mx st di dj c) \<longleftrightarrow> id_ok li \<and> id_ok lj \<and> id_ok mn \<and> id_ok mx \<and> id_ok st \<and> id_ok di \<and> id_ok dj \<and> opt_ok c"

section \<open>Fields of a word\<close>

lemma low_byte: "(word_of_bytes (b # bs) :: u64) AND 0xFF = ucast b"
proof (rule bit_word_eqI)
  fix n assume "n < LENGTH(64)"
  have m: "(0xFF :: u64) = mask 8" by (simp add: mask_eq_exp_minus_1)
  show "bit ((word_of_bytes (b # bs) :: u64) AND 0xFF) n = bit (ucast b :: u64) n"
  proof (cases "n < 8")
    case True
    then show ?thesis unfolding m by (simp add: bit_simps bit_word_of_bytes)
  next
    case False
    then show ?thesis unfolding m using bit_imp_le_length[of b n] by (auto simp: bit_simps)
  qed
qed

lemma next_bytes:
  assumes "length bs \<le> 7"
  shows "drop_bit 8 (word_of_bytes (b # bs) :: u64) = word_of_bytes bs"
proof (rule bit_word_eqI)
  fix n assume n: "n < LENGTH(64)"
  have "(8 + n) div 8 = Suc (n div 8)" "(8 + n) mod 8 = n mod 8" by simp_all
  moreover have "n div 8 < length bs \<Longrightarrow> 8 + n < 64" using assms by linarith
  ultimately show "bit (drop_bit 8 (word_of_bytes (b # bs) :: u64)) n = bit (word_of_bytes bs :: u64) n"
    using n by (auto simp: bit_simps bit_word_of_bytes)
qed

lemma na_byte: "ucast (- 1 :: u8) = (0xFF :: u64)"
  by code_simp

lemma opt_tile_byte:
  assumes "opt_ok x"
  shows "opt_tile x = ucast (word_of_int x :: u8)"
proof (cases "x = - 1")
  case True
  then show ?thesis by (simp add: opt_tile_def NA_UINT8_def na_byte)
next
  case False
  then have "0 \<le> x" "x < 256" using assms unfolding opt_ok_def by auto
  then have "uint (word_of_int x :: u8) = x" by (simp add: uint_word_of_int)
  then show ?thesis using False by (simp add: opt_tile_def unsigned_ucast_eq ucast_eq del: word_of_int_uint)
qed

lemma plain_is_opt: "id_ok x \<Longrightarrow> word_of_int x = opt_tile x" "id_ok x \<Longrightarrow> opt_ok x"
  by (auto simp: id_ok_def opt_ok_def opt_tile_def)

lemma uint_na: "uint (0xFF :: u64) = 255"
  by simp

lemma id_field_byte:
  assumes "opt_ok x"
  shows "id_field (word_of_bytes (word_of_int x # bs)) = x"
proof (cases "x = - 1")
  case True
  then show ?thesis by (simp add: id_field_def NA_UINT8_def low_byte na_byte)
next
  case False
  then have x: "0 \<le> x" "x < 255" using assms unfolding opt_ok_def by auto
  then have u: "uint (ucast (word_of_int x :: u8) :: u64) = x" by (simp add: unsigned_ucast_eq uint_word_of_int take_bit_eq_mod)
  then have "ucast (word_of_int x :: u8) \<noteq> (0xFF :: u64)" using x by (metis less_irrefl uint_na)
  then show ?thesis using u by (simp add: id_field_def NA_UINT8_def low_byte)
qed

lemma enum_field_code:
  assumes "k < length es" "k < 255" and "b = of_nat k"
  shows "enum_field es none (word_of_bytes (b # bs)) = Inr (es ! k)"
proof -
  have u: "unat (ucast b :: u64) = k" using assms(2,3) by (simp add: unsigned_ucast_eq unat_of_nat take_bit_nat_eq_self)
  then have "ucast b \<noteq> (0xFF :: u64)" using assms(2) by auto
  then show ?thesis using u assms(1) by (simp add: enum_field_def NA_UINT8_def low_byte)
qed

lemma enum_field_none: "enum_field es none (word_of_bytes (- 1 # bs)) = Inr none"
  by (simp add: enum_field_def NA_UINT8_def low_byte na_byte)

lemma word0_bytes:
  "instr_word0 (ucast (a :: u8)) (ucast (b :: u8)) (ucast (c :: u8)) (ucast (d :: u8)) (ucast (e :: u8)) = word_of_bytes [e, d, c, b, a]"
  by (simp add: instr_word0_def word_of_bytes_def push_bit_or push_bit_push_bit or.commute or.left_commute)

lemma word1_bytes:
  "instr_word1 (ucast (a :: u8)) (ucast (b :: u8)) (ucast (c :: u8)) (ucast (d :: u8)) (ucast (e :: u8)) (ucast (f :: u8))
     (ucast (g :: u8)) (ucast (h :: u8)) = word_of_bytes [h, g, f, e, d, c, b, a]"
  by (simp add: instr_word1_def word_of_bytes_def push_bit_or push_bit_push_bit or.commute or.left_commute)

lemma decode_word1_encoded:
  assumes "opt_ok a" "opt_ok b" "opt_ok c" "opt_ok d" "opt_ok e" "opt_ok f" "opt_ok g" "opt_ok h"
  shows "decode_word1 ins (instr_word1 (opt_tile a) (opt_tile b) (opt_tile c) (opt_tile d) (opt_tile e) (opt_tile f) (opt_tile g) (opt_tile h)) =
    ins\<lparr> condSpdID := h, src3RegID := g, src2RegID := f, src1RegID := e, dst2RegID := d, dst1RegID := c, src2SpdID := b, src1SpdID := a \<rparr>"
  unfolding assms[THEN opt_tile_byte] word1_bytes decode_word1_def Let_def using assms
  by (simp add: next_bytes id_field_byte)

lemma code_byte: "k < 256 \<Longrightarrow> (of_nat k :: u64) = ucast (of_nat k :: u8)"
  by (simp add: word_unat_eq_iff unsigned_ucast_eq unat_of_nat take_bit_nat_eq_self)

lemma opcode_code_in: "code_in opcode_list oc < 13 \<and> opcode_list ! code_in opcode_list oc = oc"
  by (cases oc) (simp_all add: opcode_list_def)

lemma datatype_code_in: "code_in datatype_list dt < 7 \<and> datatype_list ! code_in datatype_list dt = dt"
  by (cases dt) (simp_all add: datatype_list_def)

lemma operation_code_in: "code_in operation_list op < 17"
  by (cases op) (simp_all add: operation_list_def)

definition op_field :: "Operation_t option \<Rightarrow> u64" where
  "op_field op = (case op of None \<Rightarrow> NA_UINT8 | Some x \<Rightarrow> operation_code x)"

lemma decode_word0_encoded:
  assumes "opt_ok d1" "opt_ok d2" "oc \<noteq> Opcode_MAX" "dt \<noteq> DataType_MAX"
  shows "decode_word0 ins (instr_word0 (opcode_code oc) (datatype_code dt) (op_field op) (opt_tile d1) (opt_tile d2)) =
    Inr (ins\<lparr> dst2SpdID := d2, dst1SpdID := d1, optype := (case op of None \<Rightarrow> OPType_MAX | Some x \<Rightarrow> hw_op x),
              datatyp := dt, opcode := oc, accessType := access_of_opcode oc \<rparr>)"
proof -
  define ob where "ob = (case op of None \<Rightarrow> - 1 :: u8 | Some x \<Rightarrow> of_nat (code_in operation_list x))"
  have len: "length opcode_list = 13" "length datatype_list = 7" "length optype_list = 17"
    by (simp_all add: opcode_list_def datatype_list_def optype_list_def)
  have c: "opcode_code oc = ucast (of_nat (code_in opcode_list oc) :: u8)" "datatype_code dt = ucast (of_nat (code_in datatype_list dt) :: u8)"
    unfolding opcode_code_def datatype_code_def using opcode_code_in[of oc] datatype_code_in[of dt] by (simp_all add: code_byte)
  have o: "op_field op = ucast ob"
    unfolding op_field_def ob_def operation_code_def NA_UINT8_def
    by (cases op) (simp_all add: na_byte code_byte order.strict_trans[OF operation_code_in])
  have o': "enum_field optype_list OPType_MAX (word_of_bytes (ob # bs)) = Inr (case op of None \<Rightarrow> OPType_MAX | Some x \<Rightarrow> hw_op x)" for bs
    unfolding ob_def hw_op_def
    by (cases op) (simp_all add: enum_field_none enum_field_code[OF _ _ refl] len operation_code_in order.strict_trans[OF operation_code_in])
  have e: "enum_field opcode_list n1 (word_of_bytes (of_nat (code_in opcode_list oc) # bs)) = Inr oc"
       "enum_field datatype_list n2 (word_of_bytes (of_nat (code_in datatype_list dt) # bs)) = Inr dt" for n1 n2 bs
    using opcode_code_in[of oc] datatype_code_in[of dt] by (simp_all add: enum_field_code[OF _ _ refl] len)
  show ?thesis
    unfolding decode_word0_def Let_def c o assms(1,2)[THEN opt_tile_byte] word0_bytes
    using assms by (simp add: next_bytes id_field_byte o' e)
qed

section \<open>From the call to the pending instruction\<close>

lemma find_pending_fresh: "\<forall>p \<in> set ps. pi_rid p \<noteq> rid \<Longrightarrow> find_pending rid i ps found = Inr found"
  by (induction ps arbitrary: i) auto

lemma find_pending_last:
  assumes "\<forall>p \<in> set ps. pi_rid p \<noteq> rid" "pi_rid q = rid" "\<not> pi_recv q"
  shows "find_pending rid i (ps @ [q]) (- 1) = Inr (i + int (length ps))"
  using assms(1) by (induction ps arbitrary: i) (auto simp: assms(2,3))

lemma core_of_rid_pendings: "core_of_rid c rid = Inr (k, c1) \<Longrightarrow> pendings c1 = pendings c \<and> cs_num_maas c1 = cs_num_maas c"
  by (auto simp: core_of_rid_def Let_def split: option.splits if_splits)

abbreviation waiting_for :: "cpu_side \<Rightarrow> nat \<Rightarrow> pending_instr list \<Rightarrow> Instruction \<Rightarrow> bool \<Rightarrow> nat \<Rightarrow> cpu_side" where
  "waiting_for c rid ps ins recv pkt \<equiv>
     c\<lparr> pendings := ps @ [\<lparr> pi_instr = ins, pi_rid = rid, pi_recv = recv, pi_pkt = pkt \<rparr>] \<rparr>"

lemma recv_first:
  assumes "\<forall>p \<in> set (pendings c). pi_rid p \<noteq> rid" "core_of_rid c rid = Inr (core, c1)" "0 < cs_num_maas c"
    and "decode_word0 (ins0\<lparr> core_id := int core, maa_id := int core mod int (cs_num_maas c) \<rparr>) w = Inr ins"
  shows "recv_instruction t ins0 c rid pkt cid pc 0 w = Inr (True, waiting_for c1 rid (pendings c) ins False pkt)"
  using assms core_of_rid_pendings[OF assms(2)] by (simp add: recv_instruction_def find_pending_fresh)

lemma recv_next:
  assumes "\<forall>p \<in> set ps. pi_rid p \<noteq> rid"
  shows "recv_instruction t ins0 (waiting_for c rid ps ins False k) rid pkt cid pc 1 w =
      Inr (True, waiting_for c rid ps (decode_word1 ins w) False pkt)"
    and "decode_word2 t cid pc ins w = Inr ins2 \<Longrightarrow>
      recv_instruction t ins0 (waiting_for c rid ps ins False k) rid pkt cid pc 2 w =
      Inr (opcode ins2 = INDIR_LD_VIRTUAL, waiting_for c rid ps ins2 (opcode ins2 \<noteq> INDIR_LD_VIRTUAL) pkt)"
    and "opcode ins = INDIR_LD_VIRTUAL \<Longrightarrow>
      recv_instruction t ins0 (waiting_for c rid ps ins False k) rid pkt cid pc 3 w =
      Inr (False, waiting_for c rid ps (ins\<lparr> backingAddr := w \<rparr>) True pkt)"
  using assms by (simp_all add: recv_instruction_def find_pending_last arr_get_def nth_append list_update_append)

text \<open>The three words, and the four words of a virtual load, make one received instruction.\<close>

lemma recv_three:
  assumes "\<forall>p \<in> set (pendings c). pi_rid p \<noteq> rid" "core_of_rid c rid = Inr (core, c1)" "0 < cs_num_maas c"
    and "decode_word0 (ins0\<lparr> core_id := int core, maa_id := int core mod int (cs_num_maas c) \<rparr>) w0 = Inr i0"
    and "decode_word2 t cid pc (decode_word1 i0 w1) w2 = Inr i2" "opcode i2 \<noteq> INDIR_LD_VIRTUAL"
  shows "recv_writes t ins0 c rid pkt cid pc [(0, w0), (1, w1), (2, w2)] = Inr (False, waiting_for c1 rid (pendings c) i2 True (Suc (Suc pkt)))"
  using assms(6) by (simp add: recv_first[OF assms(1-4)] recv_next(1)[OF assms(1), unfolded One_nat_def] recv_next(2)[OF assms(1,5)])

lemma recv_four:
  assumes "\<forall>p \<in> set (pendings c). pi_rid p \<noteq> rid" "core_of_rid c rid = Inr (core, c1)" "0 < cs_num_maas c"
    and "decode_word0 (ins0\<lparr> core_id := int core, maa_id := int core mod int (cs_num_maas c) \<rparr>) w0 = Inr i0"
    and "decode_word2 t cid pc (decode_word1 i0 w1) w2 = Inr i2" "opcode i2 = INDIR_LD_VIRTUAL"
  shows "recv_writes t ins0 c rid pkt cid pc [(0, w0), (1, w1), (2, w2), (3, w3)] =
    Inr (False, waiting_for c1 rid (pendings c) (i2\<lparr> backingAddr := w3 \<rparr>) True (Suc (Suc (Suc pkt))))"
  using assms(6) by (simp add: recv_first[OF assms(1-4)] recv_next(1)[OF assms(1), unfolded One_nat_def] recv_next(2)[OF assms(1,5)] recv_next(3)[OF assms(1)])

text \<open>Both words of a call in the form the decoder lemmas use.\<close>

lemmas call_defs = maa_alu_scalar_def maa_alu_vector_def maa_alu_reduce_def maa_stream_load_def maa_stream_store_def
  maa_indirect_load_def maa_indirect_load_virtual_def maa_indirect_store_vector_def maa_indirect_store_scalar_def
  maa_indirect_rmw_vector_def maa_indirect_rmw_scalar_def maa_range_loop_def

lemma as_fields: "NA_UINT8 = opt_tile (- 1)" "operation_code op = op_field (Some op)" "opt_ok (- 1)"
  by (simp_all add: opt_tile_def op_field_def opt_ok_def)

lemma no_operation: "opt_tile (- 1) = op_field None"
  by (simp add: opt_tile_def op_field_def)

text \<open>The words of a call, uniformly: two operand words, the base address, and the backing address of a virtual load.\<close>

lemma api_writes_words:
  assumes "call_ok c"
  obtains oc dt op d1 d2 s1 s2 r1 r2 q1 q2 q3 cnd where
    "api_writes c = [(0, instr_word0 (opcode_code oc) (datatype_code dt) (op_field op) (opt_tile d1) (opt_tile d2)),
       (1, instr_word1 (opt_tile s1) (opt_tile s2) (opt_tile r1) (opt_tile r2) (opt_tile q1) (opt_tile q2) (opt_tile q3) (opt_tile cnd)),
       (2, call_base c)] @ (case c of Indirect_Load_Virtual dt a i d b \<Rightarrow> [(3, b)] | _ \<Rightarrow> [])"
    and "call_instr c = with_operands oc dt (case op of None \<Rightarrow> OPType_MAX | Some x \<Rightarrow> hw_op x) (d1, d2) (s1, s2) (r1, r2) (q1, q2, q3) cnd"
    and "oc \<noteq> Opcode_MAX" "dt \<noteq> DataType_MAX" "opt_ok d1" "opt_ok d2"
    and "opt_ok s1" "opt_ok s2" "opt_ok r1" "opt_ok r2" "opt_ok q1" "opt_ok q2" "opt_ok q3" "opt_ok cnd"
    and "oc = INDIR_LD_VIRTUAL \<longleftrightarrow> (\<exists>dt a i d b. c = Indirect_Load_Virtual dt a i d b)"
proof (cases c)
  case (Alu_Scalar dt s1 r d op k)
  then show thesis using assms that[of ALU_SCALAR dt "Some op" d "- 1" s1 "- 1" "- 1" "- 1" r "- 1" "- 1" k]
    by (simp add: call_defs plain_is_opt as_fields)
next
  case (Alu_Vector dt s1 s2 d op k)
  then show thesis using assms that[of ALU_VECTOR dt "Some op" d "- 1" s1 s2 "- 1" "- 1" "- 1" "- 1" "- 1" k]
    by (simp add: call_defs plain_is_opt as_fields)
next
  case (Alu_Reduce dt s r op k)
  then show thesis using assms that[of ALU_REDUCE dt "Some op" "- 1" "- 1" s "- 1" r "- 1" "- 1" "- 1" "- 1" k]
    by (simp add: call_defs plain_is_opt as_fields)
next
  case (Stream_Load dt a q1 q2 q3 d k)
  then show thesis using assms that[of STREAM_LD dt None d "- 1" "- 1" "- 1" "- 1" "- 1" q1 q2 q3 k]
    by (simp add: call_defs plain_is_opt as_fields no_operation[symmetric])
next
  case (Stream_Store dt a q1 q2 q3 s k)
  then show thesis using assms that[of STREAM_ST dt None "- 1" "- 1" s "- 1" "- 1" "- 1" q1 q2 q3 k]
    by (simp add: call_defs plain_is_opt as_fields no_operation[symmetric])
next
  case (Indirect_Load dt a i d k)
  then show thesis using assms that[of INDIR_LD dt None d "- 1" i "- 1" "- 1" "- 1" "- 1" "- 1" "- 1" k]
    by (simp add: call_defs plain_is_opt as_fields no_operation[symmetric])
next
  case (Indirect_Load_Virtual dt a i d b)
  then show thesis using assms that[of INDIR_LD_VIRTUAL dt None d "- 1" i "- 1" "- 1" "- 1" "- 1" "- 1" "- 1" "- 1"]
    by (simp add: call_defs plain_is_opt as_fields no_operation[symmetric])
next
  case (Store_Vector dt a i s k d)
  then show thesis using assms that[of INDIR_ST_VECTOR dt None d "- 1" i s "- 1" "- 1" "- 1" "- 1" "- 1" k]
    by (simp add: call_defs plain_is_opt as_fields no_operation[symmetric])
next
  case (Store_Scalar dt a i r k d)
  then show thesis using assms that[of INDIR_ST_SCALAR dt None d "- 1" i "- 1" "- 1" "- 1" r "- 1" "- 1" k]
    by (simp add: call_defs plain_is_opt as_fields no_operation[symmetric])
next
  case (Rmw_Vector dt a i s op k d)
  then show thesis using assms that[of INDIR_RMW_VECTOR dt "Some op" d "- 1" i s "- 1" "- 1" "- 1" "- 1" "- 1" k]
    by (simp add: call_defs plain_is_opt as_fields)
next
  case (Rmw_Scalar dt a i r op k d)
  then show thesis using assms that[of INDIR_RMW_SCALAR dt "Some op" d "- 1" i "- 1" "- 1" "- 1" r "- 1" "- 1" k]
    by (simp add: call_defs plain_is_opt as_fields)
next
  case (Range_Loop li lj mn mx st di dj k)
  then show thesis using assms that[of RANGE_LOOP INT32_TYPE None di dj mn mx li lj st "- 1" "- 1" k]
    by (simp add: call_defs plain_is_opt as_fields no_operation[symmetric])
qed

lemma decode_call:
  fixes op :: "Operation_t option" and ins0 :: Instruction and cid :: int and pc :: Addr
  assumes "oc \<noteq> Opcode_MAX" "dt \<noteq> DataType_MAX" "opt_ok d1" "opt_ok d2"
    and "opt_ok s1" "opt_ok s2" "opt_ok r1" "opt_ok r2" "opt_ok q1" "opt_ok q2" "opt_ok q3" "opt_ok cnd"
    and reg: "access_of_opcode oc \<noteq> COMPUTE \<Longrightarrow> getAddrRegion t a = Inr r \<and> arr_get (addrRegions t) r = Inr (lo, hi)"
  defines "w0 \<equiv> instr_word0 (opcode_code oc) (datatype_code dt) (op_field op) (opt_tile d1) (opt_tile d2)"
    and "w1 \<equiv> instr_word1 (opt_tile s1) (opt_tile s2) (opt_tile r1) (opt_tile r2) (opt_tile q1) (opt_tile q2) (opt_tile q3) (opt_tile cnd)"
    and "hop \<equiv> (case op of None \<Rightarrow> OPType_MAX | Some x \<Rightarrow> hw_op x)"
  defines "ins \<equiv> with_operands oc dt hop (d1, d2) (s1, s2) (r1, r2) (q1, q2, q3) cnd (ins0\<lparr> baseAddr := a, istate := Instr_Idle, CID := cid, PC := pc \<rparr>)"
  shows "\<exists>i0. decode_word0 ins0 w0 = Inr i0 \<and> decode_word2 t cid pc (decode_word1 i0 w1) a =
    Inr (if access_of_opcode oc = COMPUTE then ins else ins\<lparr> addrRangeID := r, minAddr := lo, maxAddr := hi \<rparr>)"
proof (rule exI, rule conjI)
  show "decode_word0 ins0 w0 = Inr (ins0\<lparr> dst2SpdID := d2, dst1SpdID := d1, optype := hop, datatyp := dt, opcode := oc,
      accessType := access_of_opcode oc \<rparr>)"
    unfolding w0_def hop_def using assms(3,4,1,2) by (rule decode_word0_encoded)
  show "decode_word2 t cid pc (decode_word1 (ins0\<lparr> dst2SpdID := d2, dst1SpdID := d1, optype := hop, datatyp := dt, opcode := oc,
      accessType := access_of_opcode oc \<rparr>) w1) a =
    Inr (if access_of_opcode oc = COMPUTE then ins else ins\<lparr> addrRangeID := r, minAddr := lo, maxAddr := hi \<rparr>)"
    unfolding w1_def decode_word1_encoded[OF assms(5-12)] ins_def with_operands_def decode_word2_def Let_def
    using reg by simp
qed

abbreviation in_region :: "int \<Rightarrow> Addr \<Rightarrow> Addr \<Rightarrow> Instruction \<Rightarrow> Instruction" where
  "in_region r lo hi i \<equiv> (if accessType i = COMPUTE then i else i\<lparr> addrRangeID := r, minAddr := lo, maxAddr := hi \<rparr>)"

lemma call_decoded:
  assumes ok: "call_ok c" and reg: "accessType (call_instr c ins0) \<noteq> COMPUTE \<longrightarrow>
      getAddrRegion t (call_base c) = Inr r \<and> arr_get (addrRegions t) r = Inr (lo, hi)"
  obtains w0 w1 i0 i2 where "api_writes c = [(0, w0), (1, w1), (2, call_base c)] @ (case c of Indirect_Load_Virtual dt a i d b \<Rightarrow> [(3, b)] | _ \<Rightarrow> [])"
    and "decode_word0 ins1 w0 = Inr i0" "decode_word2 t cid pc (decode_word1 i0 w1) (call_base c) = Inr i2"
    and "i2 = in_region r lo hi (call_instr c (ins1\<lparr> baseAddr := call_base c, istate := Instr_Idle, CID := cid, PC := pc \<rparr>))"
    and "opcode i2 = INDIR_LD_VIRTUAL \<longleftrightarrow> (\<exists>dt a i d b. c = Indirect_Load_Virtual dt a i d b)"
proof (rule api_writes_words[OF ok])
  fix oc dt op d1 d2 t1 t2 r1 r2 q1 q2 q3 cnd
  assume w:
    "api_writes c = [(0, instr_word0 (opcode_code oc) (datatype_code dt) (op_field op) (opt_tile d1) (opt_tile d2)),
       (1, instr_word1 (opt_tile t1) (opt_tile t2) (opt_tile r1) (opt_tile r2) (opt_tile q1) (opt_tile q2) (opt_tile q3) (opt_tile cnd)),
       (2, call_base c)] @ (case c of Indirect_Load_Virtual dt a i d b \<Rightarrow> [(3, b)] | _ \<Rightarrow> [])"
    and i: "call_instr c = with_operands oc dt (case op of None \<Rightarrow> OPType_MAX | Some x \<Rightarrow> hw_op x) (d1, d2) (t1, t2) (r1, r2) (q1, q2, q3) cnd"
    and o: "oc \<noteq> Opcode_MAX" "dt \<noteq> DataType_MAX" "opt_ok d1" "opt_ok d2"
      "opt_ok t1" "opt_ok t2" "opt_ok r1" "opt_ok r2" "opt_ok q1" "opt_ok q2" "opt_ok q3" "opt_ok cnd"
    and v: "oc = INDIR_LD_VIRTUAL \<longleftrightarrow> (\<exists>dt a i d b. c = Indirect_Load_Virtual dt a i d b)"
  have reg': "access_of_opcode oc \<noteq> COMPUTE \<Longrightarrow> getAddrRegion t (call_base c) = Inr r \<and> arr_get (addrRegions t) r = Inr (lo, hi)"
    using reg unfolding i by (simp add: with_operands_def)
  have acc: "accessType (call_instr c x) = access_of_opcode oc" "opcode (call_instr c x) = oc" for x
    unfolding i by (simp_all add: with_operands_def)
  obtain i0 where "decode_word0 ins1 (instr_word0 (opcode_code oc) (datatype_code dt) (op_field op) (opt_tile d1) (opt_tile d2)) = Inr i0"
      "decode_word2 t cid pc (decode_word1 i0 (instr_word1 (opt_tile t1) (opt_tile t2) (opt_tile r1) (opt_tile r2) (opt_tile q1) (opt_tile q2) (opt_tile q3) (opt_tile cnd))) (call_base c) =
        Inr (in_region r lo hi (call_instr c (ins1\<lparr> baseAddr := call_base c, istate := Instr_Idle, CID := cid, PC := pc \<rparr>)))"
    using decode_call[OF o reg', where op = op and ?ins0.0 = ins1 and cid = cid and pc = pc, folded i] unfolding acc by blast
  with w show thesis by (rule that) (use acc v in simp_all)
qed

lemma not_virtual:
  "\<not> (\<exists>dt a i d b. c = Indirect_Load_Virtual dt a i d b) \<Longrightarrow>
    (case c of Indirect_Load_Virtual dt a i d b \<Rightarrow> f dt a i d b | _ \<Rightarrow> y) = y"
  by (cases c) auto


definition regions_demo :: region_table where
  "regions_demo = \<lparr> addrRegions = (replicate MAX_CMD_REGIONS (0, 0))[7 := (4096, 8192)], maxRegionID = 31 \<rparr>"

definition cpu_demo :: cpu_side where
  "cpu_demo = \<lparr> pendings = [], rid_core = [(5, 0), (9, 1)], cs_num_cores = 4, cs_num_maas = 2 \<rparr>"


section \<open>Region lookup\<close>

definition inside :: "region_table \<Rightarrow> int \<Rightarrow> Addr \<Rightarrow> bool" where
  "inside t k a \<longleftrightarrow> 0 \<le> k \<and> k < int MAX_CMD_REGIONS \<and> fst (addrRegions t ! nat k) \<le> a \<and> a < snd (addrRegions t ! nat k)"

inductive region_reachable :: "region_table \<Rightarrow> bool" where
  cleared: "region_reachable clearAddrRegion"
| added: "region_reachable t \<Longrightarrow> addAddrRegion t start stop k = Inr t' \<Longrightarrow> region_reachable t'"

definition regions_wf :: "region_table \<Rightarrow> bool" where
  "regions_wf t \<longleftrightarrow> length (addrRegions t) = MAX_CMD_REGIONS \<and>
     (maxRegionID t = int MAX_CMD_REGIONS - 1 \<or> maxRegionID t = - 1 \<and> (\<forall>r \<in> set (addrRegions t). r = (0, 0)))"

lemma region_scan_last: "region_scan start stop i rs m = Inr m' \<Longrightarrow> m' = (if rs = [] then m else i + int (length rs) - 1)"
proof (induction rs arbitrary: i m)
  case (Cons r rs)
  then have "region_scan start stop (i + 1) rs i = Inr m'" by (auto split: if_splits)
  from Cons.IH[OF this] show ?case by simp
qed simp

lemma add_effect:
  assumes "regions_wf t" "addAddrRegion t start stop k = Inr t'"
  shows "regions_wf t' \<and> 0 \<le> k \<and> k < int MAX_CMD_REGIONS \<and> start < stop \<and> addrRegions t' = (addrRegions t)[nat k := (start, stop)]"
proof -
  have p: "k < int MAX_CMD_REGIONS" "start < stop" using assms(2) unfolding addAddrRegion_def by (auto split: if_splits)
  obtain m rs where m: "region_scan start stop 0 (addrRegions t) (- 1) = Inr m" "arr_set (addrRegions t) k (start, stop) = Inr rs"
      "t' = \<lparr> addrRegions = rs, maxRegionID = (if k > m then k else m) \<rparr>"
    using assms(2) unfolding addAddrRegion_def by (auto simp: rbind_eq_Inr split: if_splits)
  have len: "length (addrRegions t) = MAX_CMD_REGIONS" using assms(1) unfolding regions_wf_def by blast
  have "m = int MAX_CMD_REGIONS - 1" using region_scan_last[OF m(1)] len by (auto simp: MAX_CMD_REGIONS_def split: if_splits)
  then show ?thesis using m(2,3) p len unfolding regions_wf_def arr_set_def by (auto split: if_splits)
qed

lemma reachable_regions_wf: "region_reachable t \<Longrightarrow> regions_wf t"
proof (induction rule: region_reachable.induct)
  case cleared
  show ?case by (simp add: regions_wf_def clearAddrRegion_def)
next
  case (added t start stop k t')
  then show ?case using add_effect by blast
qed

lemma region_find_value:
  assumes "\<forall>i \<in> set is. 0 \<le> i \<and> i < int MAX_CMD_REGIONS" "length (addrRegions t) = MAX_CMD_REGIONS"
  shows "region_find (addrRegions t) a is = Inr (case find (\<lambda>i. inside t i a) is of Some i \<Rightarrow> i | None \<Rightarrow> - 1)"
  using assms(1)
proof (induction "is")
  case (Cons i "is")
  then have "arr_get (addrRegions t) i = Inr (addrRegions t ! nat i)" using assms(2) by (simp add: arr_get_def nat_less_iff)
  then show ?case using Cons by (cases "addrRegions t ! nat i") (auto simp: inside_def)
qed simp

lemma find_inside: "find (\<lambda>i. inside t i a) is = Some i \<Longrightarrow> i \<noteq> - 1"
  by (auto simp: find_Some_iff inside_def)

lemma getAddrRegion_value:
  assumes "regions_wf t"
  shows "getAddrRegion t a = (case find (\<lambda>i. inside t i a) [0..int MAX_CMD_REGIONS - 1] of Some i \<Rightarrow> Inr i | None \<Rightarrow> Inl Panic)"
proof -
  have len: "length (addrRegions t) = MAX_CMD_REGIONS" using assms unfolding regions_wf_def by blast
  have f: "find (\<lambda>i. inside t i a) [0..maxRegionID t] = find (\<lambda>i. inside t i a) [0..int MAX_CMD_REGIONS - 1]"
  proof (cases "maxRegionID t = - 1 \<and> (\<forall>r \<in> set (addrRegions t). r = (0, 0))")
    case True
    then have "addrRegions t ! nat i = (0, 0)" if "0 \<le> i" "i < int MAX_CMD_REGIONS" for i
      using that len nth_mem[of "nat i" "addrRegions t"] by (metis nat_less_iff)
    then have "\<not> inside t i a" for i unfolding inside_def by auto
    then show ?thesis by (metis find_None_iff)
  qed (use assms in \<open>auto simp: regions_wf_def\<close>)
  have "\<forall>i \<in> set [0..maxRegionID t]. 0 \<le> i \<and> i < int MAX_CMD_REGIONS" using assms unfolding regions_wf_def by auto
  from region_find_value[OF this len, of a] show ?thesis unfolding getAddrRegion_def f
    using find_inside by (cases "find (\<lambda>i. inside t i a) [0..int MAX_CMD_REGIONS - 1]") force+
qed

lemma find_upto:
  assumes "\<And>i. P i \<Longrightarrow> 0 \<le> i \<and> i \<le> n"
  shows "find P [0..n] = Some r \<longleftrightarrow> P r \<and> (\<forall>i < r. \<not> P i)"
proof
  assume "find P [0..n] = Some r"
  then obtain k where k: "k < nat (n + 1)" "P ([0..n] ! k)" "r = [0..n] ! k" "\<forall>j < k. \<not> P ([0..n] ! j)"
    by (auto simp: find_Some_iff)
  then have r: "r = int k" by (simp add: nth_upto)
  have "\<not> P i" if "i < r" for i
  proof
    assume "P i"
    then have "[0..n] ! nat i = i" using assms[of i] by (simp add: nth_upto)
    then show False using k(4) \<open>P i\<close> that r assms[of i] by (metis nat_less_iff)
  qed
  then show "P r \<and> (\<forall>i < r. \<not> P i)" using k by blast
next
  assume r: "P r \<and> (\<forall>i < r. \<not> P i)"
  then have "[0..n] ! nat r = r" "nat r < length [0..n]" using assms[of r] by (auto simp: nth_upto)
  moreover have "\<not> P ([0..n] ! j)" if "j < nat r" for j
  proof -
    have "[0..n] ! j = int j" "int j < r" using that r assms[of r] by (auto simp: nth_upto)
    then show ?thesis using r by simp
  qed
  ultimately show "find P [0..n] = Some r" unfolding find_Some_iff using r by metis
qed

lemma getAddrRegion_iff:
  assumes "regions_wf t"
  shows "getAddrRegion t a = Inr r \<longleftrightarrow> inside t r a \<and> (\<forall>i < r. \<not> inside t i a)"
    and "getAddrRegion t a = Inl Panic \<longleftrightarrow> (\<forall>i. \<not> inside t i a)"
proof -
  have f: "find (\<lambda>i. inside t i a) [0..int MAX_CMD_REGIONS - 1] = Some x \<longleftrightarrow> inside t x a \<and> (\<forall>i < x. \<not> inside t i a)" for x
    by (rule find_upto) (auto simp: inside_def)
  show "getAddrRegion t a = Inr r \<longleftrightarrow> inside t r a \<and> (\<forall>i < r. \<not> inside t i a)"
    unfolding getAddrRegion_value[OF assms] f[symmetric] by (auto split: option.splits)
  show "getAddrRegion t a = Inl Panic \<longleftrightarrow> (\<forall>i. \<not> inside t i a)"
  proof (cases "find (\<lambda>i. inside t i a) [0..int MAX_CMD_REGIONS - 1]")
    case None
    moreover have "\<not> inside t i a" for i using None by (cases "i \<in> set [0..int MAX_CMD_REGIONS - 1]") (auto simp: find_None_iff inside_def)
    ultimately show ?thesis unfolding getAddrRegion_value[OF assms] by simp
  next
    case (Some x)
    then show ?thesis unfolding getAddrRegion_value[OF assms] using f[of x] by auto
  qed
qed

lemma least_inside: "inside t k b \<Longrightarrow> \<exists>i \<le> k. inside t i b \<and> (\<forall>j < i. \<not> inside t j b)"
proof (induction "nat k" arbitrary: k rule: less_induct)
  case less
  show ?case
  proof (cases "\<exists>j < k. inside t j b")
    case True
    then obtain j where j: "j < k" "inside t j b" by blast
    then have "nat j < nat k" using less.prems unfolding inside_def by auto
    then show ?thesis using less.hyps[OF _ j(2)] j(1) by (meson order.trans less_imp_le)
  next
    case False
    then show ?thesis using less.prems by blast
  qed
qed

text \<open>
  C36.  Region lookup is exact.  In every table that starts cleared and is extended by additions, an address is
  found in the lowest-numbered region that contains it and the lookup panics exactly when no region does.
  After an addition every address of the added region is found, in that region or in a lower-numbered one
  that also contains it.
\<close>

theorem region_lookup_exact:
  assumes "region_reachable t" "addAddrRegion t start stop k = Inr t'"
  shows "(getAddrRegion t a = Inr r \<longleftrightarrow> inside t r a \<and> (\<forall>i < r. \<not> inside t i a)) \<and>
    (getAddrRegion t a = Inl Panic \<longleftrightarrow> (\<forall>i. \<not> inside t i a)) \<and>
    (start \<le> b \<and> b < stop \<longrightarrow> (\<exists>i \<le> k. getAddrRegion t' b = Inr i \<and> inside t' i b))"
proof -
  note wf = reachable_regions_wf[OF assms(1)] and e = add_effect[OF reachable_regions_wf[OF assms(1)] assms(2)]
  have "\<exists>i \<le> k. getAddrRegion t' b = Inr i \<and> inside t' i b" if "start \<le> b" "b < stop"
  proof -
    have "inside t' k b" using e that wf unfolding inside_def regions_wf_def by (auto simp: nat_less_iff)
    then obtain i where "inside t' i b" "i \<le> k" "\<forall>j < i. \<not> inside t' j b" using least_inside by blast
    then show ?thesis using getAddrRegion_iff(1)[of t' b i] e by blast
  qed
  then show ?thesis using getAddrRegion_iff[OF wf] by blast
qed

theorem region_lookup_exact_witness:
  "\<exists>t'. addAddrRegion clearAddrRegion 4096 8192 7 = Inr t' \<and> getAddrRegion clearAddrRegion 5000 = Inl Panic \<and>
    (\<exists>i \<le> 7. getAddrRegion t' 5000 = Inr i \<and> inside t' i 5000)"
proof -
  have a: "addAddrRegion clearAddrRegion 4096 8192 7 = Inr regions_demo" by code_simp
  have "\<not> inside clearAddrRegion i 5000" for i unfolding inside_def clearAddrRegion_def by (auto simp: nat_less_iff)
  then show ?thesis using region_lookup_exact[OF region_reachable.cleared a, of 5000 0 5000] a by auto
qed

end
