(* ===== verification/Spec2Isabelle.thy ===== *)
theory Spec2Isabelle
  imports SPD_Model Request_Table Row_Table IF_Model Invalidator_Tile RangeFuser_Model Addr_Map Instr_Decode
begin

text \<open>
  A verification library for the DX100 memory access accelerator (\<open>src/src/mem/MAA\<close>).
\<close>

end
